(* ===== verification/Lock_Interface.thy ===== *)
theory Lock_Interface
  imports Prelude
begin

text \<open>
  What a client may rely on when it takes and returns account locks, whichever table keeps
  them: the per-transaction table of \<^verbatim>\<open>src/accounts-db/src/account_locks.rs\<close> or the
  thread-aware table of the banking stage. A provider shows how its state represents the
  multiset of requests it has granted and not yet got back; the client side, runs of grants and
  returns in any order, is proved once here.
\<close>

section \<open>Account requests and conflicts\<close>

text \<open>A request for one account: the key, and whether it is writable.\<close>

type_synonym lock_request = "pubkey \<times> bool"

definition conflicts :: "lock_request set \<Rightarrow> lock_request set \<Rightarrow> bool" where
  "conflicts A B \<longleftrightarrow> (\<exists>a w w'. (a, w) \<in> A \<and> (a, w') \<in> B \<and> (w \<or> w'))"

lemma conflicts_sym: "conflicts A B \<longleftrightarrow> conflicts B A"
  by (auto simp: conflicts_def)

lemma conflicts_empty [simp]: "\<not> conflicts {} B" "\<not> conflicts A {}"
  by (auto simp: conflicts_def)

lemma conflicts_insert:
  "conflicts (insert (k, w) A) B \<longleftrightarrow> (k, True) \<in> B \<or> w \<and> (k, False) \<in> B \<or> conflicts A B"
  unfolding conflicts_def ex_bool_eq by blast

section \<open>Runs of a lock table\<close>

text \<open>
  \<open>grant s r s'\<close>: in state \<open>s\<close> the table may grant request \<open>r\<close> and be in \<open>s'\<close> after it.
  \<open>give s r\<close>: the state after \<open>r\<close> is returned, \<^const>\<open>None\<close> for a panic. A run starts with
  nothing granted; each step grants a request that fits (\<open>room\<close> bounds how much may be
  outstanding) or returns one that is outstanding.
\<close>

inductive lock_run ::
  "('s \<Rightarrow> 'r \<Rightarrow> 's \<Rightarrow> bool) \<Rightarrow> ('s \<Rightarrow> 'r \<Rightarrow> 's option) \<Rightarrow> ('r multiset \<Rightarrow> bool) \<Rightarrow> 's
    \<Rightarrow> 's \<Rightarrow> 'r multiset \<Rightarrow> bool"
  for grant give room init
where
  start: "lock_run grant give room init init {#}"
| grant: "lock_run grant give room init s H \<Longrightarrow> room (add_mset r H) \<Longrightarrow> grant s r s' \<Longrightarrow>
     lock_run grant give room init s' (add_mset r H)"
| give: "lock_run grant give room init s (add_mset r H) \<Longrightarrow> give s r = Some s' \<Longrightarrow>
     lock_run grant give room init s' H"

inductive_cases lock_run_startE: "lock_run grant give room init s {#}"

text \<open>
  \<open>represents s0 s H\<close>: \<open>s\<close> is a state of the table created as \<open>s0\<close>, and the requests \<open>H\<close>
  are outstanding in it.
\<close>

locale lock_table =
  fixes grant :: "'s \<Rightarrow> 'r \<Rightarrow> 's \<Rightarrow> bool"
    and give :: "'s \<Rightarrow> 'r \<Rightarrow> 's option"
    and room :: "'r multiset \<Rightarrow> bool"
    and created :: "'s \<Rightarrow> bool"
    and clash :: "'r \<Rightarrow> 'r \<Rightarrow> bool"
    and represents :: "'s \<Rightarrow> 's \<Rightarrow> 'r multiset \<Rightarrow> bool"
  assumes created_represents: "created s0 \<Longrightarrow> represents s0 s0 {#}"
    and represents_unique: "represents s0 s H \<Longrightarrow> represents s0 s' H \<Longrightarrow> s = s'"
    and grant_represents:
      "represents s0 s H \<Longrightarrow> room (add_mset r H) \<Longrightarrow> grant s r s' \<Longrightarrow>
        represents s0 s' (add_mset r H)"
    and grant_no_clash: "represents s0 s H \<Longrightarrow> grant s r s' \<Longrightarrow> q \<in># H \<Longrightarrow> \<not> clash r q"
    and give_represents:
      "represents s0 s (add_mset r H) \<Longrightarrow> \<exists>s'. give s r = Some s' \<and> represents s0 s' H"
    and clash_sym: "clash r q \<longleftrightarrow> clash q r"
begin

lemma run_represents: "lock_run grant give room s0 s H \<Longrightarrow> created s0 \<Longrightarrow> represents s0 s H"
proof (induction rule: lock_run.induct)
  case start
  then show ?case by (rule created_represents)
next
  case (grant s H r s')
  then show ?case by (blast intro: grant_represents)
next
  case (give s r H s')
  from give_represents [OF give.IH [OF give.prems]] give.hyps(2) show ?case by auto
qed

text \<open>No two outstanding requests ever clash.\<close>

lemma run_no_clash:
  "lock_run grant give room s0 s H \<Longrightarrow> created s0 \<Longrightarrow> r \<in># H \<Longrightarrow> q \<in># H - {#r#} \<Longrightarrow>
    \<not> clash r q"
proof (induction arbitrary: r q rule: lock_run.induct)
  case start
  then show ?case by simp
next
  case (grant s H p s')
  have new: "\<not> clash p x" if "x \<in># H" for x
    using grant_no_clash [OF run_represents [OF grant.hyps(1) grant.prems(1)] grant.hyps(3) that] .
  consider "r = p" | "r \<noteq> p" "q = p" | "r \<noteq> p" "q \<noteq> p" by blast
  then show ?case
  proof cases
    case 1
    with grant.prems new show ?thesis by simp
  next
    case 2
    with grant.prems new [of r] clash_sym show ?thesis by simp
  next
    case 3
    with grant.prems have "r \<in># H" "q \<in># H - {#r#}"
      by (auto simp: add_mset_diff_bothsides)
    with grant.prems(1) show ?thesis by (rule grant.IH)
  qed
next
  case (give s p H s')
  have "q \<in># add_mset p H - {#r#}"
    using give.prems(3) by (metis diff_subset_eq_self diff_union_swap in_diffD insertI2
        mset_subset_eqD set_mset_add_mset_insert add_mset_remove_trivial)
  with give.prems(1,2) show ?case by (intro give.IH) auto
qed

text \<open>Returning an outstanding request never panics, and the run goes on.\<close>

lemma run_give:
  assumes "lock_run grant give room s0 s (add_mset r H)" "created s0"
  shows "\<exists>s'. give s r = Some s' \<and> lock_run grant give room s0 s' H"
  using give_represents [OF run_represents [OF assms]] lock_run.give [OF assms(1)] by blast

text \<open>When everything has been returned, in whatever order, the table is as it was created.\<close>

lemma run_all_returned: "lock_run grant give room s0 s {#} \<Longrightarrow> created s0 \<Longrightarrow> s = s0"
  using run_represents created_represents represents_unique by blast

end

end
