(* ===== verification/Account_Locks.thy ===== *)
theory Account_Locks
  imports Lock_Interface
begin

text \<open>
  The account lock table of the accounts database, \<^verbatim>\<open>src/accounts-db/src/account_locks.rs\<close>:
  read and write lock counts per account, locking of one transaction and of a batch, unlocking,
  and the validation of a transaction's account list. The counts are \<^verbatim>\<open>u64\<close>.
\<close>

section \<open>State and operations\<close>

datatype transaction_error = AccountInUse | TooManyAccountLocks | AccountLoadedTwice

record account_locks =
  write_locks :: "pubkey \<rightharpoonup> u64"
  readonly_locks :: "pubkey \<rightharpoonup> u64"

definition account_locks_default :: account_locks where
  "account_locks_default = \<lparr>write_locks = Map.empty, readonly_locks = Map.empty\<rparr>"

definition is_locked_readonly :: "account_locks \<Rightarrow> pubkey \<Rightarrow> bool" where
  "is_locked_readonly s k = (case readonly_locks s k of None \<Rightarrow> False | Some c \<Rightarrow> c > 0)"

definition is_locked_write :: "account_locks \<Rightarrow> pubkey \<Rightarrow> bool" where
  "is_locked_write s k = (case write_locks s k of None \<Rightarrow> False | Some c \<Rightarrow> c > 0)"

definition can_read_lock :: "account_locks \<Rightarrow> pubkey \<Rightarrow> bool" where
  "can_read_lock s k \<longleftrightarrow> \<not> is_locked_write s k"

definition can_write_lock :: "account_locks \<Rightarrow> pubkey \<Rightarrow> bool" where
  "can_write_lock s k \<longleftrightarrow> \<not> is_locked_readonly s k \<and> \<not> is_locked_write s k"

text \<open>\<^verbatim>\<open>*map.entry(key).or_default() += 1\<close>, and the decrement that removes an exhausted entry.\<close>

definition bump :: "(pubkey \<rightharpoonup> u64) \<Rightarrow> pubkey \<Rightarrow> (pubkey \<rightharpoonup> u64)" where
  "bump m k = m(k \<mapsto> (case m k of None \<Rightarrow> 0 | Some c \<Rightarrow> c) + 1)"

definition unbump :: "(pubkey \<rightharpoonup> u64) \<Rightarrow> pubkey \<Rightarrow> (pubkey \<rightharpoonup> u64)" where
  "unbump m k = (case m k of
     None \<Rightarrow> m
   | Some c \<Rightarrow> (let c' = c - 1 in if c' = 0 then m(k := None) else m(k \<mapsto> c')))"

definition lock_readonly :: "account_locks \<Rightarrow> pubkey \<Rightarrow> account_locks" where
  "lock_readonly s k = s\<lparr>readonly_locks := bump (readonly_locks s) k\<rparr>"

definition lock_write :: "account_locks \<Rightarrow> pubkey \<Rightarrow> account_locks" where
  "lock_write s k = s\<lparr>write_locks := bump (write_locks s) k\<rparr>"

definition unlock_readonly :: "account_locks \<Rightarrow> pubkey \<Rightarrow> account_locks" where
  "unlock_readonly s k = s\<lparr>readonly_locks := unbump (readonly_locks s) k\<rparr>"

definition unlock_write :: "account_locks \<Rightarrow> pubkey \<Rightarrow> account_locks" where
  "unlock_write s k = s\<lparr>write_locks := unbump (write_locks s) k\<rparr>"

fun can_lock_accounts :: "account_locks \<Rightarrow> lock_request list \<Rightarrow> transaction_error + unit" where
  "can_lock_accounts s [] = Inr ()"
| "can_lock_accounts s ((k, writable) # ks) =
     (if writable then
        (if \<not> can_write_lock s k then Inl AccountInUse else can_lock_accounts s ks)
      else if \<not> can_read_lock s k then Inl AccountInUse
      else can_lock_accounts s ks)"

fun lock_accounts :: "account_locks \<Rightarrow> lock_request list \<Rightarrow> account_locks" where
  "lock_accounts s [] = s"
| "lock_accounts s ((k, writable) # ks) =
     lock_accounts (if writable then lock_write s k else lock_readonly s k) ks"

fun unlock_accounts :: "account_locks \<Rightarrow> lock_request list \<Rightarrow> account_locks" where
  "unlock_accounts s [] = s"
| "unlock_accounts s ((k, writable) # ks) =
     unlock_accounts (if writable then unlock_write s k else unlock_readonly s k) ks"

definition try_lock_accounts ::
  "account_locks \<Rightarrow> lock_request list \<Rightarrow> account_locks \<times> (transaction_error + unit)"
where
  "try_lock_accounts s keys = (case can_lock_accounts s keys of
     Inl e \<Rightarrow> (s, Inl e)
   | Inr _ \<Rightarrow> (lock_accounts s keys, Inr ()))"

text \<open>
  The batch version first decides every transaction against the locks held before the batch,
  then locks the ones that passed, so transactions of one batch may overlap each other.
\<close>

definition check_batch ::
  "account_locks \<Rightarrow> (transaction_error + lock_request list) list
    \<Rightarrow> (transaction_error + lock_request list) list"
where
  "check_batch s = map (\<lambda>validated_keys. case validated_keys of
     Inl e \<Rightarrow> Inl e
   | Inr keys \<Rightarrow> (case can_lock_accounts s keys of Inl e \<Rightarrow> Inl e | Inr _ \<Rightarrow> Inr keys))"

fun lock_batch ::
  "account_locks \<Rightarrow> (transaction_error + lock_request list) list
    \<Rightarrow> account_locks \<times> (transaction_error + unit) list"
where
  "lock_batch s [] = (s, [])"
| "lock_batch s (Inl e # rest) = (let (s', rs) = lock_batch s rest in (s', Inl e # rs))"
| "lock_batch s (Inr keys # rest) =
     (let (s', rs) = lock_batch (lock_accounts s keys) rest in (s', Inr () # rs))"

definition try_lock_transaction_batch ::
  "account_locks \<Rightarrow> (transaction_error + lock_request list) list
    \<Rightarrow> account_locks \<times> (transaction_error + unit) list"
where
  "try_lock_transaction_batch s batch = lock_batch s (check_batch s batch)"

section \<open>Validation of the account list\<close>

text \<open>
  \<^verbatim>\<open>account_keys.iter().any(|key| !set.insert(*key))\<close> with the thread-local set, which is
  cleared afterwards; and the quadratic search used for short lists.
\<close>

fun any_insert_fails :: "pubkey set \<Rightarrow> pubkey list \<Rightarrow> bool" where
  "any_insert_fails S [] = False"
| "any_insert_fails S (k # ks) = (if k \<in> S then True else any_insert_fails (insert k S) ks)"

definition pairwise_duplicate :: "pubkey list \<Rightarrow> bool" where
  "pairwise_duplicate keys =
     list_ex (\<lambda>i. list_ex (\<lambda>j. keys ! i = keys ! j) [i + 1..<length keys]) [0..<length keys]"

definition has_duplicates :: "pubkey set \<Rightarrow> pubkey list \<Rightarrow> bool \<times> pubkey set" where
  "has_duplicates scratch keys =
     (if length keys \<ge> 32 then (any_insert_fails scratch keys, {})
      else (pairwise_duplicate keys, scratch))"

definition validate_account_locks ::
  "pubkey set \<Rightarrow> pubkey list \<Rightarrow> nat \<Rightarrow> (transaction_error + unit) \<times> pubkey set"
where
  "validate_account_locks scratch keys limit =
     (if length keys > limit then (Inl TooManyAccountLocks, scratch)
      else let (dup, scratch') = has_duplicates scratch keys in
        (if dup then Inl AccountLoadedTwice else Inr (), scratch'))"

lemma any_insert_fails_iff: "any_insert_fails S keys \<longleftrightarrow> \<not> (distinct keys \<and> set keys \<inter> S = {})"
  by (induction keys arbitrary: S) auto

lemma pairwise_duplicate_iff: "pairwise_duplicate keys \<longleftrightarrow> \<not> distinct keys"
proof -
  have "pairwise_duplicate keys \<longleftrightarrow> (\<exists>i<length keys. \<exists>j\<in>{i<..<length keys}. keys ! i = keys ! j)"
    by (simp add: pairwise_duplicate_def list_ex_iff Bex_def Suc_le_eq)
  also have "\<dots> \<longleftrightarrow> \<not> distinct keys"
  proof
    assume "\<not> distinct keys"
    then obtain i j where "i < length keys" "j < length keys" "i \<noteq> j" "keys ! i = keys ! j"
      by (auto simp: distinct_conv_nth)
    then have "min i j < length keys" "max i j \<in> {min i j<..<length keys}"
      "keys ! min i j = keys ! max i j"
      by (auto simp: min_def max_def)
    then show "\<exists>i<length keys. \<exists>j\<in>{i<..<length keys}. keys ! i = keys ! j" by blast
  next
    assume "\<exists>i<length keys. \<exists>j\<in>{i<..<length keys}. keys ! i = keys ! j"
    then obtain i j where "i < j" "j < length keys" "keys ! i = keys ! j" by auto
    then show "\<not> distinct keys" using nth_eq_iff_index_eq [of keys i j] by auto
  qed
  finally show ?thesis .
qed

lemma has_duplicates_iff: "has_duplicates {} keys = (\<not> distinct keys, {})"
  by (simp add: has_duplicates_def any_insert_fails_iff pairwise_duplicate_iff)

section \<open>What a table represents\<close>

text \<open>The table that holds exactly the requests \<open>K\<close>: counts with no zero entry.\<close>

definition counts_of :: "lock_request multiset \<Rightarrow> bool \<Rightarrow> pubkey \<rightharpoonup> u64" where
  "counts_of K w = (\<lambda>k. let n = count K (k, w) in if n = 0 then None else Some (of_nat n))"

definition table_of :: "lock_request multiset \<Rightarrow> account_locks" where
  "table_of K = \<lparr>write_locks = counts_of K True, readonly_locks = counts_of K False\<rparr>"

abbreviation fits :: "lock_request multiset \<Rightarrow> bool" where
  "fits K \<equiv> size K < 2 ^ 64"

lemma count_fits: "fits K \<Longrightarrow> unat (of_nat (count K x) :: u64) = count K x"
  using count_le_size [of K x] by (simp add: unat_of_nat)

lemma count_fits_nonzero:
  assumes "fits K" "x \<in># K"
  shows "(of_nat (count K x) :: u64) > 0"
  using count_fits [OF assms(1), of x] assms(2) by (simp add: word_less_nat_alt)

lemma bump_counts_of: "bump (counts_of K w) k = counts_of (add_mset (k, w) K) w"
  by (rule ext) (simp add: bump_def counts_of_def Let_def not_in_iff)

lemma counts_of_other: "w \<noteq> w' \<Longrightarrow> counts_of (add_mset (k, w) K) w' = counts_of K w'"
  by (auto simp: counts_of_def)

lemma unbump_counts_of:
  assumes "fits (add_mset (k, w) K)"
  shows "unbump (counts_of (add_mset (k, w) K) w) k = counts_of K w"
proof -
  have fits: "fits K" using assms by simp
  have "(of_nat (count K (k, w)) :: u64) = 0 \<longleftrightarrow> count K (k, w) = 0"
    using count_fits [OF fits, of "(k, w)"] by (auto dest: arg_cong [of _ _ unat])
  then show ?thesis
    by (intro ext) (simp add: unbump_def counts_of_def Let_def not_in_iff)
qed

lemma table_lock:
  "(if w then lock_write (table_of K) k else lock_readonly (table_of K) k)
    = table_of (add_mset (k, w) K)"
  by (auto simp: lock_write_def lock_readonly_def table_of_def bump_counts_of counts_of_other)

lemma table_unlock:
  "fits (add_mset (k, w) K) \<Longrightarrow>
    (if w then unlock_write (table_of (add_mset (k, w) K)) k
     else unlock_readonly (table_of (add_mset (k, w) K)) k) = table_of K"
  by (auto simp: unlock_write_def unlock_readonly_def table_of_def unbump_counts_of counts_of_other)

lemma lock_accounts_table: "lock_accounts (table_of K) keys = table_of (K + mset keys)"
proof (induction keys arbitrary: K)
  case (Cons x keys)
  obtain k w where x: "x = (k, w)" by (cases x)
  show ?case
    using Cons.IH [of "add_mset (k, w) K"] by (simp add: x table_lock [of w K k])
qed simp

lemma unlock_accounts_table:
  "fits (K + mset keys) \<Longrightarrow> unlock_accounts (table_of (K + mset keys)) keys = table_of K"
proof (induction keys)
  case (Cons x keys)
  obtain k w where x: "x = (k, w)" by (cases x)
  have "fits (add_mset (k, w) (K + mset keys))" using Cons.prems by (simp add: x)
  from table_unlock [OF this] Cons show ?case by (simp add: x)
qed simp

lemma locked_iff:
  assumes "fits K"
  shows "is_locked_write (table_of K) k \<longleftrightarrow> (k, True) \<in># K"
    and "is_locked_readonly (table_of K) k \<longleftrightarrow> (k, False) \<in># K"
  using count_fits_nonzero [OF assms, of "(k, True)"] count_fits_nonzero [OF assms, of "(k, False)"]
  by (auto simp: is_locked_write_def is_locked_readonly_def table_of_def counts_of_def Let_def
      not_in_iff split: if_splits)

lemma can_lock_accounts_table:
  assumes "fits K"
  shows "can_lock_accounts (table_of K) keys =
    (if conflicts (set keys) (set_mset K) then Inl AccountInUse else Inr ())"
proof (induction keys)
  case Nil
  then show ?case by simp
next
  case (Cons x keys)
  obtain k w where x: "x = (k, w)" by (cases x)
  have "conflicts (set (x # keys)) (set_mset K) \<longleftrightarrow>
      (k, True) \<in># K \<or> w \<and> (k, False) \<in># K \<or> conflicts (set keys) (set_mset K)"
    by (simp add: x conflicts_insert)
  then show ?case
    using Cons.IH by (auto simp: x can_write_lock_def can_read_lock_def locked_iff [OF assms])
qed

section \<open>The table as a lock table\<close>

definition holds :: "lock_request list multiset \<Rightarrow> lock_request multiset" where
  "holds H = \<Sum>\<^sub># (image_mset mset H)"

lemma holds_simps [simp]:
  "holds {#} = {#}" "holds (add_mset r H) = mset r + holds H" "holds (G + H) = holds G + holds H"
  by (simp_all add: holds_def)

lemma set_holds: "q \<in># H \<Longrightarrow> set q \<subseteq> set_mset (holds H)"
  by (auto simp: holds_def)

definition tx_grant :: "account_locks \<Rightarrow> lock_request list \<Rightarrow> account_locks \<Rightarrow> bool" where
  "tx_grant s keys s' \<longleftrightarrow> try_lock_accounts s keys = (s', Inr ())"

definition tx_represents :: "account_locks \<Rightarrow> lock_request list multiset \<Rightarrow> bool" where
  "tx_represents s H \<longleftrightarrow> s = table_of (holds H) \<and> fits (holds H)"

lemma default_table: "account_locks_default = table_of {#}"
  by (simp add: account_locks_default_def table_of_def counts_of_def)

lemma try_lock_accounts_table:
  assumes "fits K"
  shows "try_lock_accounts (table_of K) keys =
    (if conflicts (set keys) (set_mset K) then (table_of K, Inl AccountInUse)
     else (table_of (K + mset keys), Inr ()))"
  using assms by (simp add: try_lock_accounts_def can_lock_accounts_table lock_accounts_table)

lemma conflicts_mono: "conflicts A B \<Longrightarrow> B \<subseteq> C \<Longrightarrow> conflicts A C"
  by (auto simp: conflicts_def)

interpretation txl: lock_table
  tx_grant "\<lambda>s keys. Some (unlock_accounts s keys)" "\<lambda>H. fits (holds H)"
  "\<lambda>s. s = account_locks_default" "\<lambda>r q. conflicts (set r) (set q)" "\<lambda>_. tx_represents"
proof (unfold_locales, goal_cases)
  case (1 s0)
  then show ?case by (simp add: tx_represents_def default_table)
next
  case (2 s0 s H s')
  then show ?case by (simp add: tx_represents_def)
next
  case (3 s0 s H r s')
  then show ?case
    by (simp add: tx_represents_def tx_grant_def try_lock_accounts_table add.commute [of "mset r"]
        split: if_split_asm)
next
  case (4 s0 s H r s' q)
  then have "\<not> conflicts (set r) (set_mset (holds H))"
    by (simp add: tx_represents_def tx_grant_def try_lock_accounts_table split: if_split_asm)
  then show ?case using conflicts_mono set_holds 4 by blast
next
  case (5 s0 s r H)
  then show ?case
    using unlock_accounts_table [of "holds H" r] by (simp add: tx_represents_def add.commute)
next
  case (6 r q)
  then show ?case by (rule conflicts_sym)
qed

section \<open>Batches\<close>

text \<open>The key lists of the transactions of a batch that got their locks, as the results say.\<close>

definition granted :: "(transaction_error + lock_request list) list \<Rightarrow> (transaction_error + unit) list
    \<Rightarrow> lock_request list list" where
  "granted batch rs = concat (map2 (\<lambda>b r. case (b, r) of (Inr keys, Inr _) \<Rightarrow> [keys] | _ \<Rightarrow> []) batch rs)"

lemma lock_batch_table:
  "lock_batch (table_of K) rs =
    (table_of (K + holds (mset (concat (map (case_sum (\<lambda>_. []) (\<lambda>keys. [keys])) rs)))),
     map (map_sum id (\<lambda>_. ())) rs)"
proof (induction rs arbitrary: K)
  case (Cons r rs)
  then show ?case by (cases r) (simp_all add: lock_accounts_table add.assoc)
qed simp


lemma set_mset_holds: "set_mset (holds H) = (\<Union>q\<in>set_mset H. set q)"
  by (simp add: holds_def)

lemma conflicts_holds:
  "conflicts A (set_mset (holds H)) \<longleftrightarrow> (\<exists>q\<in>#H. conflicts A (set q))"
  unfolding conflicts_def set_mset_holds by blast

text \<open>Each transaction of a batch is decided by the locks held before the batch.\<close>

definition decision ::
  "lock_request list multiset \<Rightarrow> transaction_error + lock_request list \<Rightarrow> transaction_error + unit" where
  "decision H = case_sum Inl (\<lambda>keys. if \<exists>q\<in>#H. conflicts (set keys) (set q) then Inl AccountInUse else Inr ())"

lemma granted_decided:
  "granted batch (map (decision H) batch) =
    concat (map (case_sum (\<lambda>_. []) (\<lambda>keys. if \<exists>q\<in>#H. conflicts (set keys) (set q) then [] else [keys])) batch)"
  by (induction batch) (auto simp: granted_def decision_def split: sum.split)


lemma try_lock_batch_table:
  assumes "fits (holds H)"
  shows "try_lock_transaction_batch (table_of (holds H)) batch =
    (table_of (holds (H + mset (granted batch (map (decision H) batch)))), map (decision H) batch)"
proof -
  let ?ck = "case_sum Inl (\<lambda>keys. if \<exists>q\<in>#H. conflicts (set keys) (set q) then Inl AccountInUse else Inr keys)"
  have chk: "check_batch (table_of (holds H)) batch = map ?ck batch"
    by (simp add: check_batch_def can_lock_accounts_table [OF assms] conflicts_holds split: sum.split)
  have "concat (map (case_sum (\<lambda>_. []) (\<lambda>keys. [keys])) (map ?ck batch)) =
      granted batch (map (decision H) batch)"
    unfolding granted_decided by (induction batch) (auto split: sum.split)
  then show ?thesis
    by (simp add: try_lock_transaction_batch_def chk lock_batch_table decision_def split: sum.split)
qed

section \<open>Histories of a table\<close>

text \<open>
  The life of a table: transactions are locked one at a time (\<^verbatim>\<open>try_lock_accounts\<close>) or a batch at a
  time (\<^verbatim>\<open>try_lock_transaction_batch\<close>), and unlocked in any order. The calls are numbered, and \<open>H\<close>
  holds, for every transaction that has its locks, the number of the call that gave them.
\<close>

abbreviation held :: "(nat \<times> lock_request list) multiset \<Rightarrow> lock_request list multiset" where
  "held H \<equiv> image_mset snd H"

inductive locks_history :: "account_locks \<Rightarrow> nat \<Rightarrow> (nat \<times> lock_request list) multiset \<Rightarrow> bool" where
  start: "locks_history account_locks_default 0 {#}"
| one: "locks_history s n H \<Longrightarrow> try_lock_accounts s keys = (s', Inr ()) \<Longrightarrow>
    fits (holds (add_mset keys (held H))) \<Longrightarrow> locks_history s' (Suc n) (add_mset (n, keys) H)"
| refused: "locks_history s n H \<Longrightarrow> try_lock_accounts s keys = (s', Inl e) \<Longrightarrow> locks_history s' (Suc n) H"
| batch: "locks_history s n H \<Longrightarrow> try_lock_transaction_batch s batch = (s', rs) \<Longrightarrow>
    fits (holds (held H + mset (granted batch rs))) \<Longrightarrow>
    locks_history s' (Suc n) (H + mset (map (Pair n) (granted batch rs)))"
| unlock: "locks_history s n (add_mset (c, keys) H) \<Longrightarrow> locks_history (unlock_accounts s keys) n H"

lemma history_table:
  "locks_history s n H \<Longrightarrow> s = table_of (holds (held H)) \<and> fits (holds (held H))"
proof (induction rule: locks_history.induct)
  case (batch s n H batch s' rs)
  then have "rs = map (decision (held H)) batch" "s' = table_of (holds (held H + mset (granted batch rs)))"
    using try_lock_batch_table [of "held H" batch] by simp_all
  then show ?case using batch.hyps(3) by (simp add: image_mset.compositionality comp_def flip: mset_map)
next
  case (unlock s n c keys H)
  then show ?case using unlock_accounts_table [of "holds (held H)" keys] by (simp add: add.commute)
qed (auto simp: default_table try_lock_accounts_table add.commute split: if_split_asm)

lemma history_calls: "locks_history s n H \<Longrightarrow> (c, r) \<in># H \<Longrightarrow> c < n"
  by (induction arbitrary: c r rule: locks_history.induct) (auto simp: less_Suc_eq)


text \<open>Locking one at a time, as the runs of the lock table interface do, is one such life.\<close>

abbreviation account_locks_run :: "account_locks \<Rightarrow> lock_request list multiset \<Rightarrow> bool" where
  "account_locks_run \<equiv> lock_run tx_grant (\<lambda>s keys. Some (unlock_accounts s keys))
     (\<lambda>H. fits (holds H)) account_locks_default"

lemma run_is_history: "account_locks_run s H \<Longrightarrow> \<exists>n H'. held H' = H \<and> locks_history s n H'"
proof (induction rule: lock_run.induct)
  case start
  then show ?case by (intro exI [of _ 0] exI [of _ "{#}"]) (simp add: locks_history.start)
next
  case (grant s H r s')
  then obtain n H' where "held H' = H" "locks_history s n H'" by blast
  then show ?case using locks_history.one [of s n H' r s'] grant.hyps
    by (intro exI [of _ "Suc n"] exI [of _ "add_mset (n, r) H'"]) (simp add: tx_grant_def)
next
  case (give s r H s')
  then obtain n H' where h: "held H' = add_mset r H" "locks_history s n H'" by blast
  then obtain c G where "H' = add_mset (c, r) G" "held G = H"
    by (auto dest!: msed_map_invR)
  then show ?case using locks_history.unlock [of s n c r G] h give.hyps(2) by auto
qed

lemma one_by_one_exclusive:
  assumes "account_locks_run s H" "r \<in># H" "q \<in># H - {#r#}"
  shows "\<not> conflicts (set r) (set q)"
  using txl.run_no_clash [OF assms(1) _ assms(2,3)] by simp

section \<open>Properties\<close>


definition demo_batch :: "(transaction_error + lock_request list) list" where
  "demo_batch = [Inr [(1, True), (2, False)], Inl AccountLoadedTwice, Inr [(2, False)]]"

definition demo_lock_state :: account_locks where
  "demo_lock_state = fst (try_lock_accounts (fst (try_lock_transaction_batch account_locks_default demo_batch))
     [(2, False), (3, True)])"

abbreviation demo_held :: "(nat \<times> lock_request list) multiset" where
  "demo_held \<equiv> {#(1, [(2, False), (3, True)]), (0, [(1, True), (2, False)]), (0, [(2, False)])#}"

lemmas lock_eval = demo_batch_def try_lock_transaction_batch_def try_lock_accounts_def check_batch_def
  can_write_lock_def can_read_lock_def is_locked_write_def is_locked_readonly_def account_locks_default_def
  lock_write_def lock_readonly_def bump_def granted_def

lemma demo_history: "locks_history demo_lock_state 2 demo_held"
proof -
  obtain s1 rs where s1: "try_lock_transaction_batch account_locks_default demo_batch = (s1, rs)" by force
  have rs: "granted demo_batch rs = [[(1, True), (2, False)], [(2, False)]]"
    using s1 by (auto simp: lock_eval)
  have h1: "locks_history s1 (Suc 0) {#(0, [(1, True), (2, False)]), (0, [(2, False)])#}"
    using locks_history.batch [OF locks_history.start s1] by (simp add: rs)
  have "try_lock_accounts s1 [(2, False), (3, True)] = (demo_lock_state, Inr ())"
    using s1 by (auto simp: demo_lock_state_def s1 lock_eval)
  from locks_history.one [OF h1 this] have "locks_history demo_lock_state (Suc (Suc 0)) demo_held" by simp
  then show ?thesis by (simp only: numeral_2_eq_2)
qed


text \<open>
  C26. Decision of \<^verbatim>\<open>try_lock_accounts\<close>. In every reachable state a transaction is refused with
  \<^verbatim>\<open>AccountInUse\<close>, leaving the table as it was, exactly when it conflicts with one that holds
  its locks; otherwise it is granted, and unlocking it gives back the table it found.
\<close>

theorem try_lock_accounts_decides:
  assumes "locks_history s n H" and "fits (holds (add_mset keys (held H)))"
  shows "if \<exists>q\<in>#held H. conflicts (set keys) (set q)
    then try_lock_accounts s keys = (s, Inl AccountInUse)
    else \<exists>s'. try_lock_accounts s keys = (s', Inr ()) \<and> unlock_accounts s' keys = s"
proof -
  from history_table [OF assms(1)] have s: "s = table_of (holds (held H))" "fits (holds (held H))" by simp_all
  have "unlock_accounts (table_of (holds (held H) + mset keys)) keys = table_of (holds (held H))"
    using assms(2) by (intro unlock_accounts_table) (simp add: add.commute)
  then show ?thesis
    using s(2) unfolding s(1) by (simp add: try_lock_accounts_table conflicts_holds)
qed

theorem try_lock_accounts_decides_witness:
  "\<exists>s'. try_lock_accounts demo_lock_state [(2, False)] = (s', Inr ())
    \<and> unlock_accounts s' [(2, False)] = demo_lock_state"
proof -
  have "fits (holds (add_mset [(2, False)] (held demo_held)))" by simp
  from try_lock_accounts_decides [OF demo_history this] show ?thesis
    by (simp add: conflicts_insert)
qed



text \<open>
  C28. \<^verbatim>\<open>validate_account_locks\<close> accepts exactly the account lists within the limit that name
  no account twice, whichever of its two duplicate searches it uses, reports the length first,
  and leaves the thread-local set empty for the next call.
\<close>

theorem validate_account_locks_correct:
  "validate_account_locks {} keys limit =
    (if length keys > limit then Inl TooManyAccountLocks
     else if distinct keys then Inr () else Inl AccountLoadedTwice, {})"
  by (simp add: validate_account_locks_def has_duplicates_iff)

end
