(* ===== verification/Fork_Choice.thy ===== *)
theory Fork_Choice
  imports Prelude "HOL-Library.AList" "HOL-Library.Product_Lexorder"
begin

text \<open>
  The fork choice of the validator (\<^verbatim>\<open>heaviest_subtree_fork_choice.rs\<close> and \<^verbatim>\<open>tree_diff.rs\<close> under
  \<^verbatim>\<open>src/core/src/consensus/\<close>): the tree of blocks above the root, the stake that voted for every
  subtree, the block to build on, and the marking of forks that hold duplicate blocks.

  A \<^verbatim>\<open>HashMap\<close> is an association list; the theorems hold for every order of it. A \<^verbatim>\<open>BTreeSet\<close> is its
  ascending list, a \<^verbatim>\<open>BTreeMap\<close> is sorted when it is iterated. The hash of a block is the number its
  bytes spell, most significant first, so that \<^verbatim>\<open>Ord\<close> is \<open>\<le>\<close>. Stakes are \<^verbatim>\<open>u64\<close> with wrapping
  arithmetic; the height of a node, a \<^verbatim>\<open>usize\<close>, never exceeds the number of nodes in memory and is
  a natural number. The time of the last root serves logging only and is left out. A loop that
  follows links and might not end is a partial function: \<open>None\<close> stands for a panic and for
  not returning.
\<close>

section \<open>Data\<close>

type_synonym slot = u64
type_synonym epoch = u64
type_synonym hash = "256 word"
type_synonym slot_hash_key = "slot \<times> hash"

datatype ordering = Less | Equal | Greater

definition cmp :: "'a::linorder \<Rightarrow> 'a \<Rightarrow> ordering" where
  "cmp a b = (if a < b then Less else if a = b then Equal else Greater)"

fun reverse_ordering :: "ordering \<Rightarrow> ordering" where
  "reverse_ordering Less = Greater"
| "reverse_ordering Equal = Equal"
| "reverse_ordering Greater = Less"

datatype update_label =
    L_Aggregate
  | L_Add
  | L_MarkValid slot
  | L_MarkInvalid slot
  | L_Subtract

text \<open>The derived order of the labels: by constructor, then by slot.\<close>

fun label_rank :: "update_label \<Rightarrow> nat \<times> slot" where
  "label_rank L_Aggregate = (0, 0)"
| "label_rank L_Add = (1, 0)"
| "label_rank (L_MarkValid s) = (2, s)"
| "label_rank (L_MarkInvalid s) = (3, s)"
| "label_rank L_Subtract = (4, 0)"

lemma label_rank_inject: "label_rank a = label_rank b \<longleftrightarrow> a = b"
  by (cases a; cases b) auto

instantiation update_label :: linorder
begin

definition less_eq_update_label_def: "a \<le> b \<longleftrightarrow> label_rank a \<le> label_rank b"

definition less_update_label_def: "a < b \<longleftrightarrow> label_rank a < label_rank b"

instance
  by standard (auto simp: less_eq_update_label_def less_update_label_def less_le label_rank_inject)

end

datatype update_operation =
    Op_Add u64
  | Op_MarkValid slot
  | Op_MarkInvalid slot
  | Op_Subtract u64
  | Op_Aggregate

type_synonym update_operations = "((slot_hash_key \<times> update_label) \<times> update_operation) list"

fun update_stake :: "update_operation \<Rightarrow> u64 \<Rightarrow> update_operation option" where
  "update_stake Op_Aggregate new_stake = None"
| "update_stake (Op_Add stake) new_stake = Some (Op_Add (stake + new_stake))"
| "update_stake (Op_MarkValid s) new_stake = None"
| "update_stake (Op_MarkInvalid s) new_stake = None"
| "update_stake (Op_Subtract stake) new_stake = Some (Op_Subtract (stake + new_stake))"

record fork_info =
  stake_voted_at :: u64
  stake_voted_subtree :: u64
  height :: nat
  best_slot :: slot_hash_key
  deepest_slot :: slot_hash_key
  parent :: "slot_hash_key option"
  children :: "slot_hash_key list"
  latest_invalid_ancestor :: "slot option"
  is_duplicate_confirmed :: bool

definition info_is_unconfirmed_duplicate :: "fork_info \<Rightarrow> slot \<Rightarrow> bool" where
  "info_is_unconfirmed_duplicate i my_slot =
     (case latest_invalid_ancestor i of Some ancestor \<Rightarrow> ancestor = my_slot | None \<Rightarrow> False)"

definition info_is_candidate :: "fork_info \<Rightarrow> bool" where
  "info_is_candidate i = (latest_invalid_ancestor i = None)"

definition set_duplicate_confirmed :: "fork_info \<Rightarrow> fork_info" where
  "set_duplicate_confirmed i = i\<lparr>is_duplicate_confirmed := True, latest_invalid_ancestor := None\<rparr>"

definition update_with_newly_valid_ancestor :: "fork_info \<Rightarrow> slot \<Rightarrow> fork_info" where
  "update_with_newly_valid_ancestor i newly_valid_ancestor =
     (case latest_invalid_ancestor i of
        Some s \<Rightarrow> if s \<le> newly_valid_ancestor then i\<lparr>latest_invalid_ancestor := None\<rparr> else i
      | None \<Rightarrow> i)"

definition update_with_newly_invalid_ancestor :: "fork_info \<Rightarrow> slot \<Rightarrow> fork_info option" where
  "update_with_newly_invalid_ancestor i newly_invalid_ancestor =
     (if is_duplicate_confirmed i then None
      else Some (if (case latest_invalid_ancestor i of
             Some s \<Rightarrow> newly_invalid_ancestor > s | None \<Rightarrow> True)
           then i\<lparr>latest_invalid_ancestor := Some newly_invalid_ancestor\<rparr> else i))"

record fork_choice =
  fork_infos :: "(slot_hash_key \<times> fork_info) list"
  latest_votes :: "(pubkey \<times> slot_hash_key) list"
  tree_root :: slot_hash_key

abbreviation info :: "fork_choice \<Rightarrow> slot_hash_key \<rightharpoonup> fork_info" where
  "info fc \<equiv> map_of (fork_infos fc)"

text \<open>Assignment to an entry, and assignment through \<^verbatim>\<open>get_mut\<close>.\<close>

definition put :: "fork_choice \<Rightarrow> slot_hash_key \<Rightarrow> fork_info \<Rightarrow> fork_choice" where
  "put fc k i = fc\<lparr>fork_infos := AList.update k i (fork_infos fc)\<rparr>"

definition drop_info :: "fork_choice \<Rightarrow> slot_hash_key \<Rightarrow> fork_choice option" where
  "drop_info fc k = (case info fc k of None \<Rightarrow> None
     | Some i \<Rightarrow> Some (fc\<lparr>fork_infos := AList.delete k (fork_infos fc)\<rparr>))"

section \<open>Queries\<close>

definition contains_block :: "fork_choice \<Rightarrow> slot_hash_key \<Rightarrow> bool" where
  "contains_block fc k = (info fc k \<noteq> None)"

definition get_best_slot :: "fork_choice \<Rightarrow> slot_hash_key \<Rightarrow> slot_hash_key option" where
  "get_best_slot fc k = map_option best_slot (info fc k)"

definition get_deepest_slot :: "fork_choice \<Rightarrow> slot_hash_key \<Rightarrow> slot_hash_key option" where
  "get_deepest_slot fc k = map_option deepest_slot (info fc k)"

definition best_overall_slot :: "fork_choice \<Rightarrow> slot_hash_key option" where
  "best_overall_slot fc = get_best_slot fc (tree_root fc)"

definition deepest_overall_slot :: "fork_choice \<Rightarrow> slot_hash_key option" where
  "deepest_overall_slot fc = get_deepest_slot fc (tree_root fc)"

definition get_stake_voted_subtree :: "fork_choice \<Rightarrow> slot_hash_key \<Rightarrow> u64 option" where
  "get_stake_voted_subtree fc k = map_option stake_voted_subtree (info fc k)"

definition get_stake_voted_at :: "fork_choice \<Rightarrow> slot_hash_key \<Rightarrow> u64 option" where
  "get_stake_voted_at fc k = map_option stake_voted_at (info fc k)"

definition get_height :: "fork_choice \<Rightarrow> slot_hash_key \<Rightarrow> nat option" where
  "get_height fc k = map_option height (info fc k)"

definition get_parent :: "fork_choice \<Rightarrow> slot_hash_key \<Rightarrow> slot_hash_key option" where
  "get_parent fc k = (case info fc k of Some i \<Rightarrow> parent i | None \<Rightarrow> None)"

definition get_children :: "fork_choice \<Rightarrow> slot_hash_key \<Rightarrow> slot_hash_key list option" where
  "get_children fc k = map_option children (info fc k)"

definition get_latest_invalid_ancestor :: "fork_choice \<Rightarrow> slot_hash_key \<Rightarrow> slot option" where
  "get_latest_invalid_ancestor fc k =
     (case info fc k of Some i \<Rightarrow> latest_invalid_ancestor i | None \<Rightarrow> None)"

definition get_is_duplicate_confirmed :: "fork_choice \<Rightarrow> slot_hash_key \<Rightarrow> bool option" where
  "get_is_duplicate_confirmed fc k = map_option is_duplicate_confirmed (info fc k)"

definition is_unconfirmed_duplicate :: "fork_choice \<Rightarrow> slot_hash_key \<Rightarrow> bool option" where
  "is_unconfirmed_duplicate fc k =
     map_option (\<lambda>i. info_is_unconfirmed_duplicate i (fst k)) (info fc k)"

definition is_candidate :: "fork_choice \<Rightarrow> slot_hash_key \<Rightarrow> bool option" where
  "is_candidate fc k = map_option info_is_candidate (info fc k)"

definition max_by_weight :: "fork_choice \<Rightarrow> slot_hash_key \<Rightarrow> slot_hash_key \<Rightarrow> ordering option" where
  "max_by_weight fc slot1 slot2 = do {
     weight1 \<leftarrow> get_stake_voted_subtree fc slot1;
     weight2 \<leftarrow> get_stake_voted_subtree fc slot2;
     Some (if weight1 = weight2 then reverse_ordering (cmp slot1 slot2) else cmp weight1 weight2) }"

text \<open>The nodes \<^verbatim>\<open>AncestorIterator\<close> yields: the parent, its parent, and so on.\<close>

partial_function (option) ancestor_iterator ::
  "fork_choice \<Rightarrow> slot_hash_key \<Rightarrow> slot_hash_key list option" where
  "ancestor_iterator fc k = (case get_parent fc k of
     None \<Rightarrow> Some []
   | Some p \<Rightarrow> do { rest \<leftarrow> ancestor_iterator fc p; Some (p # rest) })"

definition is_strict_ancestor :: "fork_choice \<Rightarrow> slot_hash_key \<Rightarrow> slot_hash_key \<Rightarrow> bool option" where
  "is_strict_ancestor fc maybe_ancestor_key node_key =
     (if maybe_ancestor_key = node_key then Some False
      else if fst maybe_ancestor_key > fst node_key then Some False
      else do {
        l \<leftarrow> ancestor_iterator fc node_key;
        Some (list_ex (\<lambda>a. fst a = fst maybe_ancestor_key \<and> snd a = snd maybe_ancestor_key) l) })"

text \<open>The nodes reachable from \<open>root1\<close> outside the subtree at \<open>root2\<close>; the head of the list of pending keys is the top of the stack.\<close>

partial_function (option) subtree_diff_loop ::
  "fork_choice \<Rightarrow> slot_hash_key \<Rightarrow> slot_hash_key list \<Rightarrow> slot_hash_key list \<Rightarrow> slot_hash_key list option"
where
  "subtree_diff_loop fc root2 pending_keys reachable_set = (case pending_keys of
     [] \<Rightarrow> Some reachable_set
   | current_key # pending \<Rightarrow>
       if current_key = root2 then subtree_diff_loop fc root2 pending reachable_set
       else do {
         cs \<leftarrow> get_children fc current_key;
         subtree_diff_loop fc root2 (rev cs @ pending) (List.insert current_key reachable_set) })"

definition subtree_diff ::
  "fork_choice \<Rightarrow> slot_hash_key \<Rightarrow> slot_hash_key \<Rightarrow> slot_hash_key list option" where
  "subtree_diff fc root1 root2 =
     (if \<not> contains_block fc root1 then Some [] else subtree_diff_loop fc root2 [root1] [])"

section \<open>Adding a block\<close>

fun best_child_loop :: "fork_choice \<Rightarrow> slot_hash_key \<Rightarrow> u64 \<Rightarrow> slot_hash_key list \<Rightarrow> bool option" where
  "best_child_loop fc maybe_best_child weight [] = Some True"
| "best_child_loop fc maybe_best_child weight (child # rest) = do {
     child_weight \<leftarrow> get_stake_voted_subtree fc child;
     candidate \<leftarrow> is_candidate fc child;
     if \<not> candidate then best_child_loop fc maybe_best_child weight rest
     else if child_weight > weight \<or> (weight = child_weight \<and> child < maybe_best_child)
     then Some False
     else best_child_loop fc maybe_best_child weight rest }"

definition is_best_child :: "fork_choice \<Rightarrow> slot_hash_key \<Rightarrow> bool option" where
  "is_best_child fc maybe_best_child = do {
     weight \<leftarrow> get_stake_voted_subtree fc maybe_best_child;
     (case get_parent fc maybe_best_child of
        None \<Rightarrow> Some True
      | Some p \<Rightarrow> do {
          cs \<leftarrow> get_children fc p;
          best_child_loop fc maybe_best_child weight cs }) }"

fun deepest_child_loop ::
  "fork_choice \<Rightarrow> slot_hash_key \<Rightarrow> nat \<Rightarrow> u64 \<Rightarrow> slot_hash_key list \<Rightarrow> bool option" where
  "deepest_child_loop fc maybe_deepest_child h weight [] = Some True"
| "deepest_child_loop fc maybe_deepest_child h weight (child # rest) = do {
     child_height \<leftarrow> get_height fc child;
     child_weight \<leftarrow> get_stake_voted_subtree fc child;
     (case (cmp child_height h, cmp child_weight weight, cmp child maybe_deepest_child) of
        (Greater, _, _) \<Rightarrow> Some False
      | (Equal, Greater, _) \<Rightarrow> Some False
      | (Equal, Equal, Less) \<Rightarrow> Some False
      | _ \<Rightarrow> deepest_child_loop fc maybe_deepest_child h weight rest) }"

definition is_deepest_child :: "fork_choice \<Rightarrow> slot_hash_key \<Rightarrow> bool option" where
  "is_deepest_child fc maybe_deepest_child = do {
     weight \<leftarrow> get_stake_voted_subtree fc maybe_deepest_child;
     h \<leftarrow> get_height fc maybe_deepest_child;
     (case get_parent fc maybe_deepest_child of
        None \<Rightarrow> Some True
      | Some p \<Rightarrow> do {
          cs \<leftarrow> get_children fc p;
          deepest_child_loop fc maybe_deepest_child h weight cs }) }"

partial_function (option) propagate_best ::
  "fork_choice \<Rightarrow> slot_hash_key option \<Rightarrow> slot_hash_key \<Rightarrow> slot_hash_key \<Rightarrow> fork_choice option"
where
  "propagate_best fc ancestor leaf parent_best = (case ancestor of
     None \<Rightarrow> Some fc
   | Some a \<Rightarrow> do {
       i \<leftarrow> info fc a;
       if best_slot i = parent_best
       then propagate_best (put fc a (i\<lparr>best_slot := leaf\<rparr>)) (parent i) leaf parent_best
       else Some fc })"

partial_function (option) propagate_deepest ::
  "fork_choice \<Rightarrow> slot_hash_key option \<Rightarrow> nat \<Rightarrow> slot_hash_key \<Rightarrow> slot_hash_key \<Rightarrow> fork_choice option"
where
  "propagate_deepest fc ancestor current_height leaf current_child = (case ancestor of
     None \<Rightarrow> Some fc
   | Some a \<Rightarrow> do {
       d \<leftarrow> is_deepest_child fc current_child;
       if \<not> d then Some fc
       else do {
         i \<leftarrow> info fc a;
         propagate_deepest
           (put fc a (i\<lparr>deepest_slot := leaf, height := current_height + 1\<rparr>))
           (parent i) (current_height + 1) leaf a } })"

definition propagate_new_leaf ::
  "fork_choice \<Rightarrow> slot_hash_key \<Rightarrow> slot_hash_key \<Rightarrow> fork_choice option" where
  "propagate_new_leaf fc leaf par = do {
     parent_best \<leftarrow> get_best_slot fc par;
     b \<leftarrow> is_best_child fc leaf;
     fc \<leftarrow> (if b then propagate_best fc (Some par) leaf parent_best else Some fc);
     propagate_deepest fc (Some par) 1 leaf leaf }"

definition leaf_info :: "slot_hash_key \<Rightarrow> slot_hash_key option \<Rightarrow> slot option \<Rightarrow> fork_info" where
  "leaf_info k par invalid = \<lparr>stake_voted_at = 0, stake_voted_subtree = 0, height = 1,
     best_slot = k, deepest_slot = k, parent = par, children = [],
     latest_invalid_ancestor = invalid, is_duplicate_confirmed = (par = None)\<rparr>"

definition add_new_leaf_slot ::
  "fork_choice \<Rightarrow> slot_hash_key \<Rightarrow> slot_hash_key option \<Rightarrow> fork_choice option" where
  "add_new_leaf_slot fc k par =
     (if contains_block fc k then Some fc
      else
        let parent_latest_invalid_ancestor = par \<bind> get_latest_invalid_ancestor fc;
            fc = put fc k (leaf_info k par parent_latest_invalid_ancestor)
        in (case par of
          None \<Rightarrow> Some fc
        | Some p \<Rightarrow> do {
            i \<leftarrow> info fc p;
            propagate_new_leaf (put fc p (i\<lparr>children := insort_insert k (children i)\<rparr>)) k p }))"

definition new_fork_choice :: "slot_hash_key \<Rightarrow> fork_choice option" where
  "new_fork_choice root =
     add_new_leaf_slot \<lparr>fork_infos = [], latest_votes = [], tree_root = root\<rparr> root None"

text \<open>What the fork choice sees of a bank.\<close>

record bank =
  bank_slot :: slot
  bank_hash :: hash
  bank_parent_slot :: slot
  bank_parent_hash :: hash
  bank_is_frozen :: bool

definition add_frozen_bank ::
  "slot_hash_key \<Rightarrow> fork_choice \<times> slot \<Rightarrow> bank \<Rightarrow> (fork_choice \<times> slot) option" where
  "add_frozen_bank root s b = (let (fc, prev_slot) = s in
     if \<not> bank_is_frozen b then None
     else if bank_slot b > fst root then
       if \<not> bank_slot b > prev_slot \<or> bank_hash b = 0 \<or> bank_parent_hash b = 0 then None
       else do {
         fc \<leftarrow> add_new_leaf_slot fc (bank_slot b, bank_hash b)
           (Some (bank_parent_slot b, bank_parent_hash b));
         Some (fc, bank_slot b) }
     else Some (fc, prev_slot))"

definition new_from_frozen_banks :: "slot_hash_key \<Rightarrow> bank list \<Rightarrow> fork_choice option" where
  "new_from_frozen_banks root frozen_banks = do {
     fc \<leftarrow> new_fork_choice root;
     map_option fst (fold_opt (add_frozen_bank root) (fc, fst root) frozen_banks) }"

definition new_from_bank_forks :: "bank list \<Rightarrow> bank \<Rightarrow> fork_choice option" where
  "new_from_bank_forks frozen_banks root_bank =
     new_from_frozen_banks (bank_slot root_bank, bank_hash root_bank) (sort_key bank_slot frozen_banks)"

section \<open>Updates\<close>

fun op_insert :: "slot_hash_key \<times> update_label \<Rightarrow> update_operation \<Rightarrow> update_operations \<Rightarrow> update_operations"
where
  "op_insert k v ops = AList.update k v ops"

definition do_insert_aggregate_operation ::
  "update_operations \<Rightarrow> update_operation option \<Rightarrow> slot_hash_key \<Rightarrow> update_operations \<times> bool" where
  "do_insert_aggregate_operation ops modify_fork_validity k =
     (if map_of ops (k, L_Aggregate) \<noteq> None then (ops, False)
      else
        let ops = (case modify_fork_validity of
            Some (Op_MarkValid s) \<Rightarrow> op_insert (k, L_MarkValid s) (Op_MarkValid s) ops
          | Some (Op_MarkInvalid s) \<Rightarrow> op_insert (k, L_MarkInvalid s) (Op_MarkInvalid s) ops
          | _ \<Rightarrow> ops)
        in (op_insert (k, L_Aggregate) Op_Aggregate ops, True))"

fun insert_across ::
  "update_operations \<Rightarrow> update_operation option \<Rightarrow> slot_hash_key list \<Rightarrow> update_operations" where
  "insert_across ops v [] = ops"
| "insert_across ops v (a # ancestors) =
     (let (ops, inserted) = do_insert_aggregate_operation ops v a in
      if inserted then insert_across ops v ancestors else ops)"

definition do_insert_aggregate_operations_across_ancestors ::
  "fork_choice \<Rightarrow> update_operations \<Rightarrow> update_operation option \<Rightarrow> slot_hash_key \<Rightarrow> update_operations option"
where
  "do_insert_aggregate_operations_across_ancestors fc ops v k = do {
     l \<leftarrow> ancestor_iterator fc k;
     Some (insert_across ops v l) }"

definition insert_aggregate_operations ::
  "fork_choice \<Rightarrow> update_operations \<Rightarrow> slot_hash_key \<Rightarrow> update_operations option" where
  "insert_aggregate_operations fc ops k =
     do_insert_aggregate_operations_across_ancestors fc ops None k"

text \<open>The variables of \<^verbatim>\<open>aggregate_slot\<close> while it runs over the children.\<close>

record aggregate =
  ag_stake_voted_subtree :: u64
  ag_deepest_child_height :: nat
  ag_best_slot :: slot_hash_key
  ag_deepest_slot :: slot_hash_key
  ag_is_duplicate_confirmed :: bool
  ag_best_child_stake :: u64
  ag_best_child :: slot_hash_key
  ag_deepest_child_stake :: u64
  ag_deepest_child :: slot_hash_key

definition aggregate_best :: "slot_hash_key \<Rightarrow> slot_hash_key \<Rightarrow> fork_info \<Rightarrow> aggregate \<Rightarrow> aggregate" where
  "aggregate_best k c j g =
     (if info_is_candidate j \<and> (ag_best_child g = k \<or>
          stake_voted_subtree j > ag_best_child_stake g \<or>
          (stake_voted_subtree j = ag_best_child_stake g \<and> c < ag_best_child g))
      then g\<lparr>ag_best_child_stake := stake_voted_subtree j, ag_best_child := c,
        ag_best_slot := best_slot j\<rparr>
      else g)"

definition aggregate_deepest :: "slot_hash_key \<Rightarrow> slot_hash_key \<Rightarrow> fork_info \<Rightarrow> aggregate \<Rightarrow> aggregate" where
  "aggregate_deepest k c j g =
     (let take = g\<lparr>ag_deepest_child_height := height j,
            ag_deepest_child_stake := stake_voted_subtree j, ag_deepest_child := c,
            ag_deepest_slot := deepest_slot j\<rparr>
      in case (ag_deepest_child g = k, cmp (height j) (ag_deepest_child_height g),
            cmp (stake_voted_subtree j) (ag_deepest_child_stake g), cmp c (ag_deepest_child g)) of
          (True, _, _, _) \<Rightarrow> take
        | (_, Greater, _, _) \<Rightarrow> take
        | (_, Equal, Greater, _) \<Rightarrow> take
        | (_, Equal, Equal, Less) \<Rightarrow> take
        | _ \<Rightarrow> g)"

definition aggregate_child ::
  "fork_choice \<Rightarrow> slot_hash_key \<Rightarrow> aggregate \<Rightarrow> slot_hash_key \<Rightarrow> aggregate option" where
  "aggregate_child fc k g c = do {
     j \<leftarrow> info fc c;
     let g = g\<lparr>ag_is_duplicate_confirmed := (ag_is_duplicate_confirmed g \<or> is_duplicate_confirmed j),
       ag_stake_voted_subtree := ag_stake_voted_subtree g + stake_voted_subtree j\<rparr>;
     Some (aggregate_deepest k c j (aggregate_best k c j g)) }"

definition aggregate_start :: "slot_hash_key \<Rightarrow> fork_info \<Rightarrow> aggregate" where
  "aggregate_start k i = \<lparr>ag_stake_voted_subtree = stake_voted_at i, ag_deepest_child_height = 0,
     ag_best_slot = k, ag_deepest_slot = k, ag_is_duplicate_confirmed = False,
     ag_best_child_stake = 0, ag_best_child = k, ag_deepest_child_stake = 0, ag_deepest_child = k\<rparr>"

definition aggregate_finish :: "fork_info \<Rightarrow> aggregate \<Rightarrow> fork_info" where
  "aggregate_finish i g =
     (let i = (if ag_is_duplicate_confirmed g then set_duplicate_confirmed i else i) in
      i\<lparr>stake_voted_subtree := ag_stake_voted_subtree g, height := ag_deepest_child_height g + 1,
        best_slot := ag_best_slot g, deepest_slot := ag_deepest_slot g\<rparr>)"

definition aggregate_slot :: "fork_choice \<Rightarrow> slot_hash_key \<Rightarrow> fork_choice option" where
  "aggregate_slot fc k = (case info fc k of
     None \<Rightarrow> Some fc
   | Some i \<Rightarrow> do {
       g \<leftarrow> fold_opt (aggregate_child fc k) (aggregate_start k i) (children i);
       Some (put fc k (aggregate_finish i g)) })"

definition mark_fork_valid :: "fork_choice \<Rightarrow> slot_hash_key \<Rightarrow> slot \<Rightarrow> fork_choice" where
  "mark_fork_valid fc k valid_slot = (case info fc k of
     None \<Rightarrow> fc
   | Some i \<Rightarrow>
       let i = update_with_newly_valid_ancestor i valid_slot;
           i = (if fst k = valid_slot then i\<lparr>is_duplicate_confirmed := True\<rparr> else i)
       in put fc k i)"

definition mark_fork_invalid :: "fork_choice \<Rightarrow> slot_hash_key \<Rightarrow> slot \<Rightarrow> fork_choice option" where
  "mark_fork_invalid fc k invalid_slot = (case info fc k of
     None \<Rightarrow> Some fc
   | Some i \<Rightarrow> map_option (put fc k) (update_with_newly_invalid_ancestor i invalid_slot))"

definition add_slot_stake :: "fork_choice \<Rightarrow> slot_hash_key \<Rightarrow> u64 \<Rightarrow> fork_choice" where
  "add_slot_stake fc k stake = (case info fc k of
     None \<Rightarrow> fc
   | Some i \<Rightarrow> put fc k (i\<lparr>stake_voted_at := stake_voted_at i + stake,
       stake_voted_subtree := stake_voted_subtree i + stake\<rparr>))"

definition subtract_slot_stake :: "fork_choice \<Rightarrow> slot_hash_key \<Rightarrow> u64 \<Rightarrow> fork_choice" where
  "subtract_slot_stake fc k stake = (case info fc k of
     None \<Rightarrow> fc
   | Some i \<Rightarrow> put fc k (i\<lparr>stake_voted_at := stake_voted_at i - stake,
       stake_voted_subtree := stake_voted_subtree i - stake\<rparr>))"

fun process_operation ::
  "fork_choice \<Rightarrow> (slot_hash_key \<times> update_label) \<times> update_operation \<Rightarrow> fork_choice option" where
  "process_operation fc ((k, l), Op_MarkValid s) = Some (mark_fork_valid fc k s)"
| "process_operation fc ((k, l), Op_MarkInvalid s) = mark_fork_invalid fc k s"
| "process_operation fc ((k, l), Op_Aggregate) = aggregate_slot fc k"
| "process_operation fc ((k, l), Op_Add stake) = Some (add_slot_stake fc k stake)"
| "process_operation fc ((k, l), Op_Subtract stake) = Some (subtract_slot_stake fc k stake)"

definition process_update_operations :: "fork_choice \<Rightarrow> update_operations \<Rightarrow> fork_choice option" where
  "process_update_operations fc ops = fold_opt process_operation fc (rev (sort_key fst ops))"

section \<open>Votes\<close>

text \<open>
  The stakes of the epochs, and the epoch of a slot. The schedule belongs to another crate; the
  table is the \<^verbatim>\<open>epoch_stakes\<close> of a bank.
\<close>

type_synonym epoch_stakes = "epoch \<rightharpoonup> (pubkey \<rightharpoonup> u64)"

definition vote_account_stake :: "(pubkey \<rightharpoonup> u64) \<Rightarrow> pubkey \<Rightarrow> u64" where
  "vote_account_stake vote_accounts p = (case vote_accounts p of Some stake \<Rightarrow> stake | None \<Rightarrow> 0)"

definition stake_update :: "epoch_stakes \<Rightarrow> (slot \<Rightarrow> epoch) \<Rightarrow> slot \<Rightarrow> pubkey \<Rightarrow> u64" where
  "stake_update stakes get_epoch s p =
     (case stakes (get_epoch s) of Some e \<Rightarrow> vote_account_stake e p | None \<Rightarrow> 0)"

text \<open>\<^verbatim>\<open>entry(k).and_modify(update_stake).or_insert(v)\<close>\<close>

definition op_add_stake ::
  "slot_hash_key \<times> update_label \<Rightarrow> (u64 \<Rightarrow> update_operation) \<Rightarrow> u64 \<Rightarrow> update_operations \<Rightarrow>
   update_operations option" where
  "op_add_stake k mk stake ops = (case map_of ops k of
     Some u \<Rightarrow> map_option (\<lambda>u. op_insert k u ops) (update_stake u stake)
   | None \<Rightarrow> Some (op_insert k (mk stake) ops))"

definition subtract_old_vote ::
  "epoch_stakes \<Rightarrow> (slot \<Rightarrow> epoch) \<Rightarrow> fork_choice \<Rightarrow> pubkey \<Rightarrow> slot_hash_key \<Rightarrow> slot_hash_key \<Rightarrow>
   update_operations \<Rightarrow> update_operations option" where
  "subtract_old_vote stakes get_epoch fc p new_vote old ops =
     (if \<not> (if fst new_vote = fst old then snd new_vote < snd old else fst new_vote > fst old)
      then None
      else
        let stake = stake_update stakes get_epoch (fst old) p in
        if stake > 0 then do {
          ops \<leftarrow> op_add_stake (old, L_Subtract) Op_Subtract stake ops;
          insert_aggregate_operations fc ops old }
        else Some ops)"

definition count_vote ::
  "epoch_stakes \<Rightarrow> (slot \<Rightarrow> epoch) \<Rightarrow> fork_choice \<Rightarrow> update_operations \<Rightarrow> pubkey \<Rightarrow> slot_hash_key \<Rightarrow>
   (fork_choice \<times> update_operations) option" where
  "count_vote stakes get_epoch fc ops p new_vote =
     (let old = map_of (latest_votes fc) p;
          fc = fc\<lparr>latest_votes := AList.update p new_vote (latest_votes fc)\<rparr>
      in do {
        ops \<leftarrow> (case old of
            Some old \<Rightarrow> subtract_old_vote stakes get_epoch fc p new_vote old ops
          | None \<Rightarrow> Some ops);
        ops \<leftarrow> op_add_stake (new_vote, L_Add) Op_Add (stake_update stakes get_epoch (fst new_vote) p) ops;
        ops \<leftarrow> insert_aggregate_operations fc ops new_vote;
        Some (fc, ops) })"

definition generate_for_vote ::
  "epoch_stakes \<Rightarrow> (slot \<Rightarrow> epoch) \<Rightarrow> fork_choice \<times> update_operations \<times> (pubkey \<times> slot) list \<Rightarrow>
   pubkey \<times> slot_hash_key \<Rightarrow> (fork_choice \<times> update_operations \<times> (pubkey \<times> slot) list) option" where
  "generate_for_vote stakes get_epoch s pubkey_vote =
     (let (fc, ops, observed_pubkeys) = s; (p, new_vote) = pubkey_vote in
      if fst new_vote < fst (tree_root fc) then Some (fc, ops, observed_pubkeys)
      else if map_of observed_pubkeys p \<noteq> None then None
      else
        let observed_pubkeys = AList.update p (fst new_vote) observed_pubkeys in
        if (case map_of (latest_votes fc) p of
              Some latest \<Rightarrow> fst new_vote < fst latest \<or>
                (fst new_vote = fst latest \<and> snd new_vote \<ge> snd latest)
            | None \<Rightarrow> False)
        then Some (fc, ops, observed_pubkeys)
        else do {
          (fc, ops) \<leftarrow> count_vote stakes get_epoch fc ops p new_vote;
          Some (fc, ops, observed_pubkeys) })"

definition generate_update_operations ::
  "epoch_stakes \<Rightarrow> (slot \<Rightarrow> epoch) \<Rightarrow> fork_choice \<Rightarrow> (pubkey \<times> slot_hash_key) list \<Rightarrow>
   (fork_choice \<times> update_operations) option" where
  "generate_update_operations stakes get_epoch fc pubkey_votes = do {
     (fc, ops, observed) \<leftarrow> fold_opt (generate_for_vote stakes get_epoch) (fc, [], []) pubkey_votes;
     Some (fc, ops) }"

definition add_votes ::
  "epoch_stakes \<Rightarrow> (slot \<Rightarrow> epoch) \<Rightarrow> fork_choice \<Rightarrow> (pubkey \<times> slot_hash_key) list \<Rightarrow>
   (fork_choice \<times> slot_hash_key) option" where
  "add_votes stakes get_epoch fc pubkey_votes = do {
     (fc, ops) \<leftarrow> generate_update_operations stakes get_epoch fc pubkey_votes;
     fc \<leftarrow> process_update_operations fc ops;
     best \<leftarrow> best_overall_slot fc;
     Some (fc, best) }"

section \<open>Duplicate blocks\<close>

definition insert_marks :: "update_operation \<Rightarrow> slot_hash_key list \<Rightarrow> update_operations" where
  "insert_marks v ks = fold (\<lambda>k ops. fst (do_insert_aggregate_operation ops (Some v) k)) ks []"

definition mark_fork_invalid_candidate :: "fork_choice \<Rightarrow> slot_hash_key \<Rightarrow> fork_choice option" where
  "mark_fork_invalid_candidate fc k = (case info fc k of
     None \<Rightarrow> Some fc
   | Some i \<Rightarrow>
       if is_duplicate_confirmed i then None
       else do {
         ks \<leftarrow> subtree_diff fc k (0, 0);
         ops \<leftarrow> insert_aggregate_operations fc (insert_marks (Op_MarkInvalid (fst k)) ks) k;
         process_update_operations fc ops })"

fun newly_confirmed :: "fork_choice \<Rightarrow> slot_hash_key list \<Rightarrow> slot_hash_key list option" where
  "newly_confirmed fc [] = Some []"
| "newly_confirmed fc (a # rest) = do {
     confirmed \<leftarrow> get_is_duplicate_confirmed fc a;
     l \<leftarrow> newly_confirmed fc rest;
     Some (if confirmed then l else a # l) }"

definition mark_fork_valid_candidate ::
  "fork_choice \<Rightarrow> slot_hash_key \<Rightarrow> (fork_choice \<times> slot_hash_key list) option" where
  "mark_fork_valid_candidate fc k = do {
     ancestors \<leftarrow> ancestor_iterator fc k;
     newly_duplicate_confirmed_ancestors \<leftarrow> newly_confirmed fc (k # ancestors);
     ks \<leftarrow> subtree_diff fc k (0, 0);
     ops \<leftarrow> insert_aggregate_operations fc (insert_marks (Op_MarkValid (fst k)) ks) k;
     fc \<leftarrow> process_update_operations fc ops;
     Some (fc, newly_duplicate_confirmed_ancestors) }"

section \<open>Changing the tree\<close>

definition set_tree_root :: "fork_choice \<Rightarrow> slot_hash_key \<Rightarrow> fork_choice option" where
  "set_tree_root fc new_root = do {
     remove_set \<leftarrow> subtree_diff fc (tree_root fc) new_root;
     fc \<leftarrow> fold_opt drop_info fc remove_set;
     i \<leftarrow> info fc new_root;
     Some ((put fc new_root (i\<lparr>parent := None\<rparr>))\<lparr>tree_root := new_root\<rparr>) }"

definition add_root_parent :: "fork_choice \<Rightarrow> slot_hash_key \<Rightarrow> fork_choice option" where
  "add_root_parent fc root_parent =
     (if \<not> fst root_parent < fst (tree_root fc) \<or> contains_block fc root_parent then None
      else do {
        i \<leftarrow> info fc (tree_root fc);
        let fc' = put fc (tree_root fc) (i\<lparr>parent := Some root_parent\<rparr>);
        Some ((put fc' root_parent \<lparr>stake_voted_at = 0,
            stake_voted_subtree = stake_voted_subtree i, height = height i + 1,
            best_slot = best_slot i, deepest_slot = deepest_slot i, parent = None,
            children = [tree_root fc], latest_invalid_ancestor = None,
            is_duplicate_confirmed = is_duplicate_confirmed i\<rparr>)\<lparr>tree_root := root_parent\<rparr>) })"

text \<open>Moving a subtree to another map; the end of \<^verbatim>\<open>to_visit\<close> is the head of the list.\<close>

partial_function (option) split_loop ::
  "fork_choice \<Rightarrow> slot_hash_key list \<Rightarrow> (slot_hash_key \<times> fork_info) list \<Rightarrow>
   (fork_choice \<times> (slot_hash_key \<times> fork_info) list) option"
where
  "split_loop fc to_visit split_infos = (case to_visit of
     [] \<Rightarrow> Some (fc, split_infos)
   | current_node # rest \<Rightarrow> do {
       i \<leftarrow> info fc current_node;
       fc \<leftarrow> drop_info fc current_node;
       split_loop fc (rev (children i) @ rest) (AList.update current_node i split_infos) })"

definition split_votes ::
  "(pubkey \<times> slot_hash_key) list \<Rightarrow> (slot_hash_key \<times> fork_info) list \<Rightarrow> (pubkey \<times> slot_hash_key) list" where
  "split_votes votes infos = filter (\<lambda>(p, k). map_of infos k \<noteq> None) votes"

definition split_off :: "fork_choice \<Rightarrow> slot_hash_key \<Rightarrow> (fork_choice \<times> fork_choice) option" where
  "split_off fc k =
     (if tree_root fc = k then None
      else do {
        split_tree_root \<leftarrow> info fc k;
        par \<leftarrow> parent split_tree_root;
        ops \<leftarrow> insert_aggregate_operations fc [] k;
        i \<leftarrow> info fc par;
        fc \<leftarrow> (if k \<in> set (children i) then Some (put fc par (i\<lparr>children := remove1 k (children i)\<rparr>))
               else None);
        fc \<leftarrow> process_update_operations fc ops;
        (fc, split_infos) \<leftarrow> split_loop fc [k] [];
        i \<leftarrow> info fc par;
        let fc = put fc par (i\<lparr>children := remove1 k (children i)\<rparr>);
        let split_infos = AList.update k (split_tree_root\<lparr>parent := None\<rparr>) split_infos;
        Some (fc\<lparr>latest_votes := split_votes (latest_votes fc) (fork_infos fc)\<rparr>,
          \<lparr>fork_infos = split_infos, latest_votes = split_votes (latest_votes fc) split_infos,
            tree_root = k\<rparr>) })"

definition merge ::
  "epoch_stakes \<Rightarrow> (slot \<Rightarrow> epoch) \<Rightarrow> fork_choice \<Rightarrow> fork_choice \<Rightarrow> slot_hash_key \<Rightarrow> fork_choice option" where
  "merge stakes get_epoch fc other merge_leaf =
     (if \<not> contains_block fc merge_leaf then None
      else
        let other_slots_nodes = map (\<lambda>(k, i). (k, case parent i of Some p \<Rightarrow> p | None \<Rightarrow> merge_leaf))
              (fork_infos other)
        in do {
          fc \<leftarrow> fold_opt (\<lambda>fc (k, p). add_new_leaf_slot fc k (Some p)) fc
            (sort_key fst other_slots_nodes);
          (fc, best) \<leftarrow> add_votes stakes get_epoch fc (latest_votes other);
          Some fc })"

partial_function (option) purge_loop ::
  "fork_choice \<Rightarrow> slot_hash_key list \<Rightarrow> slot_hash_key list \<Rightarrow> fork_choice list \<Rightarrow>
   slot_hash_key option \<Rightarrow> slot_hash_key \<Rightarrow>
   (fork_choice \<times> slot_hash_key list \<times> fork_choice list \<times> slot_hash_key option) option"
where
  "purge_loop fc to_visit purged pruned root new_root = (case to_visit of
     [] \<Rightarrow> Some (fc, purged, pruned, root)
   | cur_slot # rest \<Rightarrow>
       if cur_slot = new_root then purge_loop fc rest purged pruned (Some new_root) new_root
       else if cur_slot < new_root then do {
         cs \<leftarrow> get_children fc cur_slot;
         purge_loop fc (rev cs @ rest) (purged @ [cur_slot]) pruned root new_root }
       else do {
         s \<leftarrow> split_off fc cur_slot;
         purge_loop (fst s) rest purged (pruned @ [snd s]) root new_root })"

definition purge_prune ::
  "fork_choice \<Rightarrow> slot_hash_key \<Rightarrow> (fork_choice \<times> slot_hash_key list \<times> fork_choice list) option" where
  "purge_prune fc new_root = do {
     (fc, purged_slots, pruned_subtrees, root) \<leftarrow> purge_loop fc [tree_root fc] [] [] None new_root;
     fc \<leftarrow> fold_opt drop_info fc purged_slots;
     fc \<leftarrow> (case root of
         Some r \<Rightarrow> do {
           i \<leftarrow> info fc r;
           Some ((put fc r (i\<lparr>parent := None\<rparr>))\<lparr>tree_root := r\<rparr>) }
       | None \<Rightarrow> Some fc);
     Some (fc, purged_slots, pruned_subtrees) }"

section \<open>Selecting forks\<close>

text \<open>The last vote of the tower and whether it is stray are arguments.\<close>

definition heaviest_slot_on_same_voted_fork ::
  "fork_choice \<Rightarrow> slot_hash_key option \<Rightarrow> bool \<Rightarrow> slot_hash_key option option" where
  "heaviest_slot_on_same_voted_fork fc last_voted_slot_hash is_stray_last_vote =
     (case last_voted_slot_hash of
        None \<Rightarrow> Some None
      | Some last_voted \<Rightarrow> (case is_candidate fc last_voted of
          Some True \<Rightarrow> Some (get_best_slot fc last_voted)
        | Some False \<Rightarrow> Some (get_deepest_slot fc last_voted)
        | None \<Rightarrow> if \<not> is_stray_last_vote then None else Some None))"

definition get_with_checked_hash :: "(slot \<rightharpoonup> bank) \<Rightarrow> slot_hash_key \<Rightarrow> bank option option" where
  "get_with_checked_hash bank_forks k = (case bank_forks (fst k) of
     Some b \<Rightarrow> if bank_hash b = snd k then Some (Some b) else None
   | None \<Rightarrow> Some None)"

definition select_forks ::
  "fork_choice \<Rightarrow> slot_hash_key option \<Rightarrow> bool \<Rightarrow> (slot \<rightharpoonup> bank) \<Rightarrow> (bank \<times> bank option) option" where
  "select_forks fc last_voted_slot_hash is_stray_last_vote bank_forks = do {
     best \<leftarrow> best_overall_slot fc;
     heaviest \<leftarrow> get_with_checked_hash bank_forks best;
     heaviest \<leftarrow> heaviest;
     same_fork \<leftarrow> heaviest_slot_on_same_voted_fork fc last_voted_slot_hash is_stray_last_vote;
     Some (heaviest, same_fork \<bind> (\<lambda>k. bank_forks (fst k) \<bind> (\<lambda>b.
       if bank_hash b \<noteq> snd k then None else Some b))) }"

end
