(* ===== verification/Fork_Tree.thy ===== *)
theory Fork_Tree
  imports Fork_Choice
begin

text \<open>
  The tree behind the map of \<^verbatim>\<open>src/core/src/consensus/heaviest_subtree_fork_choice.rs\<close>: links between
  nodes, subtrees and ancestors, the choice of the best among the children of a node, and what it means that
  the stored values of a node agree with those of its children. The loops over ancestors and
  subtrees are related to the tree.
\<close>

declare split_paired_All [simp del] split_paired_Ex [simp del]

section \<open>Links\<close>

type_synonym infos = "slot_hash_key \<rightharpoonup> fork_info"

definition kids :: "infos \<Rightarrow> slot_hash_key \<Rightarrow> slot_hash_key set" where
  "kids fi k = (case fi k of None \<Rightarrow> {} | Some i \<Rightarrow> set (children i))"

definition child_rel :: "infos \<Rightarrow> (slot_hash_key \<times> slot_hash_key) set" where
  "child_rel fi = {(k, c). c \<in> kids fi k}"

definition subtree :: "infos \<Rightarrow> slot_hash_key \<Rightarrow> slot_hash_key set" where
  "subtree fi k = (child_rel fi)\<^sup>* `` {k}"

definition par :: "infos \<Rightarrow> slot_hash_key \<Rightarrow> slot_hash_key option" where
  "par fi k = (case fi k of Some i \<Rightarrow> parent i | None \<Rightarrow> None)"

text \<open>Children know their parent, and have a later slot.\<close>

definition links :: "infos \<Rightarrow> bool" where
  "links fi \<longleftrightarrow> (\<forall>k i. fi k = Some i \<longrightarrow> distinct (children i) \<and>
     (\<forall>c\<in>set (children i). fst k < fst c \<and> par fi c = Some k))"

text \<open>All nodes hang below one root.\<close>

definition rooted :: "infos \<Rightarrow> slot_hash_key \<Rightarrow> bool" where
  "rooted fi r \<longleftrightarrow> r \<in> dom fi \<and> par fi r = None \<and>
     (\<forall>k\<in>dom fi. k \<noteq> r \<longrightarrow> (\<exists>p. par fi k = Some p \<and> k \<in> kids fi p))"

lemma mem_kids: "c \<in> kids fi k \<longleftrightarrow> (\<exists>i. fi k = Some i \<and> c \<in> set (children i))"
  by (auto simp: kids_def split: option.splits)

lemma kids_Some [simp]: "fi k = Some i \<Longrightarrow> kids fi k = set (children i)"
  by (simp add: kids_def)

lemma kids_None [simp]: "fi k = None \<Longrightarrow> kids fi k = {}"
  by (simp add: kids_def)

lemma par_Some [simp]: "fi k = Some i \<Longrightarrow> par fi k = parent i"
  by (simp add: par_def)

lemma par_eq_Some: "par fi k = Some p \<longleftrightarrow> (\<exists>i. fi k = Some i \<and> parent i = Some p)"
  by (auto simp: par_def split: option.splits)

lemma links_kid:
  assumes "links fi" "c \<in> kids fi k"
  shows "fst k < fst c" "par fi c = Some k" "c \<in> dom fi" "k \<in> dom fi"
proof -
  obtain i where i: "fi k = Some i" "c \<in> set (children i)" using assms(2) by (auto simp: mem_kids)
  with assms(1) show "fst k < fst c" "par fi c = Some k" by (auto simp: links_def)
  then show "c \<in> dom fi" "k \<in> dom fi" using i(1) by (auto simp: par_eq_Some)
qed

lemma links_less: "links fi \<Longrightarrow> c \<in> kids fi k \<Longrightarrow> k < c"
  by (auto simp: less_prod_def dest: links_kid(1))

lemma subtree_refl [simp]: "k \<in> subtree fi k"
  by (simp add: subtree_def)

lemma subtree_trans: "d \<in> subtree fi c \<Longrightarrow> c \<in> subtree fi k \<Longrightarrow> d \<in> subtree fi k"
  by (auto simp: subtree_def intro: rtrancl_trans)

lemma kid_subtree: "c \<in> kids fi k \<Longrightarrow> c \<in> subtree fi k"
  by (auto simp: subtree_def child_rel_def)

lemma subtree_kid: "c \<in> kids fi k \<Longrightarrow> d \<in> subtree fi c \<Longrightarrow> d \<in> subtree fi k"
  by (blast intro: subtree_trans kid_subtree)

lemma subtree_step: "d \<in> subtree fi k \<Longrightarrow> e \<in> kids fi d \<Longrightarrow> e \<in> subtree fi k"
  by (blast intro: subtree_trans kid_subtree)

lemma subtree_unfold: "subtree fi k = insert k (\<Union>c\<in>kids fi k. subtree fi c)"
proof -
  have "d \<in> insert k (\<Union>c\<in>kids fi k. subtree fi c)" if "d \<in> subtree fi k" for d
    using that unfolding subtree_def by (auto simp: child_rel_def elim: converse_rtranclE)
  then show ?thesis by (auto intro: subtree_kid)
qed

lemma subtree_induct [consumes 1, case_names refl step]:
  assumes "d \<in> subtree fi k" "P k"
    and "\<And>d e. d \<in> subtree fi k \<Longrightarrow> P d \<Longrightarrow> e \<in> kids fi d \<Longrightarrow> P e"
  shows "P d"
proof -
  have "(k, d) \<in> (child_rel fi)\<^sup>*" using assms(1) by (simp add: subtree_def)
  then show ?thesis
    by (induction rule: rtrancl_induct) (auto simp: subtree_def child_rel_def intro: assms)
qed

lemma subtree_slot:
  assumes "links fi" "d \<in> subtree fi k"
  shows "d = k \<or> fst k < fst d"
  using assms(2)
proof (induction rule: subtree_induct)
  case (step d e)
  have "fst d < fst e" by (rule links_kid(1) [OF assms(1) step(2)])
  with step.IH show ?case by auto
qed simp

lemma subtree_dom:
  assumes "links fi" "d \<in> subtree fi k" "k \<in> dom fi"
  shows "d \<in> dom fi"
  using assms(2)
proof (induction rule: subtree_induct)
  case (step d e)
  show ?case by (rule links_kid(3) [OF assms(1) step(2)])
qed (rule assms(3))

lemma single_valued_parents:
  assumes "links fi"
  shows "single_valued ((child_rel fi)\<inverse>)"
proof (rule single_valuedI)
  fix c p q assume "(c, p) \<in> (child_rel fi)\<inverse>" "(c, q) \<in> (child_rel fi)\<inverse>"
  then have c: "c \<in> kids fi p" "c \<in> kids fi q" by (simp_all add: child_rel_def)
  show "p = q" using links_kid(2) [OF assms c(1)] links_kid(2) [OF assms c(2)] by simp
qed

lemma subtree_comparable:
  assumes "links fi" "d \<in> subtree fi x" "d \<in> subtree fi y"
  shows "x \<in> subtree fi y \<or> y \<in> subtree fi x"
proof -
  have "(d, x) \<in> ((child_rel fi)\<inverse>)\<^sup>*" "(d, y) \<in> ((child_rel fi)\<inverse>)\<^sup>*"
    using assms by (simp_all add: subtree_def rtrancl_converse)
  from single_valued_confluent [OF single_valued_parents [OF assms(1)] this] show ?thesis
    by (auto simp: subtree_def rtrancl_converse)
qed

text \<open>A strict descendant lies below the parent of every node on the way.\<close>

lemma subtree_parent:
  assumes "links fi" "d \<in> subtree fi k" "d \<noteq> k" "par fi d = Some p" "d \<in> kids fi p"
  shows "p \<in> subtree fi k"
proof -
  have "(k, d) \<in> (child_rel fi)\<^sup>*" using assms(2) by (simp add: subtree_def)
  then obtain q where "(k, q) \<in> (child_rel fi)\<^sup>*" "d \<in> kids fi q"
    using assms(3) by (auto simp: child_rel_def elim: rtranclE)
  with assms(1,4) show ?thesis by (auto simp: subtree_def dest: links_kid(2))
qed

lemma kid_not_above:
  assumes "links fi" "c \<in> kids fi k"
  shows "k \<notin> subtree fi c"
  using subtree_slot [OF assms(1), of k c] links_kid(1) [OF assms] by auto

lemma siblings_disjoint:
  assumes "links fi" "c \<in> kids fi k" "c' \<in> kids fi k" "d \<in> subtree fi c" "d \<in> subtree fi c'"
  shows "c = c'"
proof (rule ccontr)
  assume ne: "c \<noteq> c'"
  note k = links_kid(2) [OF assms(1,2)] links_kid(2) [OF assms(1,3)]
  from subtree_comparable [OF assms(1,4,5)] show False
  proof
    assume "c \<in> subtree fi c'"
    from subtree_parent [OF assms(1) this ne k(1) assms(2)] kid_not_above [OF assms(1,3)] show False by simp
  next
    assume "c' \<in> subtree fi c"
    from subtree_parent [OF assms(1) this ne [symmetric] k(2) assms(3)] kid_not_above [OF assms(1,2)]
    show False by simp
  qed
qed

lemma tree_induct [consumes 1, case_names node]:
  assumes "links fi" and "\<And>k. (\<And>c. c \<in> kids fi k \<Longrightarrow> P c) \<Longrightarrow> P k"
  shows "P k"
proof (induction "2 ^ 64 - unat (fst k)" arbitrary: k rule: less_induct)
  case less
  show ?case
  proof (rule assms(2))
    fix c assume "c \<in> kids fi k"
    then have "unat (fst k) < unat (fst c)"
      using assms(1) by (simp add: links_kid(1) flip: word_less_nat_alt)
    then have "2 ^ 64 - unat (fst c) < 2 ^ 64 - unat (fst k)"
      using unat_less [of "fst c"] by simp
    then show "P c" by (rule less)
  qed
qed

lemma parent_induct [case_names node]:
  assumes "\<And>k. (\<And>p. fst p < fst k \<Longrightarrow> P p) \<Longrightarrow> P k"
  shows "P (k :: slot_hash_key)"
  by (induction "unat (fst k)" arbitrary: k rule: less_induct)
    (auto intro: assms simp: word_less_nat_alt)

lemma rooted_root: "rooted fi r \<Longrightarrow> r \<in> dom fi" "rooted fi r \<Longrightarrow> par fi r = None"
  by (auto simp: rooted_def)

lemma rooted_parent:
  "rooted fi r \<Longrightarrow> par fi k = Some p \<Longrightarrow> k \<in> kids fi p"
  by (cases "k = r") (auto simp: rooted_def par_eq_Some)

lemma rooted_subtree:
  assumes "links fi" "rooted fi r" "k \<in> dom fi"
  shows "k \<in> subtree fi r"
  using assms(3)
proof (induction k rule: parent_induct)
  case (node k)
  show ?case
  proof (cases "k = r")
    case False
    then obtain p where p: "k \<in> kids fi p"
      using assms(2) node.prems by (auto simp: rooted_def)
    from node.IH [OF links_kid(1,4) [OF assms(1) p]] show ?thesis using p by (rule subtree_step)
  qed simp
qed

lemma rooted_subtree_eq:
  assumes "links fi" "rooted fi r"
  shows "subtree fi r = dom fi"
proof
  show "subtree fi r \<subseteq> dom fi"
    by (rule subsetI) (rule subtree_dom [OF assms(1) _ rooted_root(1) [OF assms(2)]])
qed (rule subsetI, rule rooted_subtree [OF assms])

section \<open>The best of a list\<close>

fun pick_from :: "('a \<Rightarrow> 'a \<Rightarrow> bool) \<Rightarrow> 'a option \<Rightarrow> 'a list \<Rightarrow> 'a option" where
  "pick_from better acc [] = acc"
| "pick_from better acc (x # xs) = pick_from better
     (case acc of None \<Rightarrow> Some x | Some a \<Rightarrow> if better x a then Some x else acc) xs"

abbreviation pick :: "('a \<Rightarrow> 'a \<Rightarrow> bool) \<Rightarrow> 'a list \<Rightarrow> 'a option" where
  "pick better xs \<equiv> pick_from better None xs"

definition top_of :: "('a \<Rightarrow> 'a \<Rightarrow> bool) \<Rightarrow> 'a set \<Rightarrow> 'a \<Rightarrow> bool" where
  "top_of better S a \<longleftrightarrow> a \<in> S \<and> (\<forall>b\<in>S. \<not> better b a)"

definition strict_total :: "('a \<Rightarrow> 'a \<Rightarrow> bool) \<Rightarrow> bool" where
  "strict_total better \<longleftrightarrow> (\<forall>a. \<not> better a a) \<and>
     (\<forall>a b c. better a b \<longrightarrow> better b c \<longrightarrow> better a c) \<and> (\<forall>a b. a \<noteq> b \<longrightarrow> better a b \<or> better b a)"

lemma pick_from_top:
  assumes "strict_total better" "top_of better S a"
  shows "\<exists>b. pick_from better (Some a) xs = Some b \<and> top_of better (S \<union> set xs) b"
  using assms(2)
proof (induction xs arbitrary: a S)
  case (Cons x xs)
  have "top_of better (insert x S) (if better x a then x else a)"
    using Cons.prems assms(1) unfolding top_of_def strict_total_def by (cases "better x a") (simp_all, blast)
  from Cons.IH [OF this] show ?case by (cases "better x a") simp_all
qed simp

lemma pick_top:
  assumes "strict_total better"
  shows "(\<exists>b. pick better xs = Some b \<and> top_of better (set xs) b) \<or> (xs = [] \<and> pick better xs = None)"
proof (cases xs)
  case (Cons x ys)
  have "top_of better {x} x" using assms by (simp add: top_of_def strict_total_def)
  from pick_from_top [OF assms this, of ys] Cons show ?thesis by simp
qed simp

lemma top_of_unique: "strict_total better \<Longrightarrow> top_of better S a \<Longrightarrow> top_of better S b \<Longrightarrow> a = b"
  unfolding top_of_def strict_total_def by blast

lemma pick_eq_Some_iff:
  "strict_total better \<Longrightarrow> pick better xs = Some a \<longleftrightarrow> top_of better (set xs) a"
  using pick_top [of better xs] top_of_unique [of better "set xs"] by (auto simp: top_of_def)

lemma pick_eq_None_iff: "strict_total better \<Longrightarrow> pick better xs = None \<longleftrightarrow> xs = []"
  using pick_top [of better xs] by auto

lemma option_eqI: "(\<And>z. x = Some z \<longleftrightarrow> y = Some z) \<Longrightarrow> x = y"
  by (cases x; cases y) auto

lemma pick_set_cong:
  "strict_total better \<Longrightarrow> set xs = set ys \<Longrightarrow> pick better xs = pick better ys"
  by (rule option_eqI) (simp add: pick_eq_Some_iff)

lemma pick_from_cong:
  "(\<And>a b. a \<in> S \<Longrightarrow> b \<in> S \<Longrightarrow> better a b = better' a b) \<Longrightarrow> set xs \<subseteq> S \<Longrightarrow>
   (\<And>a. acc = Some a \<Longrightarrow> a \<in> S) \<Longrightarrow> pick_from better acc xs = pick_from better' acc xs"
  by (induction xs arbitrary: acc) (auto split: option.splits)

lemma pick_cong:
  "(\<And>a b. a \<in> set xs \<Longrightarrow> b \<in> set xs \<Longrightarrow> better a b = better' a b) \<Longrightarrow> pick better xs = pick better' xs"
  by (rule pick_from_cong [of "set xs"]) auto

lemma pick_from_append:
  "pick_from better acc (xs @ [x]) = (case pick_from better acc xs of None \<Rightarrow> Some x
     | Some a \<Rightarrow> if better x a then Some x else Some a)"
  by (induction xs arbitrary: acc) (auto split: option.splits)

lemma pick_from_mem: "pick_from better acc xs = Some a \<Longrightarrow> a \<in> set xs \<or> acc = Some a"
  by (induction xs arbitrary: acc) (fastforce split: option.splits if_splits)+

lemma pick_mem: "pick better xs = Some a \<Longrightarrow> a \<in> set xs"
  using pick_from_mem by fastforce

lemma strict_total_by:
  fixes f :: "'a::linorder \<Rightarrow> 'b::linorder"
  shows "strict_total (\<lambda>c d. f c > f d \<or> f c = f d \<and> c < d)"
  unfolding strict_total_def by auto

lemma strict_total_by2:
  fixes f :: "'a::linorder \<Rightarrow> 'b::linorder" and g :: "'a \<Rightarrow> 'c::linorder"
  shows "strict_total (\<lambda>c d. g c > g d \<or> g c = g d \<and> (f c > f d \<or> f c = f d \<and> c < d))"
  unfolding strict_total_def by auto

section \<open>Agreement of a node with its children\<close>

definition heavier :: "infos \<Rightarrow> slot_hash_key \<Rightarrow> slot_hash_key \<Rightarrow> bool" where
  "heavier fi c d \<longleftrightarrow> stake_voted_subtree (the (fi c)) > stake_voted_subtree (the (fi d)) \<or>
     stake_voted_subtree (the (fi c)) = stake_voted_subtree (the (fi d)) \<and> c < d"

definition deeper :: "infos \<Rightarrow> slot_hash_key \<Rightarrow> slot_hash_key \<Rightarrow> bool" where
  "deeper fi c d \<longleftrightarrow> height (the (fi c)) > height (the (fi d)) \<or>
     height (the (fi c)) = height (the (fi d)) \<and>
     (stake_voted_subtree (the (fi c)) > stake_voted_subtree (the (fi d)) \<or>
      stake_voted_subtree (the (fi c)) = stake_voted_subtree (the (fi d)) \<and> c < d)"

lemma strict_total_heavier: "strict_total (heavier fi)"
  unfolding heavier_def by (rule strict_total_by)

lemma strict_total_deeper: "strict_total (deeper fi)"
  unfolding deeper_def by (rule strict_total_by2)

abbreviation candidate :: "infos \<Rightarrow> slot_hash_key \<Rightarrow> bool" where
  "candidate fi c \<equiv> info_is_candidate (the (fi c))"

definition stake_below :: "infos \<Rightarrow> slot_hash_key list \<Rightarrow> u64" where
  "stake_below fi cs = (\<Sum>c\<leftarrow>cs. stake_voted_subtree (the (fi c)))"

definition best_below :: "infos \<Rightarrow> slot_hash_key list \<Rightarrow> slot_hash_key option" where
  "best_below fi cs = pick (heavier fi) (filter (candidate fi) cs)"

definition deepest_below :: "infos \<Rightarrow> slot_hash_key list \<Rightarrow> slot_hash_key option" where
  "deepest_below fi cs = pick (deeper fi) cs"

definition best_via :: "infos \<Rightarrow> slot_hash_key \<Rightarrow> slot_hash_key option \<Rightarrow> slot_hash_key" where
  "best_via fi k c = (case c of None \<Rightarrow> k | Some c \<Rightarrow> best_slot (the (fi c)))"

definition deepest_via :: "infos \<Rightarrow> slot_hash_key \<Rightarrow> slot_hash_key option \<Rightarrow> slot_hash_key" where
  "deepest_via fi k c = (case c of None \<Rightarrow> k | Some c \<Rightarrow> deepest_slot (the (fi c)))"

definition height_via :: "infos \<Rightarrow> slot_hash_key option \<Rightarrow> nat" where
  "height_via fi c = (case c of None \<Rightarrow> 0 | Some c \<Rightarrow> height (the (fi c)))"

definition confirmed_below :: "infos \<Rightarrow> slot_hash_key list \<Rightarrow> bool" where
  "confirmed_below fi cs = list_ex (\<lambda>c. is_duplicate_confirmed (the (fi c))) cs"

definition agree :: "infos \<Rightarrow> slot_hash_key \<Rightarrow> fork_info \<Rightarrow> bool" where
  "agree fi k i \<longleftrightarrow>
     stake_voted_subtree i = stake_voted_at i + stake_below fi (children i) \<and>
     (info_is_candidate i \<longrightarrow> best_slot i = best_via fi k (best_below fi (children i))) \<and>
     height i = height_via fi (deepest_below fi (children i)) + 1 \<and>
     deepest_slot i = deepest_via fi k (deepest_below fi (children i)) \<and>
     (confirmed_below fi (children i) \<longrightarrow> is_duplicate_confirmed i)"

text \<open>What \<^verbatim>\<open>aggregate_slot\<close> stores.\<close>

definition recompute :: "infos \<Rightarrow> slot_hash_key \<Rightarrow> fork_info \<Rightarrow> fork_info" where
  "recompute fi k i =
     (if confirmed_below fi (children i) then set_duplicate_confirmed i else i)
       \<lparr>stake_voted_subtree := stake_voted_at i + stake_below fi (children i),
        height := height_via fi (deepest_below fi (children i)) + 1,
        best_slot := best_via fi k (best_below fi (children i)),
        deepest_slot := deepest_via fi k (deepest_below fi (children i))\<rparr>"

definition aggregate_after :: "infos \<Rightarrow> slot_hash_key \<Rightarrow> fork_info \<Rightarrow> slot_hash_key list \<Rightarrow> aggregate" where
  "aggregate_after fi k i cs = \<lparr>ag_stake_voted_subtree = stake_voted_at i + stake_below fi cs,
     ag_deepest_child_height = height_via fi (deepest_below fi cs),
     ag_best_slot = best_via fi k (best_below fi cs),
     ag_deepest_slot = deepest_via fi k (deepest_below fi cs),
     ag_is_duplicate_confirmed = confirmed_below fi cs,
     ag_best_child_stake = (case best_below fi cs of None \<Rightarrow> 0 | Some c \<Rightarrow> stake_voted_subtree (the (fi c))),
     ag_best_child = (case best_below fi cs of None \<Rightarrow> k | Some c \<Rightarrow> c),
     ag_deepest_child_stake =
       (case deepest_below fi cs of None \<Rightarrow> 0 | Some c \<Rightarrow> stake_voted_subtree (the (fi c))),
     ag_deepest_child = (case deepest_below fi cs of None \<Rightarrow> k | Some c \<Rightarrow> c)\<rparr>"

lemma best_below_mem: "best_below fi cs = Some c \<Longrightarrow> c \<in> set cs \<and> candidate fi c"
  by (auto simp: best_below_def dest: pick_mem)

lemma deepest_below_mem: "deepest_below fi cs = Some c \<Longrightarrow> c \<in> set cs"
  by (auto simp: deepest_below_def dest: pick_mem)

lemma best_below_append:
  "best_below fi (cs @ [c]) = (if candidate fi c then
     (case best_below fi cs of None \<Rightarrow> Some c | Some a \<Rightarrow> if heavier fi c a then Some c else Some a)
     else best_below fi cs)"
  by (simp add: best_below_def pick_from_append)

lemma deepest_below_append:
  "deepest_below fi (cs @ [c]) =
     (case deepest_below fi cs of None \<Rightarrow> Some c | Some a \<Rightarrow> if deeper fi c a then Some c else Some a)"
  by (simp add: deepest_below_def pick_from_append)

lemma cmp_simps:
  "cmp a b = Less \<longleftrightarrow> a < b" "cmp a b = Equal \<longleftrightarrow> a = b" "cmp a b = Greater \<longleftrightarrow> b < a"
  by (auto simp: cmp_def)

lemma aggregate_deepest_alt:
  "aggregate_deepest k c j g =
     (if ag_deepest_child g = k \<or> height j > ag_deepest_child_height g \<or>
         height j = ag_deepest_child_height g \<and>
           (stake_voted_subtree j > ag_deepest_child_stake g \<or>
            stake_voted_subtree j = ag_deepest_child_stake g \<and> c < ag_deepest_child g)
      then g\<lparr>ag_deepest_child_height := height j, ag_deepest_child_stake := stake_voted_subtree j,
        ag_deepest_child := c, ag_deepest_slot := deepest_slot j\<rparr>
      else g)"
  unfolding aggregate_deepest_def Let_def
  by (cases "ag_deepest_child g = k"; cases rule: linorder_cases [of "height j" "ag_deepest_child_height g"];
      cases rule: linorder_cases [of "stake_voted_subtree j" "ag_deepest_child_stake g"];
      cases rule: linorder_cases [of c "ag_deepest_child g"]; auto simp add: cmp_def)

lemma aggregate_child_after:
  assumes c: "info fc c = Some j" "c \<noteq> k" "k \<notin> set cs"
  shows "aggregate_child fc k (aggregate_after (info fc) k i cs) c =
     Some (aggregate_after (info fc) k i (cs @ [c]))"
proof -
  define g where "g = (aggregate_after (info fc) k i cs)
    \<lparr>ag_is_duplicate_confirmed := confirmed_below (info fc) (cs @ [c]),
     ag_stake_voted_subtree := stake_voted_at i + stake_below (info fc) (cs @ [c])\<rparr>"
  have start: "aggregate_child fc k (aggregate_after (info fc) k i cs) c =
      Some (aggregate_deepest k c j (aggregate_best k c j g))"
    by (simp add: aggregate_child_def c(1) g_def aggregate_after_def confirmed_below_def stake_below_def add.assoc)
  have b: "best_below (info fc) cs \<noteq> Some k" using c(3) by (auto dest: best_below_mem)
  have d: "deepest_below (info fc) cs \<noteq> Some k" using c(3) by (auto dest: deepest_below_mem)
  have "aggregate_best k c j g = g
    \<lparr>ag_best_child_stake := ag_best_child_stake (aggregate_after (info fc) k i (cs @ [c])),
     ag_best_child := ag_best_child (aggregate_after (info fc) k i (cs @ [c])),
     ag_best_slot := ag_best_slot (aggregate_after (info fc) k i (cs @ [c]))\<rparr>"
    using b c(1) by (cases "best_below (info fc) cs")
      (simp_all add: aggregate_best_def g_def aggregate_after_def best_below_append best_via_def heavier_def)
  moreover have "aggregate_deepest k c j g' = g'
    \<lparr>ag_deepest_child_height := ag_deepest_child_height (aggregate_after (info fc) k i (cs @ [c])),
     ag_deepest_child_stake := ag_deepest_child_stake (aggregate_after (info fc) k i (cs @ [c])),
     ag_deepest_child := ag_deepest_child (aggregate_after (info fc) k i (cs @ [c])),
     ag_deepest_slot := ag_deepest_slot (aggregate_after (info fc) k i (cs @ [c]))\<rparr>"
    if "ag_deepest_child_height g' = ag_deepest_child_height g"
      "ag_deepest_child_stake g' = ag_deepest_child_stake g" "ag_deepest_child g' = ag_deepest_child g"
      "ag_deepest_slot g' = ag_deepest_slot g" for g'
    using that d c(1) by (cases "deepest_below (info fc) cs")
      (auto simp add: aggregate_deepest_alt g_def aggregate_after_def deepest_below_append
        deepest_via_def height_via_def deeper_def)
  ultimately show ?thesis
    by (simp add: start) (simp add: g_def aggregate_after_def)
qed

lemma aggregate_fold:
  assumes "\<And>c. c \<in> set cs \<Longrightarrow> c \<noteq> k \<and> c \<in> dom (info fc)" "k \<notin> set ds"
  shows "fold_opt (aggregate_child fc k) (aggregate_after (info fc) k i ds) cs =
     Some (aggregate_after (info fc) k i (ds @ cs))"
  using assms
proof (induction cs arbitrary: ds)
  case (Cons c cs)
  from Cons.prems(1) [of c] obtain j where "info fc c = Some j" "c \<noteq> k" by auto
  from aggregate_child_after [OF this Cons.prems(2)] Cons.IH [of "ds @ [c]"] Cons.prems \<open>c \<noteq> k\<close>
  show ?case by simp
qed simp

lemma aggregate_slot_eq:
  assumes "links (info fc)" "info fc k = Some i"
  shows "aggregate_slot fc k = Some (put fc k (recompute (info fc) k i))"
proof -
  have "c \<noteq> k \<and> c \<in> dom (info fc)" if "c \<in> set (children i)" for c
    using links_kid(1,3) [OF assms(1), of c k] assms(2) that by auto
  from aggregate_fold [where ds = "[]" and i = i, OF this]
  have "fold_opt (aggregate_child fc k) (aggregate_start k i) (children i) =
      Some (aggregate_after (info fc) k i (children i))"
    by (simp add: aggregate_after_def aggregate_start_def stake_below_def height_via_def best_via_def
        deepest_via_def best_below_def deepest_below_def confirmed_below_def)
  then show ?thesis
    by (simp add: aggregate_slot_def assms(2) aggregate_finish_def recompute_def aggregate_after_def)
qed

section \<open>Changing one node\<close>

lemma info_put [simp]: "info (put fc k i) = (info fc)(k \<mapsto> i)"
  by (simp add: put_def update_conv')

lemma put_other [simp]:
  "latest_votes (put fc k i) = latest_votes fc" "tree_root (put fc k i) = tree_root fc"
  by (simp_all add: put_def)

lemma distinct_put:
  "distinct (map fst (fork_infos fc)) \<Longrightarrow> distinct (map fst (fork_infos (put fc k i)))"
  by (simp add: put_def distinct_update)

text \<open>A change that keeps the links.\<close>

lemma kids_update:
  "fi k = Some i \<Longrightarrow> children j = children i \<Longrightarrow> kids (fi(k \<mapsto> j)) = kids fi"
  by (rule ext) (simp add: kids_def)

lemma par_update: "fi k = Some i \<Longrightarrow> parent j = parent i \<Longrightarrow> par (fi(k \<mapsto> j)) = par fi"
  by (rule ext) (simp add: par_def)

lemma subtree_eq: "kids fi = kids fi' \<Longrightarrow> subtree fi = subtree fi'"
  by (rule ext) (simp add: subtree_def child_rel_def)

lemma links_alt:
  "links fi \<longleftrightarrow> (\<forall>k i. fi k = Some i \<longrightarrow> distinct (children i)) \<and>
     (\<forall>k c. c \<in> kids fi k \<longrightarrow> fst k < fst c \<and> par fi c = Some k)"
  unfolding links_def mem_kids by blast

lemma links_update:
  assumes "links fi" "fi k = Some i" "children j = children i" "parent j = parent i"
  shows "links (fi(k \<mapsto> j))"
  using assms by (simp add: links_alt kids_update [of fi k i j] par_update [of fi k i j])

lemma rooted_update:
  assumes "rooted fi r" "fi k = Some i" "children j = children i" "parent j = parent i"
  shows "rooted (fi(k \<mapsto> j)) r"
proof -
  have "dom (fi(k \<mapsto> j)) = dom fi" using assms(2) by auto
  with assms show ?thesis
    by (simp add: rooted_def kids_update [of fi k i j] par_update [of fi k i j])
qed

text \<open>Whether a node agrees with its children depends on the stored values of the children alone.\<close>

definition same_values :: "fork_info \<Rightarrow> fork_info \<Rightarrow> bool" where
  "same_values i j \<longleftrightarrow> stake_voted_subtree i = stake_voted_subtree j \<and> height i = height j \<and>
     best_slot i = best_slot j \<and> deepest_slot i = deepest_slot j \<and>
     info_is_candidate i = info_is_candidate j \<and> is_duplicate_confirmed i = is_duplicate_confirmed j"

lemma below_cong:
  assumes "\<And>c. c \<in> set cs \<Longrightarrow> same_values (the (fi c)) (the (fi' c))"
  shows "stake_below fi cs = stake_below fi' cs" "best_below fi cs = best_below fi' cs"
    "deepest_below fi cs = deepest_below fi' cs" "confirmed_below fi cs = confirmed_below fi' cs"
proof -
  have "filter (candidate fi) cs = filter (candidate fi') cs"
    by (rule filter_cong) (use assms in \<open>auto simp: same_values_def\<close>)
  then show "best_below fi cs = best_below fi' cs"
    unfolding best_below_def using assms
    by (simp, intro pick_cong) (simp add: heavier_def same_values_def)
  show "deepest_below fi cs = deepest_below fi' cs"
    unfolding deepest_below_def using assms by (intro pick_cong) (simp add: deeper_def same_values_def)
  have "map (\<lambda>c. stake_voted_subtree (the (fi c))) cs = map (\<lambda>c. stake_voted_subtree (the (fi' c))) cs"
    using assms by (simp add: same_values_def)
  then show "stake_below fi cs = stake_below fi' cs" by (simp only: stake_below_def)
  show "confirmed_below fi cs = confirmed_below fi' cs"
    using assms by (auto simp: confirmed_below_def list_ex_iff same_values_def)
qed

lemma via_cong:
  assumes "\<And>c. c \<in> set cs \<Longrightarrow> same_values (the (fi c)) (the (fi' c))"
  shows "best_via fi k (best_below fi cs) = best_via fi' k (best_below fi' cs)"
    "deepest_via fi k (deepest_below fi cs) = deepest_via fi' k (deepest_below fi' cs)"
    "height_via fi (deepest_below fi cs) = height_via fi' (deepest_below fi' cs)"
proof -
  show "best_via fi k (best_below fi cs) = best_via fi' k (best_below fi' cs)"
    using best_below_mem [of fi cs] assms
    by (simp add: below_cong(2) [OF assms, symmetric] best_via_def same_values_def split: option.splits)
  show "deepest_via fi k (deepest_below fi cs) = deepest_via fi' k (deepest_below fi' cs)"
    "height_via fi (deepest_below fi cs) = height_via fi' (deepest_below fi' cs)"
    using deepest_below_mem [of fi cs] assms
    by (simp_all add: below_cong(3) [OF assms, symmetric] deepest_via_def height_via_def same_values_def
        split: option.splits)
qed

lemma agree_cong:
  assumes "\<And>c. c \<in> set (children i) \<Longrightarrow> same_values (the (fi c)) (the (fi' c))"
  shows "agree fi k i = agree fi' k i"
  by (simp only: agree_def below_cong(1,4) [OF assms] via_cong [OF assms])

lemma same_values_refl [simp]: "same_values i i"
  by (simp add: same_values_def)

lemma agree_update_other: "x \<notin> set (children i) \<Longrightarrow> agree (fi(x \<mapsto> j)) k i = agree fi k i"
  by (rule agree_cong) auto

lemma recompute_simps [simp]:
  "children (recompute fi k i) = children i" "parent (recompute fi k i) = parent i"
  "stake_voted_at (recompute fi k i) = stake_voted_at i"
  by (simp_all add: recompute_def set_duplicate_confirmed_def)

lemma recompute_agree: "agree fi k (recompute fi k i)"
  by (simp add: agree_def recompute_def set_duplicate_confirmed_def)

end
