(* ===== verification/Fork_Loops.thy ===== *)
theory Fork_Loops
  imports Fork_Tree
begin

text \<open>
  The loops of \<^verbatim>\<open>src/core/src/consensus/heaviest_subtree_fork_choice.rs\<close> that follow links, on a tree: the
  iterator over ancestors, the traversal of a subtree, the removal of nodes. Each of them returns.
\<close>

section \<open>Ancestors\<close>

fun chain :: "infos \<Rightarrow> slot_hash_key \<Rightarrow> slot_hash_key list \<Rightarrow> bool" where
  "chain fi k [] \<longleftrightarrow> par fi k = None"
| "chain fi k (p # l) \<longleftrightarrow> par fi k = Some p \<and> chain fi p l"

lemma get_parent_eq: "get_parent fc k = par (info fc) k"
  by (simp add: get_parent_def par_def)

lemma rooted_parent_less:
  assumes "links fi" "rooted fi r" "par fi k = Some p"
  shows "fst p < fst k"
  by (rule links_kid(1) [OF assms(1) rooted_parent [OF assms(2,3)]])

lemma ancestor_iterator_chain:
  assumes "links (info fc)" "rooted (info fc) r"
  shows "\<exists>l. ancestor_iterator fc k = Some l \<and> chain (info fc) k l"
proof (induction k rule: parent_induct)
  case (node k)
  show ?case
  proof (cases "par (info fc) k")
    case None
    then show ?thesis
      by (simp add: ancestor_iterator.simps get_parent_eq exI [of _ "[]"])
  next
    case (Some p)
    from node [OF rooted_parent_less [OF assms Some]] obtain l where
      "ancestor_iterator fc p = Some l" "chain (info fc) p l" by blast
    with Some show ?thesis
      by (intro exI [of _ "p # l"]) (simp add: ancestor_iterator.simps [of fc k] get_parent_eq)
  qed
qed

lemma chain_unique: "chain fi k l \<Longrightarrow> chain fi k l' \<Longrightarrow> l = l'"
proof (induction l arbitrary: k l')
  case Nil
  then show ?case by (cases l') simp_all
next
  case (Cons p l)
  then obtain m where m: "l' = p # m" "chain fi p l" "chain fi p m" by (cases l') auto
  from Cons.IH [OF m(2,3)] m(1) show ?case by simp
qed

lemma chain_mem:
  assumes "links fi" "rooted fi r" "chain fi k l"
  shows "a \<in> set l \<longleftrightarrow> a \<noteq> k \<and> k \<in> subtree fi a \<and> k \<in> dom fi"
  using assms(3)
proof (induction l arbitrary: k)
  case Nil
  have "a = k" if "k \<in> subtree fi a" "k \<in> dom fi"
  proof (rule ccontr)
    assume "a \<noteq> k"
    have "k = r" using Nil that(2) assms(2) by (auto simp: rooted_def)
    with that \<open>a \<noteq> k\<close> show False
      using subtree_slot [OF assms(1) that(1)] subtree_slot [OF assms(1), of a r]
        rooted_subtree [OF assms(1,2), of a] subtree_unfold [of fi a] links_kid(4) [OF assms(1), of _ a]
      by auto
  qed
  then show ?case by auto
next
  case (Cons p l)
  then have p: "par fi k = Some p" "chain fi p l" by simp_all
  note kid = rooted_parent [OF assms(2) p(1)]
  note less = links_kid(1) [OF assms(1) kid]
  have dom: "k \<in> dom fi" "p \<in> dom fi" using links_kid(3,4) [OF assms(1) kid] .
  have "a \<in> set l \<or> a = p \<longleftrightarrow> p \<in> subtree fi a" using Cons.IH [OF p(2)] dom(2) by auto
  also have "\<dots> \<longleftrightarrow> a \<noteq> k \<and> k \<in> subtree fi a"
  proof
    assume "p \<in> subtree fi a"
    then show "a \<noteq> k \<and> k \<in> subtree fi a"
      using kid_not_above [OF assms(1) kid] subtree_step [OF _ kid] by auto
  next
    assume "a \<noteq> k \<and> k \<in> subtree fi a"
    then show "p \<in> subtree fi a" using subtree_parent [OF assms(1) _ _ p(1) kid, of a] by auto
  qed
  finally show ?case using dom(1) by auto
qed

lemma is_strict_ancestor_iff:
  assumes "links (info fc)" "rooted (info fc) r" "k \<in> dom (info fc)"
  shows "is_strict_ancestor fc a k = Some (a \<noteq> k \<and> k \<in> subtree (info fc) a)"
proof -
  obtain l where l: "ancestor_iterator fc k = Some l" "chain (info fc) k l"
    using ancestor_iterator_chain [OF assms(1,2)] by blast
  have "list_ex (\<lambda>b. fst b = fst a \<and> snd b = snd a) l \<longleftrightarrow> a \<in> set l"
    by (auto simp: list_ex_iff prod_eq_iff [symmetric])
  with chain_mem [OF assms(1,2) l(2)] subtree_slot [OF assms(1), of k a] assms(3) l(1) show ?thesis
    by (auto simp: is_strict_ancestor_def)
qed

section \<open>Subtrees\<close>

definition reach :: "infos \<Rightarrow> slot_hash_key \<Rightarrow> slot_hash_key \<Rightarrow> slot_hash_key set" where
  "reach fi r2 x = subtree fi x - (if r2 \<in> subtree fi x then subtree fi r2 else {})"

lemma subtree_antisym:
  assumes "links fi" "x \<in> subtree fi y" "y \<in> subtree fi x"
  shows "x = y"
  using subtree_slot [OF assms(1,2)] subtree_slot [OF assms(1,3)] by auto

lemma reach_unfold:
  assumes "links fi" "x \<noteq> r2"
  shows "reach fi r2 x = insert x (\<Union>c\<in>kids fi x. reach fi r2 c)"
proof (rule set_eqI)
  fix d
  have via: "d \<in> reach fi r2 x \<longleftrightarrow> d \<in> reach fi r2 c" if c: "c \<in> kids fi x" "d \<in> subtree fi c" for c
  proof -
    have "r2 \<in> subtree fi c" if "r2 \<in> subtree fi x" "d \<in> subtree fi r2"
    proof -
      obtain c' where c': "c' \<in> kids fi x" "r2 \<in> subtree fi c'"
        using \<open>r2 \<in> subtree fi x\<close> assms(2) subtree_unfold [of fi x] by auto
      from siblings_disjoint [OF assms(1) c(1) c'(1) c(2) subtree_trans [OF that(2) c'(2)]] c'(2)
      show ?thesis by simp
    qed
    then show ?thesis using c by (auto simp: reach_def intro: subtree_kid)
  qed
  show "d \<in> reach fi r2 x \<longleftrightarrow> d \<in> insert x (\<Union>c\<in>kids fi x. reach fi r2 c)"
  proof (cases "d = x")
    case True
    then show ?thesis using subtree_antisym [OF assms(1), of x r2] assms(2) by (auto simp: reach_def)
  next
    case False
    have "(\<exists>c\<in>kids fi x. d \<in> subtree fi c) \<longleftrightarrow> d \<in> subtree fi x"
      using False subtree_unfold [of fi x] by auto
    moreover have "(\<exists>c\<in>kids fi x. d \<in> reach fi r2 c) \<longleftrightarrow> (\<exists>c\<in>kids fi x. d \<in> subtree fi c \<and> d \<in> reach fi r2 c)"
      by (rule bex_cong) (simp_all add: reach_def)
    moreover have "\<dots> \<longleftrightarrow> (\<exists>c\<in>kids fi x. d \<in> subtree fi c) \<and> d \<in> reach fi r2 x"
      using via by blast
    moreover have "d \<in> reach fi r2 x \<Longrightarrow> d \<in> subtree fi x" by (simp add: reach_def)
    ultimately show ?thesis using False by blast
  qed
qed

lemma subtree_diff_node:
  fixes fc
  defines "fi \<equiv> info fc"
  assumes links: "links fi" and x: "x \<in> dom fi"
  shows "\<exists>acc'. (\<forall>st. subtree_diff_loop fc r2 (x # st) acc = subtree_diff_loop fc r2 st acc') \<and>
     set acc' = set acc \<union> reach fi r2 x \<and> (distinct acc \<longrightarrow> distinct acc')"
  using x
proof (induction x arbitrary: acc rule: tree_induct [OF links])
  case (1 x)
  have list: "\<exists>acc'. (\<forall>st. subtree_diff_loop fc r2 (cs @ st) acc = subtree_diff_loop fc r2 st acc') \<and>
      set acc' = set acc \<union> (\<Union>c\<in>set cs. reach fi r2 c) \<and> (distinct acc \<longrightarrow> distinct acc')"
    if "set cs \<subseteq> kids fi x" for cs acc
    using that(1)
  proof (induction cs arbitrary: acc)
    case (Cons c cs)
    then have c: "c \<in> kids fi x" by simp
    from "1.IH" [OF c links_kid(3) [OF links c], of acc] obtain acc1 where a1:
      "\<And>st. subtree_diff_loop fc r2 (c # st) acc = subtree_diff_loop fc r2 st acc1"
      "set acc1 = set acc \<union> reach fi r2 c" "distinct acc \<longrightarrow> distinct acc1" by auto
    from Cons.IH [of acc1] Cons.prems obtain acc2 where
      "\<And>st. subtree_diff_loop fc r2 (cs @ st) acc1 = subtree_diff_loop fc r2 st acc2"
      "set acc2 = set acc1 \<union> (\<Union>c\<in>set cs. reach fi r2 c)" "distinct acc1 \<longrightarrow> distinct acc2"
      by auto
    with a1 show ?case by (intro exI [of _ acc2]) auto
  qed auto
  obtain i where i: "info fc x = Some i" using "1.prems" by (auto simp: fi_def)
  show ?case
  proof (cases "x = r2")
    case True
    then have "subtree_diff_loop fc r2 (x # st) acc = subtree_diff_loop fc r2 st acc" for st
      by (subst subtree_diff_loop.simps) simp
    with True show ?thesis by (intro exI [of _ acc]) (simp add: reach_def)
  next
    case False
    have kx: "kids fi x = set (rev (children i))" using i by (simp add: fi_def)
    from list [of "rev (children i)" "List.insert x acc"] kx obtain acc' where a:
      "\<And>st. subtree_diff_loop fc r2 (rev (children i) @ st) (List.insert x acc) = subtree_diff_loop fc r2 st acc'"
      "set acc' = insert x (set acc) \<union> (\<Union>c\<in>kids fi x. reach fi r2 c)"
      "distinct acc \<longrightarrow> distinct acc'" by auto
    have "subtree_diff_loop fc r2 (x # st) acc = subtree_diff_loop fc r2 st acc'" for st
      by (subst subtree_diff_loop.simps) (use False i a(1) in \<open>simp add: get_children_def\<close>)
    moreover have "set acc' = set acc \<union> reach fi r2 x"
      using a(2) reach_unfold [OF links False] by blast
    ultimately show ?thesis using a(3) by blast
  qed
qed

lemma subtree_diff_set:
  assumes "links (info fc)" "x \<in> dom (info fc)"
  shows "\<exists>l. subtree_diff fc x r2 = Some l \<and> distinct l \<and> set l = reach (info fc) r2 x"
proof -
  from subtree_diff_node [OF assms, of r2 "[]"] obtain l where
    "\<And>st. subtree_diff_loop fc r2 (x # st) [] = subtree_diff_loop fc r2 st l"
    "set l = reach (info fc) r2 x" "distinct l" by auto
  moreover have "subtree_diff_loop fc r2 [] l = Some l"
    by (subst subtree_diff_loop.simps) simp
  moreover have "info fc x \<noteq> None" using assms(2) by (auto simp: dom_def)
  ultimately show ?thesis by (intro exI [of _ l]) (simp add: subtree_diff_def contains_block_def)
qed

text \<open>With the default key, which is below no node, the whole subtree is visited.\<close>

lemma subtree_diff_default:
  assumes "links (info fc)" "x \<in> dom (info fc)" "x \<noteq> (0, 0)"
  shows "\<exists>l. subtree_diff fc x (0, 0) = Some l \<and> distinct l \<and> set l = subtree (info fc) x"
proof -
  have "(0, 0) \<notin> subtree (info fc) x"
    using subtree_slot [OF assms(1), of "(0, 0)" x] assms(3) by auto
  with subtree_diff_set [OF assms(1,2), of "(0, 0)"] show ?thesis by (simp add: reach_def)
qed

section \<open>Removing nodes\<close>

lemma drop_info_Some:
  assumes "info fc k = Some i"
  shows "drop_info fc k = Some (fc\<lparr>fork_infos := AList.delete k (fork_infos fc)\<rparr>)"
  using assms by (simp add: drop_info_def)

definition dropped :: "fork_choice \<Rightarrow> slot_hash_key set \<Rightarrow> fork_choice \<Rightarrow> bool" where
  "dropped fc S fc' \<longleftrightarrow> info fc' = info fc |` (- S) \<and> latest_votes fc' = latest_votes fc \<and>
     tree_root fc' = tree_root fc \<and>
     (distinct (map fst (fork_infos fc)) \<longrightarrow> distinct (map fst (fork_infos fc')))"

lemma dropped_empty [simp]: "dropped fc {} fc"
  by (auto simp: dropped_def restrict_map_def)

lemma dropped_trans: "dropped fc S fc1 \<Longrightarrow> dropped fc1 T fc2 \<Longrightarrow> dropped fc (S \<union> T) fc2"
  by (auto simp: dropped_def restrict_map_def fun_eq_iff)

lemma drop_info_dropped:
  assumes "info fc k = Some i"
  shows "\<exists>fc'. drop_info fc k = Some fc' \<and> dropped fc {k} fc'"
proof -
  have "info (fc\<lparr>fork_infos := AList.delete k (fork_infos fc)\<rparr>) = info fc |` (- {k})"
    by (rule ext) (simp add: delete_conv' restrict_map_def)
  then show ?thesis by (simp add: drop_info_Some [OF assms] dropped_def distinct_delete)
qed

lemma drop_all:
  assumes "distinct ks" "set ks \<subseteq> dom (info fc)"
  shows "\<exists>fc'. fold_opt drop_info fc ks = Some fc' \<and> dropped fc (set ks) fc'"
  using assms
proof (induction ks arbitrary: fc)
  case (Cons k ks)
  then obtain i where "info fc k = Some i" by auto
  from drop_info_dropped [OF this] obtain fc1 where
    1: "drop_info fc k = Some fc1" "dropped fc {k} fc1" by auto
  have "set ks \<subseteq> dom (info fc1)" using Cons.prems 1(2) by (auto simp: dropped_def)
  with Cons.IH [of fc1] Cons.prems obtain fc2 where
    2: "fold_opt drop_info fc1 ks = Some fc2" "dropped fc1 (set ks) fc2" by auto
  from dropped_trans [OF 1(2) 2(2)] 1 2 show ?case by simp
qed simp

text \<open>Moving a subtree to another map.\<close>

definition moved :: "infos \<Rightarrow> slot_hash_key set \<Rightarrow> (slot_hash_key \<times> fork_info) list \<Rightarrow>
    (slot_hash_key \<times> fork_info) list \<Rightarrow> bool" where
  "moved fi S m m' \<longleftrightarrow> map_of m' = map_of m ++ (fi |` S) \<and>
     (distinct (map fst m) \<longrightarrow> distinct (map fst m'))"

lemma moved_trans: "moved fi S m1 m2 \<Longrightarrow> moved fi T m2 m3 \<Longrightarrow> moved fi (S \<union> T) m1 m3"
  by (auto simp: moved_def map_add_def restrict_map_def fun_eq_iff split: option.splits)

lemma moved_one: "fi k = Some i \<Longrightarrow> moved fi {k} m (AList.update k i m)"
  by (auto simp: moved_def update_conv' map_add_def restrict_map_def fun_eq_iff distinct_update
      split: option.splits)

lemma moved_none [simp]: "moved fi {} m m"
  by (simp add: moved_def)

definition untouched :: "infos \<Rightarrow> slot_hash_key set \<Rightarrow> fork_choice \<Rightarrow> bool" where
  "untouched fi S fc \<longleftrightarrow> (\<forall>d\<in>S. info fc d = fi d)"

lemma untouched_dropped: "untouched fi S fc \<Longrightarrow> dropped fc T fc' \<Longrightarrow> S \<inter> T = {} \<Longrightarrow> untouched fi S fc'"
  by (auto simp: untouched_def dropped_def restrict_map_def)

lemma split_list:
  assumes links: "links fi"
    and step: "\<And>c fc m. c \<in> kids fi x \<Longrightarrow> untouched fi (subtree fi c) fc \<Longrightarrow>
      \<exists>fc' m'. (\<forall>st. split_loop fc (c # st) m = split_loop fc' st m') \<and>
        dropped fc (subtree fi c) fc' \<and> moved fi (subtree fi c) m m'"
    and cs: "set cs \<subseteq> kids fi x" "distinct cs" "untouched fi (\<Union>c\<in>set cs. subtree fi c) fc"
  shows "\<exists>fc' m'. (\<forall>st. split_loop fc (cs @ st) m = split_loop fc' st m') \<and>
     dropped fc (\<Union>c\<in>set cs. subtree fi c) fc' \<and> moved fi (\<Union>c\<in>set cs. subtree fi c) m m'"
  using cs
proof (induction cs arbitrary: fc m)
  case Nil
  have "split_loop fc ([] @ st) m = split_loop fc st m" for st by simp
  then show ?case using dropped_empty moved_none by (metis Union_image_empty list.set(1) UN_empty)
next
  case (Cons c cs)
  then have c: "c \<in> kids fi x" "untouched fi (subtree fi c) fc" by (simp_all add: untouched_def)
  from step [OF this, of m] obtain fc1 m1 where 1:
    "\<And>st. split_loop fc (c # st) m = split_loop fc1 st m1" "dropped fc (subtree fi c) fc1"
    "moved fi (subtree fi c) m m1" by auto
  have "(\<Union>c\<in>set cs. subtree fi c) \<inter> subtree fi c = {}"
    using siblings_disjoint [OF links c(1)] Cons.prems by fastforce
  moreover have "untouched fi (\<Union>c\<in>set cs. subtree fi c) fc" using Cons.prems(3) by (simp add: untouched_def)
  ultimately have "untouched fi (\<Union>c\<in>set cs. subtree fi c) fc1" using untouched_dropped 1(2) by blast
  with Cons.IH [of fc1 m1] Cons.prems obtain fc2 m2 where 2:
    "\<And>st. split_loop fc1 (cs @ st) m1 = split_loop fc2 st m2"
    "dropped fc1 (\<Union>c\<in>set cs. subtree fi c) fc2" "moved fi (\<Union>c\<in>set cs. subtree fi c) m1 m2" by auto
  from dropped_trans [OF 1(2) 2(2)] moved_trans [OF 1(3) 2(3)] 1(1) 2(1) show ?case
    by (intro exI [of _ fc2] exI [of _ m2]) simp
qed

lemma split_node:
  assumes links: "links fi" and x: "x \<in> dom fi" "untouched fi (subtree fi x) fc"
  shows "\<exists>fc' m'. (\<forall>st. split_loop fc (x # st) m = split_loop fc' st m') \<and>
     dropped fc (subtree fi x) fc' \<and> moved fi (subtree fi x) m m'"
  using x
proof (induction x arbitrary: fc m rule: tree_induct [OF links])
  case (1 x)
  obtain i where i: "fi x = Some i" using "1.prems" by auto
  then have ifc: "info fc x = Some i" using "1.prems"(2) by (simp add: untouched_def)
  from drop_info_dropped [OF this] obtain fc1 where
    1: "drop_info fc x = Some fc1" "dropped fc {x} fc1" by auto
  let ?cs = "rev (children i)"
  have kx: "kids fi x = set ?cs" using i by simp
  have sub: "(\<Union>c\<in>set ?cs. subtree fi c) \<subseteq> subtree fi x - {x}"
    unfolding kx [symmetric] by (blast intro: subtree_kid dest: kid_not_above [OF links])
  have un: "untouched fi (\<Union>c\<in>set ?cs. subtree fi c) fc1"
    by (rule untouched_dropped [OF _ 1(2)]) (use sub "1.prems"(2) in \<open>auto simp: untouched_def\<close>)
  have step: "\<exists>fc' m'. (\<forall>st. split_loop fc (c # st) m = split_loop fc' st m') \<and>
        dropped fc (subtree fi c) fc' \<and> moved fi (subtree fi c) m m'"
    if "c \<in> kids fi x" "untouched fi (subtree fi c) fc" for c fc m
    using "1.IH" [OF that(1) links_kid(3) [OF links that(1)] that(2)] .
  have dist: "distinct ?cs" using links i by (simp add: links_def)
  have "\<exists>fc2 m2. (\<forall>st. split_loop fc1 (?cs @ st) (AList.update x i m) = split_loop fc2 st m2) \<and>
      dropped fc1 (\<Union>c\<in>set ?cs. subtree fi c) fc2 \<and>
      moved fi (\<Union>c\<in>set ?cs. subtree fi c) (AList.update x i m) m2"
    by (rule split_list [where x = x, OF links step]) (use kx dist un in simp_all)
  then obtain fc2 m2 where 2:
    "\<And>st. split_loop fc1 (?cs @ st) (AList.update x i m) = split_loop fc2 st m2"
    "dropped fc1 (\<Union>c\<in>kids fi x. subtree fi c) fc2"
    "moved fi (\<Union>c\<in>kids fi x. subtree fi c) (AList.update x i m) m2" unfolding kx by blast
  have "split_loop fc (x # st) m = split_loop fc2 st m2" for st
    by (subst split_loop.simps) (simp add: ifc 1(1) 2(1) [simplified])
  moreover have "subtree fi x = {x} \<union> (\<Union>c\<in>kids fi x. subtree fi c)" using subtree_unfold [of fi x] by simp
  ultimately show ?case
    using dropped_trans [OF 1(2) 2(2)] moved_trans [OF moved_one [of fi x i m, OF i] 2(3)]
    by (intro exI [of _ fc2] exI [of _ m2]) simp
qed

lemma split_loop_all:
  assumes "links fi" "x \<in> dom fi" "untouched fi (subtree fi x) fc"
  shows "\<exists>fc' m. split_loop fc [x] [] = Some (fc', m) \<and> dropped fc (subtree fi x) fc' \<and>
     map_of m = fi |` subtree fi x \<and> distinct (map fst m)"
proof -
  from split_node [OF assms, of "[]"] obtain fc' m where
    1: "\<And>st. split_loop fc (x # st) [] = split_loop fc' st m" "dropped fc (subtree fi x) fc'"
    "moved fi (subtree fi x) [] m" by auto
  have "split_loop fc' [] m = Some (fc', m)" by (subst split_loop.simps) simp
  with 1 show ?thesis by (intro exI [of _ fc'] exI [of _ m]) (simp add: moved_def)
qed

end
