(* ===== verification/Fork_Process.thy ===== *)
theory Fork_Process
  imports Fork_Loops
begin

text \<open>
  Processing a batch of updates (\<^verbatim>\<open>process_update_operations\<close> of
  \<^verbatim>\<open>src/core/src/consensus/heaviest_subtree_fork_choice.rs\<close>): from the greatest key to the smallest, every
  node that has no aggregation pending agrees with its children, so that in the end all do.
\<close>

section \<open>Batches\<close>

fun matches :: "update_label \<Rightarrow> update_operation \<Rightarrow> bool" where
  "matches L_Aggregate o' \<longleftrightarrow> o' = Op_Aggregate"
| "matches L_Add o' \<longleftrightarrow> (\<exists>s. o' = Op_Add s)"
| "matches (L_MarkValid s) o' \<longleftrightarrow> o' = Op_MarkValid s"
| "matches (L_MarkInvalid s) o' \<longleftrightarrow> o' = Op_MarkInvalid s"
| "matches L_Subtract o' \<longleftrightarrow> (\<exists>s. o' = Op_Subtract s)"

fun is_mark :: "update_label \<Rightarrow> bool" where
  "is_mark (L_MarkValid s) = True"
| "is_mark (L_MarkInvalid s) = True"
| "is_mark l = False"

abbreviation keys_of :: "update_operations \<Rightarrow> (slot_hash_key \<times> update_label) set" where
  "keys_of ops \<equiv> fst ` set ops"

text \<open>
  A batch is closed when every node it touches has the aggregation of its parent in the batch, and a node
  that is marked has its own.
\<close>

definition closed :: "infos \<Rightarrow> (slot_hash_key \<times> update_label) set \<Rightarrow> bool" where
  "closed fi K \<longleftrightarrow> (\<forall>k l p. (k, l) \<in> K \<longrightarrow> k \<in> kids fi p \<longrightarrow> (p, L_Aggregate) \<in> K) \<and>
     (\<forall>k l. (k, l) \<in> K \<longrightarrow> is_mark l \<longrightarrow> (k, L_Aggregate) \<in> K)"

definition settled :: "infos \<Rightarrow> (slot_hash_key \<times> update_label) set \<Rightarrow> bool" where
  "settled fi K \<longleftrightarrow> (\<forall>k i. fi k = Some i \<longrightarrow> (k, L_Aggregate) \<notin> K \<longrightarrow> agree fi k i)"

definition best_within :: "infos \<Rightarrow> bool" where
  "best_within fi \<longleftrightarrow> (\<forall>k i. fi k = Some i \<longrightarrow> best_slot i \<in> subtree fi k)"

definition batch_ok :: "update_operations \<Rightarrow> bool" where
  "batch_ok ops \<longleftrightarrow> (\<forall>((k, l), o')\<in>set ops. matches l o')"

definition descending :: "update_operations \<Rightarrow> bool" where
  "descending ops \<longleftrightarrow> sorted_wrt (\<lambda>x y. fst y < fst x) ops"

definition processing :: "fork_choice \<Rightarrow> update_operations \<Rightarrow> bool" where
  "processing fc ops \<longleftrightarrow> links (info fc) \<and> best_within (info fc) \<and> batch_ok ops \<and> descending ops \<and>
     closed (info fc) (keys_of ops) \<and> settled (info fc) (keys_of ops)"

lemma aggregate_least: "l \<noteq> L_Aggregate \<Longrightarrow> L_Aggregate < l"
  by (cases l) (auto simp: less_update_label_def)

lemma descending_Cons: "descending (x # ops) \<longleftrightarrow> (\<forall>y\<in>set ops. fst y < fst x) \<and> descending ops"
  by (simp add: descending_def)

lemma closed_tail:
  assumes "links fi" "descending (x # ops)" "closed fi (keys_of (x # ops))"
  shows "closed fi (keys_of ops)"
proof -
  have in_tail: "(p, L_Aggregate) \<in> keys_of ops"
    if "(k, l) \<in> keys_of ops" "(p, L_Aggregate) \<in> keys_of (x # ops)" "(p, L_Aggregate) < (k, l)" for k l p
  proof -
    from that(1) assms(2) have "(k, l) < fst x" by (auto simp: descending_Cons)
    from less_imp_neq [OF less_trans [OF that(3) this]] that(2) show ?thesis by auto
  qed
  show ?thesis
    unfolding closed_def
  proof (intro conjI allI impI)
    fix k l p assume *: "(k, l) \<in> keys_of ops" "k \<in> kids fi p"
    have "(p, L_Aggregate) \<in> keys_of (x # ops)" using * assms(3) by (auto simp: closed_def)
    moreover have "(p, L_Aggregate) < (k, l)" using links_less [OF assms(1) *(2)] by (simp add: less_prod_def)
    ultimately show "(p, L_Aggregate) \<in> keys_of ops" using in_tail *(1) by blast
  next
    fix k l assume *: "(k, l) \<in> keys_of ops" "is_mark l"
    have "(k, L_Aggregate) \<in> keys_of (x # ops)" using * assms(3) by (auto simp: closed_def)
    moreover have "(k, L_Aggregate) < (k, l)"
      using aggregate_least [of l] *(2) by (cases l) (auto simp: less_prod_def)
    ultimately show "(k, L_Aggregate) \<in> keys_of ops" using in_tail *(1) by blast
  qed
qed

section \<open>One operation\<close>

text \<open>What an operation makes of the node it is for.\<close>

inductive op_effect :: "infos \<Rightarrow> slot_hash_key \<Rightarrow> fork_info \<Rightarrow> update_operation \<Rightarrow> fork_info \<Rightarrow> bool"
  for fi k i where
  aggregates: "op_effect fi k i Op_Aggregate (recompute fi k i)"
| adds: "op_effect fi k i (Op_Add s) (i\<lparr>stake_voted_at := stake_voted_at i + s,
      stake_voted_subtree := stake_voted_subtree i + s\<rparr>)"
| subtracts: "op_effect fi k i (Op_Subtract s) (i\<lparr>stake_voted_at := stake_voted_at i - s,
      stake_voted_subtree := stake_voted_subtree i - s\<rparr>)"
| marks_valid: "op_effect fi k i (Op_MarkValid s)
      (i\<lparr>latest_invalid_ancestor := (case latest_invalid_ancestor i of
            Some a \<Rightarrow> if a \<le> s then None else Some a | None \<Rightarrow> None),
         is_duplicate_confirmed := (fst k = s \<or> is_duplicate_confirmed i)\<rparr>)"
| marks_invalid: "\<not> is_duplicate_confirmed i \<Longrightarrow> op_effect fi k i (Op_MarkInvalid s)
      (i\<lparr>latest_invalid_ancestor := (case latest_invalid_ancestor i of
            Some a \<Rightarrow> Some (max a s) | None \<Rightarrow> Some s)\<rparr>)"

lemma process_operation_effect:
  assumes "links (info fc)" "process_operation fc ((k, l), u) = Some fc'" "info fc k = Some i"
  shows "\<exists>j. fc' = put fc k j \<and> op_effect (info fc) k i u j"
proof (cases u)
  case (Op_Add s)
  then show ?thesis using assms(2,3) by (auto simp: add_slot_stake_def intro: op_effect.intros)
next
  case (Op_Subtract s)
  then show ?thesis using assms(2,3) by (auto simp: subtract_slot_stake_def intro: op_effect.intros)
next
  case Op_Aggregate
  then show ?thesis
    using assms(2) aggregate_slot_eq [OF assms(1,3)] by (auto intro: op_effect.intros)
next
  case (Op_MarkValid s)
  let ?j = "i\<lparr>latest_invalid_ancestor := (case latest_invalid_ancestor i of
      Some a \<Rightarrow> if a \<le> s then None else Some a | None \<Rightarrow> None),
    is_duplicate_confirmed := (fst k = s \<or> is_duplicate_confirmed i)\<rparr>"
  have "fc' = put fc k ?j"
    using assms(2,3) Op_MarkValid
    by (cases i) (auto simp: mark_fork_valid_def update_with_newly_valid_ancestor_def Let_def split: option.splits)
  with Op_MarkValid show ?thesis by (auto intro: op_effect.intros)
next
  case (Op_MarkInvalid s)
  let ?j = "i\<lparr>latest_invalid_ancestor := (case latest_invalid_ancestor i of
            Some a \<Rightarrow> Some (max a s) | None \<Rightarrow> Some s)\<rparr>"
  have "\<not> is_duplicate_confirmed i \<and> fc' = put fc k ?j"
    using assms(2,3) Op_MarkInvalid
    by (cases i) (auto simp: mark_fork_invalid_def update_with_newly_invalid_ancestor_def max_def
        split: option.splits if_splits)
  with Op_MarkInvalid show ?thesis by (auto intro: op_effect.intros)
qed

lemma process_operation_none:
  "process_operation fc ((k, l), u) = Some fc' \<Longrightarrow> info fc k = None \<Longrightarrow> fc' = fc"
  by (cases u) (auto simp: mark_fork_valid_def mark_fork_invalid_def aggregate_slot_def
      add_slot_stake_def subtract_slot_stake_def)

lemma op_effect_shape:
  assumes "op_effect fi k i u j"
  shows "children j = children i" "parent j = parent i"
  using assms by (cases; simp)+

lemma not_own_child: "links fi \<Longrightarrow> fi k = Some i \<Longrightarrow> k \<notin> set (children i)"
  using links_kid(1) [of fi k k] by auto

lemma settled_step:
  assumes inv: "links fi" "settled fi (keys_of (((k, l), u) # ops))"
      "closed fi (keys_of (((k, l), u) # ops))" "matches l u" "descending (((k, l), u) # ops)"
    and e: "fi k = Some i" "op_effect fi k i u j"
  shows "settled (fi(k \<mapsto> j)) (keys_of ops)"
  unfolding settled_def
proof (intro allI impI)
  fix x xi assume x: "(fi(k \<mapsto> j)) x = Some xi" "(x, L_Aggregate) \<notin> keys_of ops"
  note own = not_own_child [OF inv(1) e(1)]
  show "agree (fi(k \<mapsto> j)) x xi"
  proof (cases "x = k")
    case True
    have "agree fi k j"
      using e(2)
    proof cases
      case aggregates
      then show ?thesis by (simp add: recompute_agree)
    next
      case adds
      then have "agree fi k i" using inv(2,4) e(1) x(2) True by (cases l) (auto simp: settled_def)
      with adds show ?thesis by (simp add: agree_def info_is_candidate_def)
    next
      case subtracts
      then have "agree fi k i" using inv(2,4) e(1) x(2) True by (cases l) (auto simp: settled_def)
      with subtracts show ?thesis by (simp add: agree_def info_is_candidate_def)
    next
      case marks_valid
      then have "l \<noteq> L_Aggregate" "is_mark l" using inv(4) by (cases l; simp)+
      then show ?thesis using inv(3) x(2) True by (auto simp: closed_def)
    next
      case marks_invalid
      then have "l \<noteq> L_Aggregate" "is_mark l" using inv(4) by (cases l; simp)+
      then show ?thesis using inv(3) x(2) True by (auto simp: closed_def)
    qed
    moreover have "k \<notin> set (children j)" using own op_effect_shape(1) [OF e(2)] by simp
    ultimately show ?thesis using True x(1) by (simp add: agree_update_other)
  next
    case False
    with x(1) have xi: "fi x = Some xi" by simp
    have nk: "(x, L_Aggregate) \<notin> keys_of (((k, l), u) # ops)" using x(2) False by auto
    with inv(2) xi have "agree fi x xi" unfolding settled_def by blast
    moreover have "(k, l) \<in> keys_of (((k, l), u) # ops)" by simp
    with inv(3) nk have "k \<notin> kids fi x" unfolding closed_def by blast
    ultimately show ?thesis using xi by (simp add: agree_update_other)
  qed
qed

lemma best_within_update:
  assumes "best_within fi" "fi k = Some i" "children j = children i" "best_slot j \<in> subtree fi k"
  shows "best_within (fi(k \<mapsto> j))"
  using assms by (simp add: best_within_def subtree_eq [OF kids_update [of fi k i j]])

lemma best_via_within:
  assumes "links fi" "best_within fi" "fi k = Some i"
  shows "best_via fi k (best_below fi (children i)) \<in> subtree fi k"
proof (cases "best_below fi (children i)")
  case (Some c)
  then have c: "c \<in> kids fi k" using best_below_mem assms(3) by fastforce
  with links_kid(3) [OF assms(1)] obtain j where "fi c = Some j" by blast
  with assms(2) have "best_slot (the (fi c)) \<in> subtree fi c" by (simp add: best_within_def)
  with c Some show ?thesis by (simp add: best_via_def subtree_kid)
qed (simp add: best_via_def)

lemma op_effect_best:
  assumes "links fi" "best_within fi" "fi k = Some i" "op_effect fi k i u j"
  shows "best_slot j \<in> subtree fi k"
  using assms(4)
proof cases
  case aggregates
  then show ?thesis using best_via_within [OF assms(1-3)] by (simp add: recompute_def)
qed (use assms(2,3) in \<open>simp_all add: best_within_def\<close>)

text \<open>What no operation changes.\<close>

definition same_shape :: "fork_choice \<Rightarrow> fork_choice \<Rightarrow> bool" where
  "same_shape fc fc' \<longleftrightarrow> dom (info fc') = dom (info fc) \<and> kids (info fc') = kids (info fc) \<and>
     par (info fc') = par (info fc) \<and> latest_votes fc' = latest_votes fc \<and> tree_root fc' = tree_root fc \<and>
     (distinct (map fst (fork_infos fc)) \<longrightarrow> distinct (map fst (fork_infos fc')))"

lemma same_shape_refl [simp]: "same_shape fc fc"
  by (simp add: same_shape_def)

lemma same_shape_trans: "same_shape fc1 fc2 \<Longrightarrow> same_shape fc2 fc3 \<Longrightarrow> same_shape fc1 fc3"
  by (simp add: same_shape_def)

lemma same_shape_put:
  assumes "info fc k = Some i" "children j = children i" "parent j = parent i"
  shows "same_shape fc (put fc k j)"
proof -
  have "dom ((info fc)(k \<mapsto> j)) = dom (info fc)" using assms(1) by auto
  then show ?thesis
    using assms kids_update [of "info fc" k i j] par_update [of "info fc" k i j]
    by (simp add: same_shape_def distinct_put)
qed

lemma processing_step:
  assumes "processing fc (x # ops)" "process_operation fc x = Some fc'"
  shows "processing fc' ops \<and> same_shape fc fc'"
proof -
  obtain k l u where x: "x = ((k, l), u)" by (metis surj_pair)
  note p = assms(1) [unfolded processing_def x]
  have lk: "links (info fc)" and bw: "best_within (info fc)"
    and desc: "descending (((k, l), u) # ops)" and cl: "closed (info fc) (keys_of (((k, l), u) # ops))"
    and st: "settled (info fc) (keys_of (((k, l), u) # ops))" using p by simp_all
  have tail: "closed (info fc) (keys_of ops)" by (rule closed_tail [OF lk desc cl])
  have m: "matches l u" and rest: "batch_ok ops" "descending ops"
    using p by (auto simp: batch_ok_def descending_Cons)
  show ?thesis
  proof (cases "info fc k")
    case None
    then have "fc' = fc" using process_operation_none assms(2) x by blast
    moreover have "settled (info fc) (keys_of ops)"
      unfolding settled_def
    proof (intro allI impI)
      fix y yi assume y: "info fc y = Some yi" "(y, L_Aggregate) \<notin> keys_of ops"
      with None have "(y, L_Aggregate) \<notin> keys_of (((k, l), u) # ops)" by auto
      with st y(1) show "agree (info fc) y yi" unfolding settled_def by blast
    qed
    ultimately show ?thesis using p rest tail by (simp add: processing_def)
  next
    case (Some i)
    from process_operation_effect [OF lk assms(2) [unfolded x] Some] obtain j where
      j: "fc' = put fc k j" "op_effect (info fc) k i u j" by blast
    note sh = op_effect_shape [OF j(2)]
    have "settled (info fc') (keys_of ops)"
      using settled_step [OF lk st cl m desc Some j(2)] j(1) by simp
    moreover have "links (info fc')" using links_update [of "info fc" k i j, OF lk Some sh] j(1) by simp
    moreover have "best_within (info fc')"
      using best_within_update [of "info fc" k i j, OF bw Some sh(1) op_effect_best [OF lk bw Some j(2)]] j(1)
      by simp
    moreover have "closed (info fc') (keys_of ops)"
      using tail kids_update [of "info fc" k i j] Some sh(1) j(1) by (simp add: closed_def)
    ultimately show ?thesis using rest same_shape_put [OF Some sh] j(1) by (simp add: processing_def)
  qed
qed

section \<open>Stake\<close>

fun added :: "update_operation option \<Rightarrow> u64" where
  "added (Some (Op_Add s)) = s"
| "added _ = 0"

fun taken :: "update_operation option \<Rightarrow> u64" where
  "taken (Some (Op_Subtract s)) = s"
| "taken _ = 0"

definition owed :: "(slot_hash_key \<times> update_label \<rightharpoonup> update_operation) \<Rightarrow> slot_hash_key \<Rightarrow> u64" where
  "owed m k = added (m (k, L_Add)) - taken (m (k, L_Subtract))"

abbreviation voted_at :: "fork_choice \<Rightarrow> slot_hash_key \<Rightarrow> u64" where
  "voted_at fc k \<equiv> stake_voted_at (the (info fc k))"

lemma voted_at_step:
  assumes "processing fc (x # ops)" "process_operation fc x = Some fc'" "y \<in> dom (info fc)"
  shows "voted_at fc' y + owed (map_of ops) y = voted_at fc y + owed (map_of (x # ops)) y"
proof -
  obtain k l u where x: "x = ((k, l), u)" by (metis surj_pair)
  have lk: "links (info fc)" and m: "matches l u"
    using assms(1) by (simp_all add: processing_def x batch_ok_def)
  have "\<forall>y\<in>set ops. fst y < (k, l)" using assms(1) by (simp add: processing_def x descending_Cons)
  then have "(k, l) \<notin> keys_of ops" by fastforce
  then have fresh: "map_of ops (k, l) = None" by (simp add: map_of_eq_None_iff)
  show ?thesis
  proof (cases "info fc k")
    case None
    then have "fc' = fc" "y \<noteq> k" using process_operation_none [OF assms(2) [unfolded x] None] assms(3) by auto
    then show ?thesis by (simp add: x owed_def)
  next
    case (Some i)
    from process_operation_effect [OF lk assms(2) [unfolded x] Some] obtain j where
      j: "fc' = put fc k j" "op_effect (info fc) k i u j" by blast
    show ?thesis
    proof (cases "y = k")
      case False
      then show ?thesis using j(1) by (simp add: x owed_def)
    next
      case True
      note simps = True m fresh j(1) Some x owed_def
      from j(2) show ?thesis by (cases; cases l) (use simps in simp_all)
    qed
  qed
qed

section \<open>A whole batch\<close>

lemma fold_opt_rule:
  assumes "I s xs" "\<And>s x xs. I s (x # xs) \<Longrightarrow> \<exists>s'. f s x = Some s' \<and> I s' xs"
  shows "\<exists>s'. fold_opt f s xs = Some s' \<and> I s' []"
  using assms(1)
proof (induction xs arbitrary: s)
  case (Cons x xs)
  from assms(2) [OF Cons.prems] obtain s' where "f s x = Some s'" "I s' xs" by blast
  with Cons.IH show ?case by simp
qed simp

definition batch :: "fork_choice \<Rightarrow> update_operations \<Rightarrow> bool" where
  "batch fc ops \<longleftrightarrow> links (info fc) \<and> best_within (info fc) \<and> batch_ok ops \<and> distinct (map fst ops) \<and>
     closed (info fc) (keys_of ops) \<and> settled (info fc) (keys_of ops)"

lemma sorted_batch:
  assumes "distinct (map fst ops)"
  defines "l \<equiv> rev (sort_key fst ops)"
  shows "descending l" "set l = set ops" "map_of l = map_of ops"
proof -
  show s: "set l = set ops" by (simp add: l_def)
  have "distinct (map fst (sort_key fst ops))"
    using assms(1) by (metis distinct_map distinct_sort set_sort)
  then have d: "distinct (map fst l)" by (simp add: l_def flip: rev_map)
  have "sorted_wrt (<) (map fst (sort_key fst ops))"
    using \<open>distinct (map fst (sort_key fst ops))\<close> strict_sorted_iff by (metis sorted_sort_key)
  then show "descending l" by (simp add: l_def descending_def sorted_wrt_rev sorted_wrt_map)
  show "map_of l = map_of ops" using map_of_inject_set [OF d assms(1)] s by simp
qed

lemma process_batch:
  assumes b: "batch fc ops" and M: "M fc (rev (sort_key fst ops))"
    and step: "\<And>fc x xs. processing fc (x # xs) \<Longrightarrow> M fc (x # xs) \<Longrightarrow>
      \<exists>fc'. process_operation fc x = Some fc' \<and> M fc' xs"
  shows "\<exists>fc'. process_update_operations fc ops = Some fc' \<and> processing fc' [] \<and> same_shape fc fc' \<and>
     (\<forall>k\<in>dom (info fc). voted_at fc' k = voted_at fc k + owed (map_of ops) k) \<and> M fc' []"
proof -
  define I where "I fc' xs \<longleftrightarrow> processing fc' xs \<and> same_shape fc fc' \<and> M fc' xs \<and>
    (\<forall>k\<in>dom (info fc). voted_at fc' k + owed (map_of xs) k = voted_at fc k + owed (map_of ops) k)"
    for fc' xs
  have "I fc (rev (sort_key fst ops))"
    using b sorted_batch [of ops] M by (simp add: I_def batch_def processing_def batch_ok_def)
  moreover have "\<exists>fc2. process_operation fc1 x = Some fc2 \<and> I fc2 xs" if "I fc1 (x # xs)" for fc1 x xs
  proof -
    from that have i: "processing fc1 (x # xs)" "same_shape fc fc1" "M fc1 (x # xs)"
      "\<And>k. k \<in> dom (info fc) \<Longrightarrow>
        voted_at fc1 k + owed (map_of (x # xs)) k = voted_at fc k + owed (map_of ops) k"
      by (auto simp: I_def)
    from step [OF i(1,3)] obtain fc2 where fc2: "process_operation fc1 x = Some fc2" "M fc2 xs" by blast
    have "voted_at fc2 k + owed (map_of xs) k = voted_at fc k + owed (map_of ops) k"
      if "k \<in> dom (info fc)" for k
      using voted_at_step [OF i(1) fc2(1), of k] i(4) [OF that] that i(2) by (simp add: same_shape_def)
    with processing_step [OF i(1) fc2(1)] same_shape_trans [OF i(2)] fc2 show ?thesis
      by (auto simp: I_def)
  qed
  ultimately have "\<exists>fc'. process_update_operations fc ops = Some fc' \<and> I fc' []"
    unfolding process_update_operations_def by (rule fold_opt_rule)
  then show ?thesis by (auto simp: I_def owed_def)
qed

section \<open>Batches without marks\<close>

definition mark_of :: "infos \<Rightarrow> slot_hash_key \<Rightarrow> (slot option \<times> bool) option" where
  "mark_of fi k = map_option (\<lambda>i. (latest_invalid_ancestor i, is_duplicate_confirmed i)) (fi k)"

definition confirmed_up :: "infos \<Rightarrow> bool" where
  "confirmed_up fi \<longleftrightarrow> (\<forall>k i. fi k = Some i \<longrightarrow> confirmed_below fi (children i) \<longrightarrow> is_duplicate_confirmed i)"

definition confirmed_valid :: "infos \<Rightarrow> bool" where
  "confirmed_valid fi \<longleftrightarrow>
     (\<forall>k i. fi k = Some i \<longrightarrow> is_duplicate_confirmed i \<longrightarrow> latest_invalid_ancestor i = None)"

lemma set_duplicate_confirmed_id:
  "is_duplicate_confirmed i \<Longrightarrow> latest_invalid_ancestor i = None \<Longrightarrow> set_duplicate_confirmed i = i"
  by (cases i) (simp add: set_duplicate_confirmed_def)

lemma mark_of_recompute:
  assumes "fi k = Some i" "confirmed_up fi" "confirmed_valid fi"
  shows "latest_invalid_ancestor (recompute fi k i) = latest_invalid_ancestor i"
    "is_duplicate_confirmed (recompute fi k i) = is_duplicate_confirmed i"
proof -
  have "(if confirmed_below fi (children i) then set_duplicate_confirmed i else i) = i"
    using assms set_duplicate_confirmed_id by (auto simp: confirmed_up_def confirmed_valid_def)
  then show "latest_invalid_ancestor (recompute fi k i) = latest_invalid_ancestor i"
    "is_duplicate_confirmed (recompute fi k i) = is_duplicate_confirmed i"
    by (simp_all add: recompute_def)
qed

lemma confirmed_below_mark:
  "confirmed_below fi cs \<longleftrightarrow> (\<exists>c\<in>set cs. is_duplicate_confirmed (the (fi c)))"
  by (simp add: confirmed_below_def list_ex_iff)

lemma same_mark_update:
  assumes "fi k = Some i" "children j = children i" "latest_invalid_ancestor j = latest_invalid_ancestor i"
    "is_duplicate_confirmed j = is_duplicate_confirmed i"
  shows "mark_of (fi(k \<mapsto> j)) = mark_of fi"
    "confirmed_up (fi(k \<mapsto> j)) = confirmed_up fi" "confirmed_valid (fi(k \<mapsto> j)) = confirmed_valid fi"
proof -
  show "mark_of (fi(k \<mapsto> j)) = mark_of fi" using assms by (auto simp: mark_of_def)
  have "confirmed_below (fi(k \<mapsto> j)) cs = confirmed_below fi cs" for cs
    unfolding confirmed_below_mark by (rule bex_cong) (use assms(1,4) in \<open>auto split: if_splits\<close>)
  then show "confirmed_up (fi(k \<mapsto> j)) = confirmed_up fi"
    using assms by (simp add: confirmed_up_def) (metis option.inject)
  show "confirmed_valid (fi(k \<mapsto> j)) = confirmed_valid fi"
    using assms by (simp add: confirmed_valid_def) (metis option.inject)
qed

lemma aggregate_slot_total:
  assumes "links (info fc)"
  shows "\<exists>fc'. aggregate_slot fc k = Some fc'"
  using aggregate_slot_eq [OF assms, of k]
  by (cases "info fc k") (simp add: aggregate_slot_def, blast)

lemma process_plain:
  assumes "batch fc ops" "\<forall>x\<in>keys_of ops. \<not> is_mark (snd x)"
    "confirmed_up (info fc)" "confirmed_valid (info fc)"
  shows "\<exists>fc'. process_update_operations fc ops = Some fc' \<and> processing fc' [] \<and> same_shape fc fc' \<and>
     (\<forall>k\<in>dom (info fc). voted_at fc' k = voted_at fc k + owed (map_of ops) k) \<and>
     mark_of (info fc') = mark_of (info fc) \<and> confirmed_valid (info fc')"
proof -
  define M where "M fc' xs \<longleftrightarrow> (\<forall>x\<in>set xs. \<not> is_mark (snd (fst x))) \<and>
    mark_of (info fc') = mark_of (info fc) \<and> confirmed_up (info fc') \<and> confirmed_valid (info fc')"
    for fc' and xs :: update_operations
  have "\<not> is_mark (snd (fst x))" if "x \<in> set ops" for x
    using assms(2) that by simp
  then have start: "M fc (rev (sort_key fst ops))" using assms by (simp add: M_def)
  have step: "\<exists>fc2. process_operation fc1 x = Some fc2 \<and> M fc2 xs"
    if p: "processing fc1 (x # xs)" and M: "M fc1 (x # xs)" for fc1 x xs
  proof -
    obtain k l u where x: "x = ((k, l), u)" by (metis surj_pair)
    have lk: "links (info fc1)" and m: "matches l u" "\<not> is_mark l"
      using p M by (simp_all add: processing_def x batch_ok_def M_def)
    then obtain fc2 where fc2: "process_operation fc1 x = Some fc2"
      using aggregate_slot_total [OF lk, of k] by (cases l) (auto simp: x)
    show ?thesis
    proof (cases "info fc1 k")
      case None
      then show ?thesis using process_operation_none [OF fc2 [unfolded x] None] M fc2 by (simp add: M_def)
    next
      case (Some i)
      from process_operation_effect [OF lk fc2 [unfolded x] Some] obtain j where
        j: "fc2 = put fc1 k j" "op_effect (info fc1) k i u j" by blast
      have up: "confirmed_up (info fc1)" "confirmed_valid (info fc1)" using M by (simp_all add: M_def)
      have same: "latest_invalid_ancestor j = latest_invalid_ancestor i"
        "is_duplicate_confirmed j = is_duplicate_confirmed i"
        using j(2) m mark_of_recompute [OF Some up] by (cases; cases l; simp)+
      from same_mark_update [of "info fc1" k i j, OF Some op_effect_shape(1) [OF j(2)] same] M j(1) fc2
      show ?thesis by (simp add: M_def)
    qed
  qed
  from process_batch [where M = M, OF assms(1) start step] show ?thesis by (auto simp: M_def)
qed

end
