(* ===== verification/Fork_Votes.thy ===== *)
theory Fork_Votes
  imports Fork_Process
begin

text \<open>
  Votes in \<^verbatim>\<open>src/core/src/consensus/heaviest_subtree_fork_choice.rs\<close>: the batch of updates made for new votes,
  the invariant of the fork choice, and that counting votes keeps it.
\<close>

section \<open>Making a batch\<close>

lemma keys_op_insert [simp]: "keys_of (op_insert x v ops) = insert x (keys_of ops)"
proof -
  have "dom (map_of (op_insert x v ops)) = insert x (dom (map_of ops))" by (simp add: update_conv')
  then show ?thesis by (simp only: dom_map_of_conv_image_fst)
qed

lemma map_of_op_insert [simp]: "map_of (op_insert x v ops) = (map_of ops)(x \<mapsto> v)"
  by (simp add: update_conv')

definition well_formed :: "update_operations \<Rightarrow> bool" where
  "well_formed ops \<longleftrightarrow> distinct (map fst ops) \<and> (\<forall>x v. map_of ops x = Some v \<longrightarrow> matches (snd x) v)"

lemma well_formed_insert: "well_formed ops \<Longrightarrow> matches (snd x) v \<Longrightarrow> well_formed (op_insert x v ops)"
  by (simp add: well_formed_def update_conv' distinct_update)

lemma well_formed_batch_ok: "well_formed ops \<Longrightarrow> batch_ok ops"
  unfolding well_formed_def batch_ok_def by (auto simp: split_paired_All)

lemma map_of_key: "(map_of ops x = None) = (x \<notin> keys_of ops)"
  by (simp add: map_of_eq_None_iff)

text \<open>An aggregation for every ancestor; the loop stops early where the rest is already there.\<close>

lemma insert_across_spec:
  assumes "distinct l" "well_formed ops"
    "sorted_wrt (\<lambda>a b. (a, L_Aggregate) \<in> keys_of ops \<longrightarrow> (b, L_Aggregate) \<in> keys_of ops) l"
  shows "well_formed (insert_across ops None l) \<and>
     keys_of (insert_across ops None l) = keys_of ops \<union> (\<lambda>a. (a, L_Aggregate)) ` set l \<and>
     (\<forall>x. snd x \<noteq> L_Aggregate \<longrightarrow> map_of (insert_across ops None l) x = map_of ops x)"
  using assms
proof (induction l arbitrary: ops)
  case (Cons p l)
  show ?case
  proof (cases "(p, L_Aggregate) \<in> keys_of ops")
    case False
    let ?ops = "op_insert (p, L_Aggregate) Op_Aggregate ops"
    have "sorted_wrt (\<lambda>a b. (a, L_Aggregate) \<in> keys_of ?ops \<longrightarrow> (b, L_Aggregate) \<in> keys_of ?ops) l"
    proof (rule sorted_wrt_mono_rel)
      show "sorted_wrt (\<lambda>a b. (a, L_Aggregate) \<in> keys_of ops \<longrightarrow> (b, L_Aggregate) \<in> keys_of ops) l"
        using Cons.prems(3) by simp
    qed (use Cons.prems(1) in \<open>auto simp del: op_insert.simps\<close>)
    moreover have "well_formed ?ops" by (rule well_formed_insert [OF Cons.prems(2)]) simp
    moreover have "distinct l" using Cons.prems(1) by simp
    ultimately have IH: "well_formed (insert_across ?ops None l) \<and>
        keys_of (insert_across ?ops None l) = keys_of ?ops \<union> (\<lambda>a. (a, L_Aggregate)) ` set l \<and>
        (\<forall>x. snd x \<noteq> L_Aggregate \<longrightarrow> map_of (insert_across ?ops None l) x = map_of ?ops x)"
      by (intro Cons.IH)
    have eq: "insert_across ops None (p # l) = insert_across ?ops None l"
      using False map_of_key [of ops] by (simp add: do_insert_aggregate_operation_def del: op_insert.simps)
    have other: "map_of ?ops x = map_of ops x" if "snd x \<noteq> L_Aggregate" for x
      using that by (auto simp del: op_insert.simps)
    show ?thesis
      using IH unfolding eq by (simp add: other insert_commute del: op_insert.simps insert_across.simps)
  next
    case True
    then have eq: "insert_across ops None (p # l) = ops"
      using map_of_key [of ops] by (simp add: do_insert_aggregate_operation_def)
    have "(\<lambda>a. (a, L_Aggregate)) ` set (p # l) \<subseteq> keys_of ops" using True Cons.prems(3) by auto
    then show ?thesis using Cons.prems(2) unfolding eq by blast
  qed
qed simp

lemma chain_distinct:
  assumes "links fi" "rooted fi r" "chain fi k l"
  shows "distinct (k # l)"
  using assms(3)
proof (induction l arbitrary: k)
  case (Cons p l)
  then have p: "par fi k = Some p" "chain fi p l" by simp_all
  have "k \<notin> set l" using chain_mem [OF assms(1,2) p(2), of k] kid_not_above [OF assms(1) rooted_parent [OF assms(2) p(1)]] by auto
  with Cons.IH [OF p(2)] rooted_parent_less [OF assms(1,2) p(1)] show ?case by auto
qed simp

text \<open>Aggregations that come with those of all ancestors.\<close>

lemma chain_all:
  assumes "chain fi p l" "P p" "\<And>a b. a \<in> set (p # l) \<Longrightarrow> P a \<Longrightarrow> par fi a = Some b \<Longrightarrow> P b"
  shows "\<forall>a\<in>set l. P a"
  using assms
proof (induction l arbitrary: p)
  case (Cons q l)
  have q: "P q" by (rule Cons.prems(3) [of p]) (use Cons.prems(1,2) in simp_all)
  have "\<forall>a\<in>set l. P a"
  proof (rule Cons.IH [of q])
    show "P b" if "a \<in> set (q # l)" "P a" "par fi a = Some b" for a b
      by (rule Cons.prems(3) [of a]) (use that in simp_all)
  qed (use q Cons.prems(1) in simp_all)
  with q show ?case by simp
qed simp

lemma chain_sorted:
  assumes "chain fi k l" "\<And>a b. a \<in> set l \<Longrightarrow> P a \<Longrightarrow> par fi a = Some b \<Longrightarrow> P b"
  shows "sorted_wrt (\<lambda>a b. P a \<longrightarrow> P b) l"
  using assms
proof (induction l arbitrary: k)
  case (Cons p l)
  then have p: "chain fi p l" by simp
  have "\<forall>a\<in>set l. P p \<longrightarrow> P a" 
  proof (intro ballI impI)
    fix a assume "a \<in> set l" "P p"
    moreover have "\<forall>a\<in>set l. P a" using p \<open>P p\<close> by (rule chain_all) (rule Cons.prems(2))
    ultimately show "P a" by blast
  qed
  moreover have "sorted_wrt (\<lambda>a b. P a \<longrightarrow> P b) l"
    by (rule Cons.IH [OF p]) (rule Cons.prems(2), simp_all)
  ultimately show ?case by simp
qed simp

text \<open>The chain of ancestors is closed under parents.\<close>

lemma chain_parent:
  assumes "links fi" "rooted fi r" "chain fi k l"
  shows "k \<in> kids fi p \<Longrightarrow> p \<in> set l" "a \<in> set l \<Longrightarrow> a \<in> kids fi p \<Longrightarrow> p \<in> set l"
proof -
  show "p \<in> set l" if "k \<in> kids fi p"
    using that links_kid(2) [OF assms(1) that] assms(3) by (cases l) auto
  show "p \<in> set l" if a: "a \<in> set l" "a \<in> kids fi p"
  proof -
    have k: "k \<in> subtree fi a" "k \<in> dom fi" using chain_mem [OF assms, of a] a(1) by simp_all
    then have "p \<noteq> k" "k \<in> subtree fi p"
      using kid_not_above [OF assms(1) a(2)] subtree_kid [OF a(2)] by auto
    with k(2) chain_mem [OF assms, of p] show ?thesis by simp
  qed
qed

lemma insert_aggregates_closed:
  assumes tree: "links (info fc)" "rooted (info fc) r"
    and ops: "well_formed ops" "closed (info fc) (keys_of ops - {(k, L)})" "L \<noteq> L_Aggregate" "\<not> is_mark L"
  shows "\<exists>ops'. insert_aggregate_operations fc ops k = Some ops' \<and> well_formed ops' \<and>
     closed (info fc) (keys_of ops') \<and>
     (\<forall>x\<in>keys_of ops'. x \<in> keys_of ops \<or> snd x = L_Aggregate) \<and>
     (\<forall>x. snd x \<noteq> L_Aggregate \<longrightarrow> map_of ops' x = map_of ops x)"
proof -
  obtain l where l: "ancestor_iterator fc k = Some l" "chain (info fc) k l"
    using ancestor_iterator_chain [OF tree] by blast
  have up: "(b, L_Aggregate) \<in> keys_of ops"
    if "(a, L_Aggregate) \<in> keys_of ops" "par (info fc) a = Some b" for a b
  proof -
    have "(a, L_Aggregate) \<in> keys_of ops - {(k, L)}" using that(1) ops(3) by auto
    with ops(2) rooted_parent [OF tree(2) that(2)] show ?thesis unfolding closed_def by blast
  qed
  have "sorted_wrt (\<lambda>a b. (a, L_Aggregate) \<in> keys_of ops \<longrightarrow> (b, L_Aggregate) \<in> keys_of ops) l"
    using l(2) by (rule chain_sorted) (rule up)
  note spec = insert_across_spec [OF _ ops(1) this]
  have d: "distinct l" using chain_distinct [OF tree l(2)] by simp
  let ?ops = "insert_across ops None l"
  have K: "keys_of ?ops = keys_of ops \<union> (\<lambda>a. (a, L_Aggregate)) ` set l" using spec [OF d] by blast
  have "closed (info fc) (keys_of ?ops)"
    unfolding closed_def
  proof (intro conjI allI impI)
    fix x lb p assume x: "(x, lb) \<in> keys_of ?ops" "x \<in> kids (info fc) p"
    consider "x = k" | "(x, lb) \<in> keys_of ops - {(k, L)}" | "x \<in> set l" using x(1) unfolding K by blast
    then show "(p, L_Aggregate) \<in> keys_of ?ops"
    proof cases
      case 1
      with chain_parent(1) [OF tree l(2), of p] x(2) show ?thesis unfolding K by blast
    next
      case 2
      with ops(2) x(2) show ?thesis unfolding closed_def K by blast
    next
      case 3
      with chain_parent(2) [OF tree l(2), of x p] x(2) show ?thesis unfolding K by blast
    qed
  next
    fix x lb assume x: "(x, lb) \<in> keys_of ?ops" "is_mark lb"
    have "lb \<noteq> L" "lb \<noteq> L_Aggregate" using x(2) ops(4) by auto
    then have "(x, lb) \<in> keys_of ops - {(k, L)}" using x(1) unfolding K by blast
    with ops(2) x(2) show "(x, L_Aggregate) \<in> keys_of ?ops" unfolding closed_def K by blast
  qed
  moreover have "insert_aggregate_operations fc ops k = Some ?ops"
    by (simp add: insert_aggregate_operations_def do_insert_aggregate_operations_across_ancestors_def l(1))
  moreover have "\<forall>x\<in>keys_of ?ops. x \<in> keys_of ops \<or> snd x = L_Aggregate" unfolding K by auto
  ultimately show ?thesis using spec [OF d] by blast
qed

definition vote_batch :: "infos \<Rightarrow> update_operations \<Rightarrow> bool" where
  "vote_batch fi ops \<longleftrightarrow> well_formed ops \<and> closed fi (keys_of ops) \<and> (\<forall>x\<in>keys_of ops. \<not> is_mark (snd x))"

lemma touch_node:
  assumes tree: "links (info fc)" "rooted (info fc) r" and ops: "vote_batch (info fc) ops"
    and L: "L = L_Add \<and> mk = Op_Add \<or> L = L_Subtract \<and> mk = Op_Subtract"
  shows "\<exists>ops'. op_add_stake (k, L) mk s ops \<bind> (\<lambda>ops. insert_aggregate_operations fc ops k) = Some ops' \<and>
     vote_batch (info fc) ops' \<and> (\<forall>y. owed (map_of ops') y =
       owed (map_of ops) y + (if y = k then (if L = L_Add then s else - s) else 0))"
proof -
  have "\<exists>t. op_add_stake (k, L) mk s ops = Some (op_insert (k, L) (mk t) ops) \<and>
      t = (if L = L_Add then added (map_of ops (k, L)) else taken (map_of ops (k, L))) + s"
  proof (cases "map_of ops (k, L)")
    case (Some v)
    then have "matches L v" using ops unfolding vote_batch_def well_formed_def by fastforce
    with Some L show ?thesis by (cases L) (auto simp: op_add_stake_def)
  qed (use L in \<open>auto simp: op_add_stake_def\<close>)
  then obtain t where t: "op_add_stake (k, L) mk s ops = Some (op_insert (k, L) (mk t) ops)"
    "t = (if L = L_Add then added (map_of ops (k, L)) else taken (map_of ops (k, L))) + s" by blast
  let ?ops = "op_insert (k, L) (mk t) ops"
  have wf: "well_formed ?ops"
    by (rule well_formed_insert) (use ops L in \<open>auto simp: vote_batch_def\<close>)
  have lb: "L \<noteq> L_Aggregate" "\<not> is_mark L" using L by auto
  have "closed (info fc) (keys_of ?ops - {(k, L)})"
    using ops lb by (auto simp: vote_batch_def closed_def simp del: op_insert.simps)
  from insert_aggregates_closed [OF tree wf this lb] obtain ops' where
    1: "insert_aggregate_operations fc ?ops k = Some ops'" "well_formed ops'" "closed (info fc) (keys_of ops')"
    and keys: "\<And>x. x \<in> keys_of ops' \<Longrightarrow> x \<in> keys_of ?ops \<or> snd x = L_Aggregate"
    and same: "\<And>x. snd x \<noteq> L_Aggregate \<Longrightarrow> map_of ops' x = map_of ?ops x" by blast
  have "\<not> is_mark (snd x)" if "x \<in> keys_of ops'" for x
    using keys [OF that] lb ops by (auto simp: vote_batch_def simp del: op_insert.simps)
  moreover have "owed (map_of ops') y = owed (map_of ops) y + (if y = k then (if L = L_Add then s else - s) else 0)" for y
    using L t(2) by (auto simp: owed_def same simp del: op_insert.simps)
  ultimately show ?thesis using t(1) 1 by (auto simp: vote_batch_def)
qed

section \<open>Who voted for a block\<close>

text \<open>The stake whose latest vote is for a block; stakes depend on the slot, through its epoch.\<close>

definition voters_stake :: "(slot \<Rightarrow> pubkey \<Rightarrow> u64) \<Rightarrow> (pubkey \<rightharpoonup> slot_hash_key) \<Rightarrow> slot_hash_key \<Rightarrow> u64" where
  "voters_stake st votes k = (\<Sum>p\<in>UNIV. if votes p = Some k then st (fst k) p else 0)"

lemma voters_stake_update:
  "voters_stake st (votes(p \<mapsto> v)) k = voters_stake st votes k -
     (if votes p = Some k then st (fst k) p else 0) + (if v = k then st (fst k) p else 0)"
proof -
  have "voters_stake st m k = (if m p = Some k then st (fst k) p else 0) +
      (\<Sum>q\<in>UNIV - {p}. if m q = Some k then st (fst k) q else 0)" for m
    unfolding voters_stake_def by (rule sum.remove) simp_all
  from this [of votes] this [of "votes(p \<mapsto> v)"] show ?thesis by simp
qed

text \<open>The vote that counts: a later slot wins, on the same slot the smaller hash.\<close>

definition newer :: "slot_hash_key \<Rightarrow> slot_hash_key \<Rightarrow> bool" where
  "newer n old \<longleftrightarrow> fst n > fst old \<or> fst n = fst old \<and> snd n < snd old"

definition counted_vote ::
  "slot_hash_key \<Rightarrow> slot_hash_key option \<Rightarrow> slot_hash_key option \<Rightarrow> slot_hash_key option" where
  "counted_vote root old v = (case v of
     None \<Rightarrow> old
   | Some n \<Rightarrow> if fst n < fst root \<or> (\<exists>o'. old = Some o' \<and> \<not> newer n o') then old else Some n)"

lemma count_vote_ok:
  fixes stakes get_epoch
  defines "st \<equiv> stake_update stakes get_epoch"
  assumes tree: "links (info fc)" "rooted (info fc) r" and ops: "vote_batch (info fc) ops"
    and new: "\<And>old. map_of (latest_votes fc) p = Some old \<Longrightarrow> newer v old"
  shows "\<exists>ops'. count_vote stakes get_epoch fc ops p v =
       Some (fc\<lparr>latest_votes := AList.update p v (latest_votes fc)\<rparr>, ops') \<and>
     vote_batch (info fc) ops' \<and>
     (\<forall>y. owed (map_of ops') y = owed (map_of ops) y +
        voters_stake st ((map_of (latest_votes fc))(p \<mapsto> v)) y - voters_stake st (map_of (latest_votes fc)) y)"
proof -
  let ?fc = "fc\<lparr>latest_votes := AList.update p v (latest_votes fc)\<rparr>"
  let ?old = "map_of (latest_votes fc) p"
  have tree': "links (info ?fc)" "rooted (info ?fc) r" using tree by simp_all
  have "\<exists>ops1. (case ?old of Some old \<Rightarrow> subtract_old_vote stakes get_epoch ?fc p v old ops | None \<Rightarrow> Some ops) =
      Some ops1 \<and> vote_batch (info fc) ops1 \<and>
      (\<forall>y. owed (map_of ops1) y = owed (map_of ops) y - (if ?old = Some y then st (fst y) p else 0))"
  proof (cases ?old)
    case (Some old)
    let ?s = "st (fst old) p"
    have guard: "if fst v = fst old then snd v < snd old else fst v > fst old"
      using new [OF Some] by (auto simp: newer_def)
    show ?thesis
    proof (cases "?s > 0")
      case True
      from touch_node [OF tree', of ops L_Subtract Op_Subtract old ?s] ops obtain ops1 where
        "op_add_stake (old, L_Subtract) Op_Subtract ?s ops \<bind>
          (\<lambda>ops. insert_aggregate_operations ?fc ops old) = Some ops1" "vote_batch (info fc) ops1"
        "\<And>y. owed (map_of ops1) y = owed (map_of ops) y + (if y = old then - ?s else 0)" by auto
      with Some guard True show ?thesis
        by (intro exI [of _ ops1]) (auto simp: subtract_old_vote_def st_def)
    next
      case False
      then have "?s = 0" by (simp add: word_gt_0_no [symmetric] word_neq_0_conv [symmetric])
      with Some guard ops show ?thesis
        by (intro exI [of _ ops]) (auto simp: subtract_old_vote_def st_def)
    qed
  qed (use ops in simp)
  then obtain ops1 where 1: "(case ?old of Some old \<Rightarrow> subtract_old_vote stakes get_epoch ?fc p v old ops
        | None \<Rightarrow> Some ops) = Some ops1" "vote_batch (info fc) ops1"
    "\<And>y. owed (map_of ops1) y = owed (map_of ops) y - (if ?old = Some y then st (fst y) p else 0)" by blast
  from touch_node [OF tree', of ops1 L_Add Op_Add v "st (fst v) p"] 1(2) obtain ops2 where
    2: "op_add_stake (v, L_Add) Op_Add (st (fst v) p) ops1 \<bind>
      (\<lambda>ops. insert_aggregate_operations ?fc ops v) = Some ops2" "vote_batch (info fc) ops2"
    "\<And>y. owed (map_of ops2) y = owed (map_of ops1) y + (if y = v then st (fst v) p else 0)" by auto
  have "count_vote stakes get_epoch fc ops p v = Some (?fc, ops2)"
    using 1(1) 2(1) by (simp add: count_vote_def Let_def st_def bind_eq_Some_conv)
  moreover have "owed (map_of ops2) y = owed (map_of ops) y +
        voters_stake st ((map_of (latest_votes fc))(p \<mapsto> v)) y - voters_stake st (map_of (latest_votes fc)) y" for y
    by (simp add: 1(3) 2(3) voters_stake_update)
  ultimately show ?thesis using 2(2) by blast
qed

text \<open>What the batch for a list of votes owes, and the votes that count afterwards.\<close>

definition generated ::
  "(slot \<Rightarrow> pubkey \<Rightarrow> u64) \<Rightarrow> fork_choice \<Rightarrow> (pubkey \<times> slot_hash_key) list \<Rightarrow>
   fork_choice \<times> update_operations \<times> (pubkey \<times> slot) list \<Rightarrow> bool" where
  "generated st fc done s \<longleftrightarrow> (case s of (fc', ops, observed) \<Rightarrow>
     fork_infos fc' = fork_infos fc \<and> tree_root fc' = tree_root fc \<and>
     (distinct (map fst (latest_votes fc)) \<longrightarrow> distinct (map fst (latest_votes fc'))) \<and>
     vote_batch (info fc) ops \<and> dom (map_of observed) \<subseteq> dom (map_of done) \<and>
     (\<forall>p. map_of (latest_votes fc') p =
        counted_vote (tree_root fc) (map_of (latest_votes fc) p) (map_of done p)) \<and>
     (\<forall>y. owed (map_of ops) y = voters_stake st (map_of (latest_votes fc')) y -
        voters_stake st (map_of (latest_votes fc)) y))"

lemma counted_vote_fresh:
  "counted_vote root old (Some v) = (if fst v < fst root then old
     else case old of None \<Rightarrow> Some v | Some o' \<Rightarrow> if newer v o' then Some v else old)"
  by (auto simp: counted_vote_def split: option.splits)

lemma not_newer:
  "(fst v < fst o' \<or> fst v = fst o' \<and> snd o' \<le> snd v) \<longleftrightarrow> \<not> newer v o'"
  by (auto simp: newer_def)

lemma generate_for_vote_ok:
  fixes stakes get_epoch
  defines "st \<equiv> stake_update stakes get_epoch"
  assumes tree: "links (info fc)" "rooted (info fc) r"
    and g: "generated st fc done s" and p: "map_of done p = None"
  shows "\<exists>s'. generate_for_vote stakes get_epoch s (p, v) = Some s' \<and> generated st fc ((p, v) # done) s'"
proof -
  obtain fc1 ops obs where s: "s = (fc1, ops, obs)" by (cases s) auto
  from g have same: "fork_infos fc1 = fork_infos fc" "tree_root fc1 = tree_root fc"
    and dist: "distinct (map fst (latest_votes fc)) \<longrightarrow> distinct (map fst (latest_votes fc1))"
    and vb: "vote_batch (info fc) ops" and dobs: "dom (map_of obs) \<subseteq> dom (map_of done)"
    and lv: "\<And>q. map_of (latest_votes fc1) q =
        counted_vote (tree_root fc) (map_of (latest_votes fc) q) (map_of done q)"
    and ow: "\<And>y. owed (map_of ops) y = voters_stake st (map_of (latest_votes fc1)) y -
        voters_stake st (map_of (latest_votes fc)) y"
    unfolding generated_def s prod.case by blast+
  have old: "map_of (latest_votes fc1) p = map_of (latest_votes fc) p"
    using lv [of p] p by (simp add: counted_vote_def)
  have obs: "map_of obs p = None" using dobs p by (auto simp: dom_def)
  define skip where "skip \<longleftrightarrow> fst v < fst (tree_root fc) \<or>
    (\<exists>o'. map_of (latest_votes fc) p = Some o' \<and> \<not> newer v o')"
  have skip_rest: "counted_vote (tree_root fc) (map_of (latest_votes fc) q) (map_of ((p, v) # done) q) =
      (if q = p then (if skip then map_of (latest_votes fc) p else Some v)
       else counted_vote (tree_root fc) (map_of (latest_votes fc) q) (map_of done q))" for q
    by (cases "q = p") (auto simp: counted_vote_def skip_def)
  have guard: "(case map_of (latest_votes fc) p of
      Some latest \<Rightarrow> fst v < fst latest \<or> (fst v = fst latest \<and> snd v \<ge> snd latest) | None \<Rightarrow> False) \<longleftrightarrow>
      (\<exists>o'. map_of (latest_votes fc) p = Some o' \<and> \<not> newer v o')"
    by (simp add: not_newer split: option.split)
  show ?thesis
  proof (cases skip)
    case True
    have "\<exists>obs'. generate_for_vote stakes get_epoch s (p, v) = Some (fc1, ops, obs') \<and>
        dom (map_of obs') \<subseteq> insert p (dom (map_of obs))"
    proof (cases "fst v < fst (tree_root fc)")
      case True
      then show ?thesis by (simp add: generate_for_vote_def s same subset_insertI)
    next
      case False
      with True have "\<exists>o'. map_of (latest_votes fc) p = Some o' \<and> \<not> newer v o'" by (simp add: skip_def)
      with False obs show ?thesis
        by (simp add: generate_for_vote_def s same old guard Let_def update_conv')
    qed
    then obtain obs' where 1: "generate_for_vote stakes get_epoch s (p, v) = Some (fc1, ops, obs')"
      "dom (map_of obs') \<subseteq> insert p (dom (map_of obs))" by blast
    have "generated st fc ((p, v) # done) (fc1, ops, obs')"
      unfolding generated_def prod.case skip_rest
    proof (intro conjI allI)
      show "dom (map_of obs') \<subseteq> dom (map_of ((p, v) # done))" using 1(2) dobs by auto
      show "map_of (latest_votes fc1) q = (if q = p then if skip then map_of (latest_votes fc) p else Some v
          else counted_vote (tree_root fc) (map_of (latest_votes fc) q) (map_of done q))" for q
        using True old lv [of q] by (cases "q = p") simp_all
    qed (use same dist vb ow in simp_all)
    with 1(1) show ?thesis by blast
  next
    case False
    have new: "newer v o'" if "map_of (latest_votes fc1) p = Some o'" for o'
      using that False old by (simp add: skip_def)
    have tree1: "links (info fc1)" "rooted (info fc1) r" "vote_batch (info fc1) ops"
      using tree vb same by simp_all
    from count_vote_ok [where stakes = stakes and get_epoch = get_epoch and p = p and v = v, OF tree1 new] obtain ops' where
      1: "count_vote stakes get_epoch fc1 ops p v =
        Some (fc1\<lparr>latest_votes := AList.update p v (latest_votes fc1)\<rparr>, ops')" "vote_batch (info fc) ops'"
      "\<And>y. owed (map_of ops') y = owed (map_of ops) y +
        voters_stake st ((map_of (latest_votes fc1))(p \<mapsto> v)) y - voters_stake st (map_of (latest_votes fc1)) y"
      unfolding st_def same by blast
    let ?fc = "fc1\<lparr>latest_votes := AList.update p v (latest_votes fc1)\<rparr>"
    let ?s = "(?fc, ops', AList.update p (fst v) obs)"
    have "generate_for_vote stakes get_epoch s (p, v) = Some ?s"
    proof -
      have "\<not> (\<exists>o'. map_of (latest_votes fc) p = Some o' \<and> \<not> newer v o')" "\<not> fst v < fst (tree_root fc)"
        using False by (simp_all add: skip_def)
      then show ?thesis using obs 1(1) by (simp only: generate_for_vote_def s same old guard Let_def
            prod.case if_False not_False_eq_True simp_thms Option.bind.bind_lunit)
    qed
    moreover have "generated st fc ((p, v) # done) ?s"
      unfolding generated_def prod.case skip_rest
    proof (intro conjI allI)
      show "dom (map_of (AList.update p (fst v) obs)) \<subseteq> dom (map_of ((p, v) # done))"
        using dobs by (auto simp: update_conv')
      show "map_of (latest_votes ?fc) q = (if q = p then if skip then map_of (latest_votes fc) p else Some v
          else counted_vote (tree_root fc) (map_of (latest_votes fc) q) (map_of done q))" for q
        using False by (simp add: update_conv' lv [of q])
    qed (use same dist 1(2,3) ow in \<open>simp_all add: update_conv' distinct_update\<close>)
    ultimately show ?thesis by blast
  qed
qed

lemma generate_ok:
  fixes stakes get_epoch
  defines "st \<equiv> stake_update stakes get_epoch"
  assumes tree: "links (info fc)" "rooted (info fc) r" and votes: "distinct (map fst votes)"
  shows "\<exists>fc' ops. generate_update_operations stakes get_epoch fc votes = Some (fc', ops) \<and>
     fork_infos fc' = fork_infos fc \<and> tree_root fc' = tree_root fc \<and>
     (distinct (map fst (latest_votes fc)) \<longrightarrow> distinct (map fst (latest_votes fc'))) \<and>
     vote_batch (info fc) ops \<and>
     (\<forall>p. map_of (latest_votes fc') p =
        counted_vote (tree_root fc) (map_of (latest_votes fc) p) (map_of votes p)) \<and>
     (\<forall>y. owed (map_of ops) y = voters_stake st (map_of (latest_votes fc')) y -
        voters_stake st (map_of (latest_votes fc)) y)"
proof -
  define I where "I s xs \<longleftrightarrow> (\<exists>done. votes = rev done @ xs \<and> generated st fc done s)" for s xs
  have "I (fc, [], []) votes"
    unfolding I_def by (rule exI [of _ "[]"])
      (simp add: generated_def vote_batch_def well_formed_def closed_def counted_vote_def owed_def)
  moreover have "\<exists>s'. generate_for_vote stakes get_epoch s x = Some s' \<and> I s' xs" if I: "I s (x # xs)" for s x xs
  proof -
    obtain p v where x: "x = (p, v)" by (cases x)
    from I obtain dn where dn: "votes = rev dn @ x # xs" "generated st fc dn s" by (auto simp: I_def)
    have "map_of dn p = None" using votes by (auto simp: dn(1) x map_of_eq_None_iff)
    from generate_for_vote_ok [OF tree dn(2) [unfolded st_def] this, of v] obtain s' where
      "generate_for_vote stakes get_epoch s x = Some s'" "generated st fc (x # dn) s'"
      unfolding x st_def by blast
    moreover have "votes = rev (x # dn) @ xs" by (simp add: dn(1))
    ultimately show ?thesis unfolding I_def by blast
  qed
  ultimately have "\<exists>s. fold_opt (generate_for_vote stakes get_epoch) (fc, [], []) votes = Some s \<and> I s []"
    by (rule fold_opt_rule)
  then obtain fc' ops obs dn where f: "fold_opt (generate_for_vote stakes get_epoch) (fc, [], []) votes =
      Some (fc', ops, obs)" "votes = rev dn" "generated st fc dn (fc', ops, obs)" by (auto simp: I_def)
  have "map_of votes = map_of dn"
    using map_of_inject_set [of votes dn] votes f(2) by (simp flip: rev_map)
  with f show ?thesis by (simp add: generate_update_operations_def generated_def)
qed

section \<open>The invariant\<close>

fun slot_le :: "slot option \<Rightarrow> slot option \<Rightarrow> bool" where
  "slot_le None b = True"
| "slot_le (Some a) None = False"
| "slot_le (Some a) (Some b) = (a \<le> b)"

text \<open>
  A confirmed node is valid. The invalid ancestor of a node is at most its slot, and only grows downwards, so
  that everything below an invalid node is invalid.
\<close>

definition marks_ok :: "infos \<Rightarrow> bool" where
  "marks_ok fi \<longleftrightarrow> confirmed_valid fi \<and>
     (\<forall>k i s. fi k = Some i \<longrightarrow> latest_invalid_ancestor i = Some s \<longrightarrow> s \<le> fst k) \<and>
     (\<forall>k c. c \<in> kids fi k \<longrightarrow>
        slot_le (latest_invalid_ancestor (the (fi k))) (latest_invalid_ancestor (the (fi c))))"

definition tree_ok :: "fork_choice \<Rightarrow> bool" where
  "tree_ok fc \<longleftrightarrow> links (info fc) \<and> rooted (info fc) (tree_root fc) \<and> settled (info fc) {} \<and>
     best_within (info fc) \<and> marks_ok (info fc) \<and> distinct (map fst (fork_infos fc))"

definition votes_ok :: "(slot \<Rightarrow> pubkey \<Rightarrow> u64) \<Rightarrow> fork_choice \<Rightarrow> bool" where
  "votes_ok st fc \<longleftrightarrow> distinct (map fst (latest_votes fc)) \<and>
     (\<forall>k\<in>dom (info fc). voted_at fc k = voters_stake st (map_of (latest_votes fc)) k)"

definition fc_ok :: "(slot \<Rightarrow> pubkey \<Rightarrow> u64) \<Rightarrow> fork_choice \<Rightarrow> bool" where
  "fc_ok st fc \<longleftrightarrow> tree_ok fc \<and> votes_ok st fc"

lemma tree_okD:
  assumes "tree_ok fc"
  shows "links (info fc)" "rooted (info fc) (tree_root fc)" "settled (info fc) {}"
    "best_within (info fc)" "marks_ok (info fc)" "distinct (map fst (fork_infos fc))"
  using assms by (simp_all add: tree_ok_def)

lemma settled_agree: "settled fi {} \<Longrightarrow> fi k = Some i \<Longrightarrow> agree fi k i"
  by (simp add: settled_def)

lemma settled_confirmed_up: "settled fi {} \<Longrightarrow> confirmed_up fi"
  by (simp add: confirmed_up_def settled_def agree_def)

lemma mark_of_eq_fields:
  assumes "mark_of fi = mark_of fi'" "fi k = Some i" "fi' k = Some j"
  shows "latest_invalid_ancestor i = latest_invalid_ancestor j"
    "is_duplicate_confirmed i = is_duplicate_confirmed j"
  using fun_cong [OF assms(1), of k] assms(2,3) by (simp_all add: mark_of_def)

lemma mark_of_dom:
  assumes "mark_of fi = mark_of fi'"
  shows "dom fi = dom fi'"
proof (rule set_eqI)
  fix k
  have "k \<in> dom f \<longleftrightarrow> mark_of f k \<noteq> None" for f by (simp add: mark_of_def domIff)
  with assms show "k \<in> dom fi \<longleftrightarrow> k \<in> dom fi'" by simp
qed

text \<open>The marks of a tree depend on the marks of its nodes and on the links alone.\<close>

lemma marks_ok_cong:
  assumes "marks_ok fi" "mark_of fi' = mark_of fi" "kids fi' = kids fi" "links fi"
  shows "marks_ok fi'"
proof -
  have ex: "\<exists>j. fi k = Some j \<and> latest_invalid_ancestor i = latest_invalid_ancestor j \<and>
      is_duplicate_confirmed i = is_duplicate_confirmed j" if "fi' k = Some i" for k i
  proof -
    from that mark_of_dom [OF assms(2)] obtain j where "fi k = Some j" by auto
    with mark_of_eq_fields [OF assms(2) that] show ?thesis by blast
  qed
  show ?thesis
    unfolding marks_ok_def confirmed_valid_def
  proof (intro conjI allI impI)
    fix k c assume c: "c \<in> kids fi' k"
    then have c': "c \<in> kids fi k" using assms(3) by simp
    have "k \<in> dom fi'" "c \<in> dom fi'"
      using links_kid(3,4) [OF assms(4) c'] mark_of_dom [OF assms(2)] by simp_all
    then obtain i j where ij: "fi' k = Some i" "fi' c = Some j" by blast
    from ex [OF ij(1)] ex [OF ij(2)] assms(1) c' ij
    show "slot_le (latest_invalid_ancestor (the (fi' k))) (latest_invalid_ancestor (the (fi' c)))"
      unfolding marks_ok_def by fastforce
  qed (use ex assms(1) in \<open>fastforce simp: marks_ok_def confirmed_valid_def\<close>)+
qed

text \<open>After a batch without marks the tree is as it was, up to what was aggregated.\<close>

lemma process_plain_tree:
  assumes t: "links (info fc)" "best_within (info fc)" "confirmed_up (info fc)" "marks_ok (info fc)"
    and b: "vote_batch (info fc) ops" "settled (info fc) (keys_of ops)"
  shows "\<exists>fc'. process_update_operations fc ops = Some fc' \<and> same_shape fc fc' \<and> links (info fc') \<and>
     settled (info fc') {} \<and> best_within (info fc') \<and> marks_ok (info fc') \<and>
     mark_of (info fc') = mark_of (info fc) \<and>
     (\<forall>k\<in>dom (info fc). voted_at fc' k = voted_at fc k + owed (map_of ops) k)"
proof -
  have batch: "batch fc ops"
    using assms well_formed_batch_ok by (auto simp: batch_def vote_batch_def well_formed_def)
  have nomark: "\<forall>x\<in>keys_of ops. \<not> is_mark (snd x)" using b(1) unfolding vote_batch_def by blast
  have "confirmed_valid (info fc)" using t(4) by (simp add: marks_ok_def)
  from process_plain [OF batch nomark t(3) this] obtain fc' where p: "process_update_operations fc ops = Some fc'"
    "processing fc' []" "same_shape fc fc'" "mark_of (info fc') = mark_of (info fc)"
    "\<forall>k\<in>dom (info fc). voted_at fc' k = voted_at fc k + owed (map_of ops) k" by blast
  have "marks_ok (info fc')"
    by (rule marks_ok_cong [OF t(4) p(4) _ t(1)]) (use p(3) in \<open>simp add: same_shape_def\<close>)
  with p show ?thesis by (auto simp: processing_def)
qed

lemma rooted_same_shape: "rooted (info fc) r \<Longrightarrow> same_shape fc fc' \<Longrightarrow> rooted (info fc') r"
  by (simp add: rooted_def same_shape_def)

lemma add_votes_ok:
  fixes stakes get_epoch
  defines "st \<equiv> stake_update stakes get_epoch"
  assumes ok: "fc_ok st fc" and votes: "distinct (map fst votes)"
  shows "\<exists>fc' best. add_votes stakes get_epoch fc votes = Some (fc', best) \<and> fc_ok st fc' \<and>
     best_overall_slot fc' = Some best \<and> tree_root fc' = tree_root fc \<and>
     dom (info fc') = dom (info fc) \<and> kids (info fc') = kids (info fc) \<and>
     mark_of (info fc') = mark_of (info fc) \<and>
     (\<forall>p. map_of (latest_votes fc') p =
        counted_vote (tree_root fc) (map_of (latest_votes fc) p) (map_of votes p))"
proof -
  have t: "tree_ok fc" and v: "votes_ok st fc" using ok by (simp_all add: fc_ok_def)
  note tr = tree_okD [OF t]
  from generate_ok [OF tr(1,2) votes, of stakes get_epoch] obtain fc1 ops where
    g: "generate_update_operations stakes get_epoch fc votes = Some (fc1, ops)"
    "fork_infos fc1 = fork_infos fc" "tree_root fc1 = tree_root fc"
    "distinct (map fst (latest_votes fc)) \<longrightarrow> distinct (map fst (latest_votes fc1))"
    "vote_batch (info fc) ops"
    "\<And>p. map_of (latest_votes fc1) p =
        counted_vote (tree_root fc) (map_of (latest_votes fc) p) (map_of votes p)"
    "\<And>y. owed (map_of ops) y = voters_stake st (map_of (latest_votes fc1)) y -
        voters_stake st (map_of (latest_votes fc)) y" unfolding st_def by blast
  have tr1: "links (info fc1)" "best_within (info fc1)" "confirmed_up (info fc1)" "marks_ok (info fc1)"
    "vote_batch (info fc1) ops" "settled (info fc1) (keys_of ops)"
    using tr g(2,5) settled_confirmed_up [OF tr(3)] by (simp_all add: settled_def)
  from process_plain_tree [OF tr1] obtain fc' where p: "process_update_operations fc1 ops = Some fc'"
    "same_shape fc1 fc'" "links (info fc')" "settled (info fc') {}" "best_within (info fc')"
    "marks_ok (info fc')" "mark_of (info fc') = mark_of (info fc1)"
    "\<And>k. k \<in> dom (info fc1) \<Longrightarrow> voted_at fc' k = voted_at fc1 k + owed (map_of ops) k" by blast
  have same: "dom (info fc') = dom (info fc)" "kids (info fc') = kids (info fc)"
    "tree_root fc' = tree_root fc" "latest_votes fc' = latest_votes fc1"
    using p(2) g(2,3) by (simp_all add: same_shape_def)
  have "rooted (info fc') (tree_root fc')"
    by (rule rooted_same_shape [OF _ p(2)]) (use tr(2) g(2) same(3) in simp)
  with p g(2) tr(6) have "tree_ok fc'" by (simp add: tree_ok_def same_shape_def)
  moreover have "votes_ok st fc'"
    using v g(2,4,7) p(8) same by (auto simp: votes_ok_def)
  moreover obtain i where "info fc' (tree_root fc') = Some i"
    using rooted_root(1) [OF \<open>rooted (info fc') (tree_root fc')\<close>] by blast
  then have "best_overall_slot fc' = Some (best_slot i)"
    by (simp add: best_overall_slot_def get_best_slot_def)
  ultimately show ?thesis
    using g(1,2,6) p(1,7) same by (auto simp: add_votes_def fc_ok_def)
qed

end
