(* ===== verification/Thread_Sets.thy ===== *)
theory Thread_Sets
  imports Prelude
begin

unbundle bit_operations_syntax

text \<open>
  The bit set of worker threads, \<^verbatim>\<open>ThreadSet\<close> of
  \<^verbatim>\<open>src/core/src/banking_stage/transaction_scheduler/thread_aware_account_locks.rs\<close>: one bit
  per thread in a \<^verbatim>\<open>u64\<close>. Every operation is related to the set of threads it stands for,
  \<open>members\<close>, and the iterator that clears the lowest set bit is shown to visit exactly these
  threads in increasing order.
\<close>

section \<open>Operations\<close>

type_synonym thread_id = nat
type_synonym thread_set = u64

abbreviation MAX_THREADS :: nat where
  "MAX_THREADS \<equiv> 64"

text \<open>The standard library's \<^verbatim>\<open>count_ones\<close> and \<^verbatim>\<open>trailing_zeros\<close> on \<^verbatim>\<open>u64\<close>.\<close>

definition count_ones :: "u64 \<Rightarrow> nat" where
  "count_ones w = length (filter (bit w) [0..<64])"

definition trailing_zeros :: "u64 \<Rightarrow> nat" where
  "trailing_zeros w = (case filter (bit w) [0..<64] of [] \<Rightarrow> 64 | i # _ \<Rightarrow> i)"

text \<open>A shift masks its distance to the width of the operand.\<close>

definition as_flag :: "thread_id \<Rightarrow> u64" where
  "as_flag t = push_bit (t mod 64) 1"

definition ts_none :: thread_set where
  "ts_none = 0"

definition ts_any :: "nat \<Rightarrow> thread_set" where
  "ts_any n = (if n = MAX_THREADS then - 1 else as_flag n - 1)"

definition ts_only :: "thread_id \<Rightarrow> thread_set" where
  "ts_only t = as_flag t"

definition ts_num_threads :: "thread_set \<Rightarrow> nat" where
  "ts_num_threads s = count_ones s"

definition only_one_contained :: "thread_set \<Rightarrow> thread_id option" where
  "only_one_contained s = (if ts_num_threads s = 1 then Some (trailing_zeros s) else None)"

definition ts_is_empty :: "thread_set \<Rightarrow> bool" where
  "ts_is_empty s \<longleftrightarrow> s = ts_none"

definition ts_contains :: "thread_set \<Rightarrow> thread_id \<Rightarrow> bool" where
  "ts_contains s t \<longleftrightarrow> s AND as_flag t \<noteq> 0"

definition ts_insert :: "thread_set \<Rightarrow> thread_id \<Rightarrow> thread_set" where
  "ts_insert s t = s OR as_flag t"

definition ts_remove :: "thread_set \<Rightarrow> thread_id \<Rightarrow> thread_set" where
  "ts_remove s t = s AND NOT (as_flag t)"

definition ts_bitand :: "thread_set \<Rightarrow> thread_set \<Rightarrow> thread_set" where
  "ts_bitand a b = a AND b"

definition ts_sub :: "thread_set \<Rightarrow> thread_set \<Rightarrow> thread_set" where
  "ts_sub a b = a AND NOT b"

text \<open>One call of \<^verbatim>\<open>ThreadSetIterator::next\<close>, and the list a full iteration yields.\<close>

definition iter_next :: "u64 \<Rightarrow> (thread_id \<times> u64) option" where
  "iter_next w = (if w = 0 then None else Some (trailing_zeros w, w AND (w - 1)))"

function contained_threads_iter :: "thread_set \<Rightarrow> thread_id list" where
  "contained_threads_iter s =
     (case iter_next s of None \<Rightarrow> [] | Some (t, s') \<Rightarrow> t # contained_threads_iter s')"
  by pat_completeness auto
termination
proof (relation "measure unat")
  fix s :: thread_set and x t s'
  assume "iter_next s = Some x" "(t, s') = x"
  then have s: "s \<noteq> 0" and s': "s' = s AND (s - 1)"
    by (auto simp: iter_next_def split: if_splits)
  have "s' \<le> s - 1"
    unfolding s' by (rule word_and_le1)
  also have "s - 1 < s"
    using s by (simp add: word_less_nat_alt unat_minus_one unat_gt_0)
  finally show "(s', s) \<in> measure unat"
    by (simp add: word_less_nat_alt)
qed simp

declare contained_threads_iter.simps [simp del]

section \<open>The set of threads a bit set stands for\<close>

definition members :: "thread_set \<Rightarrow> thread_id set" where
  "members s = {t. bit s t}"

lemma members_lt: "t \<in> members s \<Longrightarrow> t < 64"
  by (auto simp: members_def dest: bit_imp_le_length)

lemma members_eqI: "members a = members b \<Longrightarrow> a = b"
  by (auto simp: members_def bit_eq_iff)

lemma members_eq_iff: "a = b \<longleftrightarrow> members a = members b"
  by (auto intro: members_eqI)

lemma bit_as_flag: "bit (as_flag t) i \<longleftrightarrow> i = t mod 64"
  by (auto simp: as_flag_def bit_exp_iff)

named_theorems ts_sets \<open>thread-set operations as operations on sets\<close>

lemma members_none [ts_sets]: "members ts_none = {}"
  by (simp add: members_def ts_none_def)

lemma members_only [ts_sets]: "t < 64 \<Longrightarrow> members (ts_only t) = {t}"
  by (auto simp: members_def ts_only_def bit_as_flag)

lemma members_any [ts_sets]: "n \<le> 64 \<Longrightarrow> members (ts_any n) = {..<n}"
proof (cases "n = 64")
  case True
  then show ?thesis by (auto simp: members_def ts_any_def bit_minus_1_iff)
next
  case False
  assume "n \<le> 64"
  with False have n: "n < 64" by simp
  then have "ts_any n = mask n"
    by (simp add: ts_any_def as_flag_def mask_eq_exp_minus_1 push_bit_eq_mult)
  with n show ?thesis by (auto simp: members_def bit_mask_iff)
qed

lemma members_bitand [ts_sets]: "members (ts_bitand a b) = members a \<inter> members b"
  by (auto simp: members_def ts_bitand_def bit_and_iff)

lemma members_sub [ts_sets]: "members (ts_sub a b) = members a - members b"
  by (auto simp: members_def ts_sub_def bit_and_iff bit_not_iff dest: bit_imp_le_length)

lemma members_insert [ts_sets]: "t < 64 \<Longrightarrow> members (ts_insert s t) = insert t (members s)"
  by (auto simp: members_def ts_insert_def bit_or_iff bit_as_flag)

lemma members_remove [ts_sets]: "t < 64 \<Longrightarrow> members (ts_remove s t) = members s - {t}"
  by (auto simp: members_def ts_remove_def bit_and_iff bit_not_iff bit_as_flag
      dest: bit_imp_le_length)

lemma is_empty_iff [ts_sets]: "ts_is_empty s \<longleftrightarrow> members s = {}"
  by (simp add: ts_is_empty_def members_eq_iff members_none)

lemma contains_iff [ts_sets]: "t < 64 \<Longrightarrow> ts_contains s t \<longleftrightarrow> t \<in> members s"
proof -
  assume t: "t < 64"
  have "ts_contains s t \<longleftrightarrow> members (ts_bitand s (ts_only t)) \<noteq> {}"
    by (simp add: ts_contains_def ts_bitand_def ts_only_def members_none [symmetric]
        members_eq_iff [symmetric] ts_none_def)
  with t show ?thesis by (auto simp: members_bitand members_only)
qed

section \<open>Counting and the lowest thread\<close>

abbreviation thread_list :: "thread_set \<Rightarrow> thread_id list" where
  "thread_list s \<equiv> filter (bit s) [0..<64]"

lemma set_thread_list: "set (thread_list s) = members s"
  by (auto simp: members_def dest: bit_imp_le_length)

lemma num_threads_card [ts_sets]: "ts_num_threads s = card (members s)"
proof -
  have "card (set (thread_list s)) = length (thread_list s)"
    by (rule distinct_card) simp
  then show ?thesis
    by (simp only: ts_num_threads_def count_ones_def set_thread_list)
qed

lemma trailing_zeros_props:
  assumes "s \<noteq> 0"
  shows "trailing_zeros s \<in> members s" and "t \<in> members s \<Longrightarrow> trailing_zeros s \<le> t"
proof -
  from assms have "members s \<noteq> {}"
    by (simp add: members_eq_iff members_none [symmetric] ts_none_def)
  then obtain i rest where l: "thread_list s = i # rest"
    by (metis list.exhaust set_empty set_thread_list)
  then have tz: "trailing_zeros s = i"
    by (simp add: trailing_zeros_def)
  have "sorted (thread_list s)" by (simp add: sorted_wrt_filter)
  then have i: "i \<in> members s \<and> (\<forall>t \<in> members s. i \<le> t)"
    by (simp only: l set_thread_list [symmetric]) auto
  show "trailing_zeros s \<in> members s" using i tz by blast
  show "trailing_zeros s \<le> t" if "t \<in> members s" using i tz that by blast
qed

lemma only_one_contained_iff [ts_sets]: "only_one_contained s = Some t \<longleftrightarrow> members s = {t}"
proof
  assume *: "only_one_contained s = Some t"
  then have card: "card (members s) = 1" and t: "t = trailing_zeros s"
    by (auto simp: only_one_contained_def num_threads_card split: if_splits)
  then have "s \<noteq> 0" by (auto simp: members_def)
  then have "t \<in> members s" using t trailing_zeros_props(1) by blast
  with card show "members s = {t}" by (metis card_1_singletonE singletonD)
next
  assume *: "members s = {t}"
  then have "s \<noteq> 0" by (auto simp: members_def)
  then have "trailing_zeros s \<in> members s" by (rule trailing_zeros_props(1))
  with * show "only_one_contained s = Some t"
    by (simp add: only_one_contained_def num_threads_card)
qed

section \<open>The iterator\<close>

text \<open>Subtracting one flips the bits up to the lowest set one, so the conjunction clears it.\<close>

lemma bit_clear_lowest:
  fixes w :: "'a::len word"
  assumes k: "bit w k" and low: "\<And>j. j < k \<Longrightarrow> \<not> bit w j"
  shows "bit (w AND (w - 1)) i \<longleftrightarrow> bit w i \<and> i \<noteq> k"
proof -
  define h where "h = push_bit (Suc k) (drop_bit (Suc k) w)"
  have len: "k < LENGTH('a)" using k by (rule bit_imp_le_length)
  have lowpart: "take_bit (Suc k) w = 2 ^ k"
  proof (rule bit_eqI)
    fix n
    assume "possible_bit TYPE('a word) n"
    then show "bit (take_bit (Suc k) w) n \<longleftrightarrow> bit (2 ^ k :: 'a word) n"
      using k low len by (cases n k rule: linorder_cases) (auto simp: bit_take_bit_iff bit_exp_iff)
  qed
  have w: "w = h + 2 ^ k"
    using bits_ident [of "Suc k" w] by (simp add: h_def lowpart)
  then have "w - 1 = h + mask k"
    by (simp add: mask_eq_exp_minus_1)
  also have "\<dots> = h OR mask k"
    by (rule disjunctive_add_eq_or)
      (rule bit_eqI, simp add: bit_and_iff h_def bit_push_bit_iff bit_mask_iff)
  finally have m: "w - 1 = h OR mask k" .
  have h: "bit h j \<longleftrightarrow> bit w j \<and> k < j" for j
    using bit_imp_le_length [of w j]
    by (auto simp: h_def bit_push_bit_iff bit_drop_bit_eq Suc_le_eq simp del: push_bit_Suc)
  show ?thesis
    using low [of i] k len
    by (cases i k rule: linorder_cases) (auto simp: m h bit_and_iff bit_or_iff bit_mask_iff)
qed

lemma iter_next_members:
  assumes "iter_next s = Some (t, s')"
  shows "members s' = members s - {t}" and "t \<in> members s" and "\<forall>u \<in> members s. t \<le> u"
proof -
  from assms have s: "s \<noteq> 0" and t: "t = trailing_zeros s" and s': "s' = s AND (s - 1)"
    by (auto simp: iter_next_def split: if_splits)
  show tm: "t \<in> members s" using s t trailing_zeros_props(1) by blast
  show le: "\<forall>u \<in> members s. t \<le> u" using s t trailing_zeros_props(2) by blast
  have "bit s' i \<longleftrightarrow> bit s i \<and> i \<noteq> t" for i
    unfolding s' by (rule bit_clear_lowest) (use tm le in \<open>auto simp: members_def\<close>)
  then show "members s' = members s - {t}" by (auto simp: members_def)
qed

lemma contained_threads_iter_spec:
  "set (contained_threads_iter s) = members s \<and> sorted_wrt (<) (contained_threads_iter s)"
proof (induction s rule: contained_threads_iter.induct)
  case (1 s)
  show ?case
  proof (cases "iter_next s")
    case None
    then have "members s = {}" by (simp add: iter_next_def members_def split: if_splits)
    with None show ?thesis by (simp add: contained_threads_iter.simps [of s])
  next
    case (Some x)
    obtain t s' where x: "x = (t, s')" by (cases x)
    note nx = iter_next_members [OF Some [unfolded x]]
    have IH: "set (contained_threads_iter s') = members s' \<and>
        sorted_wrt (<) (contained_threads_iter s')"
      using "1.IH" Some x by blast
    have "t < u" if "u \<in> members s'" for u
      using nx that by (metis DiffE insertCI order_le_less)
    then show ?thesis
      using IH nx by (auto simp: contained_threads_iter.simps [of s] Some x)
  qed
qed

section \<open>Properties\<close>

text \<open>
  C31. The bit-twiddling iterator over a thread set (trailing zeros, then \<open>x & (x - 1)\<close>) lists
  exactly the indexes of the set bits, each once and in increasing order.
\<close>

theorem contained_threads_iter_is_filter:
  "contained_threads_iter s = filter (bit s) [0..<64]"
proof -
  have "sorted_wrt (<) (filter (bit s) [0..<64])"
    by (intro sorted_wrt_filter) (simp add: sorted_wrt_upt)
  moreover have "set (filter (bit s) [0..<64]) = members s"
    by (auto simp: members_def dest: bit_imp_le_length)
  ultimately show ?thesis
    using contained_threads_iter_spec [of s] by (metis strict_sorted_equal)
qed

end
