(* ===== verification/Thread_Aware_Locks.thy ===== *)
theory Thread_Aware_Locks
  imports Thread_Sets Lock_Interface
begin

text \<open>
  The thread-aware account locks of the banking stage,
  \<^verbatim>\<open>src/core/src/banking_stage/transaction_scheduler/thread_aware_account_locks.rs\<close>. An
  account that is locked on a thread can be locked again for work queued on that same thread;
  the table tells which threads a transaction can still be scheduled on. Lock counts are
  \<^verbatim>\<open>u32\<close>, the read counts an array with one entry per possible thread. Every assertion of the
  source is a branch to \<^const>\<open>None\<close>.
\<close>

section \<open>State and operations\<close>

type_synonym lock_count = u32

record account_write_locks =
  aw_thread_id :: thread_id
  aw_lock_count :: lock_count

record account_read_locks =
  ar_thread_set :: thread_set
  ar_lock_counts :: "lock_count list"

record account_entry =
  e_write_locks :: "account_write_locks option"
  e_read_locks :: "account_read_locks option"

definition account_entry_default :: account_entry where
  "account_entry_default = \<lparr>e_write_locks = None, e_read_locks = None\<rparr>"

datatype try_lock_error = MultipleConflicts | ThreadNotAllowed

record thread_aware_account_locks =
  num_threads :: nat
  locks :: "pubkey \<rightharpoonup> account_entry"

definition new_locks :: "nat \<Rightarrow> thread_aware_account_locks option" where
  "new_locks n = (if \<not> n > 0 then None else if \<not> n \<le> MAX_THREADS then None
     else Some \<lparr>num_threads = n, locks = Map.empty\<rparr>)"

definition schedulable_threads ::
  "bool \<Rightarrow> thread_aware_account_locks \<Rightarrow> pubkey \<Rightarrow> thread_set option"
where
  "schedulable_threads WRITE s account = (case locks s account of
     None \<Rightarrow> Some (ts_any (num_threads s))
   | Some e \<Rightarrow> (case (e_write_locks e, e_read_locks e) of
       (None, Some r) \<Rightarrow>
         (if WRITE then Some (case only_one_contained (ar_thread_set r) of
            None \<Rightarrow> ts_none | Some t \<Rightarrow> ts_only t)
          else Some (ts_any (num_threads s)))
     | (Some w, None) \<Rightarrow> Some (ts_only (aw_thread_id w))
     | (Some w, Some r) \<Rightarrow>
         (if only_one_contained (ar_thread_set r) = Some (aw_thread_id w)
          then Some (ar_thread_set r) else None)
     | (None, None) \<Rightarrow> None))"

definition read_schedulable_threads ::
  "thread_aware_account_locks \<Rightarrow> pubkey \<Rightarrow> thread_set option"
where
  "read_schedulable_threads = schedulable_threads False"

definition write_schedulable_threads ::
  "thread_aware_account_locks \<Rightarrow> pubkey \<Rightarrow> thread_set option"
where
  "write_schedulable_threads = schedulable_threads True"

text \<open>
  One of the two loops of \<^verbatim>\<open>accounts_schedulable_threads\<close>: intersect, and return from the
  function with \<^verbatim>\<open>None\<close> as soon as nothing is left. The outer option is the panic.
\<close>

fun narrow_threads ::
  "(pubkey \<Rightarrow> thread_set option) \<Rightarrow> thread_set \<Rightarrow> pubkey list \<Rightarrow> thread_set option option"
where
  "narrow_threads f ts [] = Some (Some ts)"
| "narrow_threads f ts (a # as) = do {
     t \<leftarrow> f a;
     let ts' = ts_bitand ts t;
     if ts_is_empty ts' then Some None else narrow_threads f ts' as }"

definition accounts_schedulable_threads ::
  "thread_aware_account_locks \<Rightarrow> pubkey list \<Rightarrow> pubkey list \<Rightarrow> thread_set option option"
where
  "accounts_schedulable_threads s writes reads = do {
     r \<leftarrow> narrow_threads (write_schedulable_threads s) (ts_any (num_threads s)) writes;
     case r of
       None \<Rightarrow> Some None
     | Some ts \<Rightarrow> narrow_threads (read_schedulable_threads s) ts reads }"

definition write_lock_account ::
  "thread_aware_account_locks \<Rightarrow> pubkey \<Rightarrow> thread_id \<Rightarrow> thread_aware_account_locks option"
where
  "write_lock_account s account t = (let
     e = (case locks s account of None \<Rightarrow> account_entry_default | Some e \<Rightarrow> e);
     read_ok = (case e_read_locks e of
       None \<Rightarrow> True | Some r \<Rightarrow> only_one_contained (ar_thread_set r) = Some t) in
     if \<not> read_ok then None
     else (case e_write_locks e of
       Some w \<Rightarrow>
         (if aw_thread_id w \<noteq> t then None
          else Some (s\<lparr>locks := (locks s)(account \<mapsto>
            e\<lparr>e_write_locks := Some (w\<lparr>aw_lock_count := aw_lock_count w + 1\<rparr>)\<rparr>)\<rparr>))
     | None \<Rightarrow> Some (s\<lparr>locks := (locks s)(account \<mapsto>
         e\<lparr>e_write_locks := Some \<lparr>aw_thread_id = t, aw_lock_count = 1\<rparr>\<rparr>)\<rparr>)))"

definition write_unlock_account ::
  "thread_aware_account_locks \<Rightarrow> pubkey \<Rightarrow> thread_id \<Rightarrow> thread_aware_account_locks option"
where
  "write_unlock_account s account t = do {
     e \<leftarrow> locks s account;
     w \<leftarrow> e_write_locks e;
     if aw_thread_id w \<noteq> t then None
     else let c = aw_lock_count w - 1 in
       if c = 0 then
         (if e_read_locks e = None then Some (s\<lparr>locks := (locks s)(account := None)\<rparr>)
          else Some (s\<lparr>locks := (locks s)(account \<mapsto> e\<lparr>e_write_locks := None\<rparr>)\<rparr>))
       else Some (s\<lparr>locks := (locks s)(account \<mapsto>
         e\<lparr>e_write_locks := Some (w\<lparr>aw_lock_count := c\<rparr>)\<rparr>)\<rparr>) }"

definition read_lock_account ::
  "thread_aware_account_locks \<Rightarrow> pubkey \<Rightarrow> thread_id \<Rightarrow> thread_aware_account_locks option"
where
  "read_lock_account s account t = (let
     e = (case locks s account of None \<Rightarrow> account_entry_default | Some e \<Rightarrow> e);
     write_ok = (case e_write_locks e of None \<Rightarrow> True | Some w \<Rightarrow> aw_thread_id w = t) in
     if \<not> write_ok then None
     else (case e_read_locks e of
       Some r \<Rightarrow>
         (if t < length (ar_lock_counts r) then
            Some (s\<lparr>locks := (locks s)(account \<mapsto> e\<lparr>e_read_locks := Some
              \<lparr>ar_thread_set = ts_insert (ar_thread_set r) t,
               ar_lock_counts = (ar_lock_counts r)[t := ar_lock_counts r ! t + 1]\<rparr>\<rparr>)\<rparr>)
          else None)
     | None \<Rightarrow>
         (if t < MAX_THREADS then
            Some (s\<lparr>locks := (locks s)(account \<mapsto> e\<lparr>e_read_locks := Some
              \<lparr>ar_thread_set = ts_only t,
               ar_lock_counts = (replicate MAX_THREADS 0)[t := 1]\<rparr>\<rparr>)\<rparr>)
          else None)))"

definition read_unlock_account ::
  "thread_aware_account_locks \<Rightarrow> pubkey \<Rightarrow> thread_id \<Rightarrow> thread_aware_account_locks option"
where
  "read_unlock_account s account t = do {
     e \<leftarrow> locks s account;
     r \<leftarrow> e_read_locks e;
     if \<not> ts_contains (ar_thread_set r) t then None
     else if \<not> t < length (ar_lock_counts r) then None
     else let c = ar_lock_counts r ! t - 1; counts = (ar_lock_counts r)[t := c] in
       if c = 0 then let ts = ts_remove (ar_thread_set r) t in
         (if ts_is_empty ts then
            (if e_write_locks e = None then Some (s\<lparr>locks := (locks s)(account := None)\<rparr>)
             else Some (s\<lparr>locks := (locks s)(account \<mapsto> e\<lparr>e_read_locks := None\<rparr>)\<rparr>))
          else Some (s\<lparr>locks := (locks s)(account \<mapsto>
            e\<lparr>e_read_locks := Some \<lparr>ar_thread_set = ts, ar_lock_counts = counts\<rparr>\<rparr>)\<rparr>))
       else Some (s\<lparr>locks := (locks s)(account \<mapsto>
         e\<lparr>e_read_locks := Some \<lparr>ar_thread_set = ar_thread_set r, ar_lock_counts = counts\<rparr>\<rparr>)\<rparr>) }"

definition lock_accounts ::
  "thread_aware_account_locks \<Rightarrow> pubkey list \<Rightarrow> pubkey list \<Rightarrow> thread_id
    \<Rightarrow> thread_aware_account_locks option"
where
  "lock_accounts s writes reads t =
     (if \<not> t < num_threads s then None else do {
        s \<leftarrow> fold_opt (\<lambda>s a. write_lock_account s a t) s writes;
        fold_opt (\<lambda>s a. read_lock_account s a t) s reads })"

definition unlock_accounts ::
  "thread_aware_account_locks \<Rightarrow> pubkey list \<Rightarrow> pubkey list \<Rightarrow> thread_id
    \<Rightarrow> thread_aware_account_locks option"
where
  "unlock_accounts s writes reads t = do {
     s \<leftarrow> fold_opt (\<lambda>s a. write_unlock_account s a t) s writes;
     fold_opt (\<lambda>s a. read_unlock_account s a t) s reads }"

definition try_lock_accounts ::
  "thread_aware_account_locks \<Rightarrow> pubkey list \<Rightarrow> pubkey list \<Rightarrow> thread_set
    \<Rightarrow> (thread_set \<Rightarrow> thread_id option)
    \<Rightarrow> (thread_aware_account_locks \<times> (try_lock_error + thread_id)) option"
where
  "try_lock_accounts s writes reads allowed selector = do {
     r \<leftarrow> accounts_schedulable_threads s writes reads;
     case r of
       None \<Rightarrow> Some (s, Inl MultipleConflicts)
     | Some ts \<Rightarrow> (let ts = ts_bitand ts allowed in
         if ts_is_empty ts then Some (s, Inl ThreadNotAllowed)
         else do {
           t \<leftarrow> selector ts;
           s' \<leftarrow> lock_accounts s writes reads t;
           Some (s', Inr t) }) }"

section \<open>Representation of the locks held\<close>

text \<open>
  A hold is an account, the kind of access and the thread it is held on. \<open>compatible H a w t\<close>:
  with the holds \<open>H\<close>, account \<open>a\<close> can also be locked on thread \<open>t\<close>.
\<close>

type_synonym hold = "pubkey \<times> bool \<times> thread_id"

definition compatible :: "hold multiset \<Rightarrow> pubkey \<Rightarrow> bool \<Rightarrow> thread_id \<Rightarrow> bool" where
  "compatible H a w t \<longleftrightarrow> (\<forall>w' t'. (a, w', t') \<in># H \<and> (w \<or> w') \<longrightarrow> t' = t)"

definition exclusive :: "hold multiset \<Rightarrow> bool" where
  "exclusive H \<longleftrightarrow> (\<forall>a w t. (a, w, t) \<in># H \<longrightarrow> compatible H a w t)"

definition write_rep :: "hold multiset \<Rightarrow> pubkey \<Rightarrow> account_write_locks option \<Rightarrow> bool" where
  "write_rep H a wo = (case wo of
     None \<Rightarrow> \<forall>t. (a, True, t) \<notin># H
   | Some w \<Rightarrow> aw_lock_count w \<noteq> 0 \<and>
       (\<forall>t. count H (a, True, t) = (if t = aw_thread_id w then unat (aw_lock_count w) else 0)))"

definition read_rep :: "hold multiset \<Rightarrow> pubkey \<Rightarrow> account_read_locks option \<Rightarrow> bool" where
  "read_rep H a ro = (case ro of
     None \<Rightarrow> \<forall>t. (a, False, t) \<notin># H
   | Some r \<Rightarrow> length (ar_lock_counts r) = 64 \<and> ar_thread_set r \<noteq> 0 \<and>
       members (ar_thread_set r) = {t. (a, False, t) \<in># H} \<and>
       (\<forall>t<64. unat (ar_lock_counts r ! t) = count H (a, False, t)))"

definition wl :: "thread_aware_account_locks \<Rightarrow> pubkey \<Rightarrow> account_write_locks option" where
  "wl s a = Option.bind (locks s a) e_write_locks"

definition rl :: "thread_aware_account_locks \<Rightarrow> pubkey \<Rightarrow> account_read_locks option" where
  "rl s a = Option.bind (locks s a) e_read_locks"

definition tal_rep :: "thread_aware_account_locks \<Rightarrow> hold multiset \<Rightarrow> bool" where
  "tal_rep s H \<longleftrightarrow> 0 < num_threads s \<and> num_threads s \<le> 64 \<and> size H < 2 ^ 32 \<and> exclusive H \<and>
     (\<forall>a w t. (a, w, t) \<in># H \<longrightarrow> t < num_threads s) \<and>
     (\<forall>a. write_rep H a (wl s a) \<and> read_rep H a (rl s a) \<and>
       (locks s a \<noteq> None \<longrightarrow> wl s a \<noteq> None \<or> rl s a \<noteq> None))"

text \<open>Every operation on an account stores a new pair of lock fields, or drops an empty one.\<close>

definition put ::
  "thread_aware_account_locks \<Rightarrow> pubkey \<Rightarrow> account_write_locks option
    \<Rightarrow> account_read_locks option \<Rightarrow> thread_aware_account_locks"
where
  "put s a w r = s\<lparr>locks := (locks s)(a :=
     if w = None \<and> r = None then None else Some \<lparr>e_write_locks = w, e_read_locks = r\<rparr>)\<rparr>"

lemma put_simps [simp]:
  "num_threads (put s a w r) = num_threads s"
  "wl (put s a w r) b = (if b = a then w else wl s b)"
  "rl (put s a w r) b = (if b = a then r else rl s b)"
  by (auto simp: put_def wl_def rl_def)

lemma put_put [simp]: "put (put s a w r) a w' r' = put s a w' r'"
  by (simp add: put_def)

lemma locks_wl_rl:
  "locks s a = Some e \<Longrightarrow> wl s a = e_write_locks e \<and> rl s a = e_read_locks e"
  "locks s a = None \<Longrightarrow> wl s a = None \<and> rl s a = None"
  by (simp_all add: wl_def rl_def)

lemma entry_update:
  "e\<lparr>e_write_locks := w\<rparr> = \<lparr>e_write_locks = w, e_read_locks = e_read_locks e\<rparr>"
  "e\<lparr>e_read_locks := r\<rparr> = \<lparr>e_write_locks = e_write_locks e, e_read_locks = r\<rparr>"
  for e :: account_entry
  by simp_all

lemma write_lock_put:
  "write_lock_account s a t =
    (if (\<forall>r. rl s a = Some r \<longrightarrow> only_one_contained (ar_thread_set r) = Some t) \<and>
        (\<forall>w. wl s a = Some w \<longrightarrow> aw_thread_id w = t)
     then Some (put s a (Some (case wl s a of
         None \<Rightarrow> \<lparr>aw_thread_id = t, aw_lock_count = 1\<rparr>
       | Some w \<Rightarrow> w\<lparr>aw_lock_count := aw_lock_count w + 1\<rparr>)) (rl s a))
     else None)"
  by (cases "locks s a")
    (auto simp: write_lock_account_def Let_def account_entry_default_def put_def entry_update
      wl_def rl_def split: option.split)

lemma write_unlock_put:
  "write_unlock_account s a t = (case wl s a of
     None \<Rightarrow> None
   | Some w \<Rightarrow> if aw_thread_id w \<noteq> t then None
       else Some (put s a (if aw_lock_count w - 1 = 0 then None
         else Some (w\<lparr>aw_lock_count := aw_lock_count w - 1\<rparr>)) (rl s a)))"
  by (cases "locks s a")
    (auto simp: write_unlock_account_def Let_def put_def entry_update wl_def rl_def split: option.split)

lemma read_lock_put:
  "read_lock_account s a t =
    (if \<forall>w. wl s a = Some w \<longrightarrow> aw_thread_id w = t then
       (case rl s a of
          None \<Rightarrow> if t < 64 then Some (put s a (wl s a) (Some \<lparr>ar_thread_set = ts_only t,
            ar_lock_counts = (replicate 64 0)[t := 1]\<rparr>)) else None
        | Some r \<Rightarrow> if t < length (ar_lock_counts r) then Some (put s a (wl s a) (Some
            \<lparr>ar_thread_set = ts_insert (ar_thread_set r) t,
             ar_lock_counts = (ar_lock_counts r)[t := ar_lock_counts r ! t + 1]\<rparr>)) else None)
     else None)"
  by (cases "locks s a")
    (auto simp: read_lock_account_def Let_def account_entry_default_def put_def entry_update
      wl_def rl_def split: option.split)

lemma read_unlock_put:
  "read_unlock_account s a t = (case rl s a of
     None \<Rightarrow> None
   | Some r \<Rightarrow> if \<not> ts_contains (ar_thread_set r) t \<or> \<not> t < length (ar_lock_counts r) then None
       else let c = ar_lock_counts r ! t - 1; counts = (ar_lock_counts r)[t := c];
              ts = (if c = 0 then ts_remove (ar_thread_set r) t else ar_thread_set r) in
         Some (put s a (wl s a) (if c = 0 \<and> ts_is_empty ts then None
           else Some \<lparr>ar_thread_set = ts, ar_lock_counts = counts\<rparr>)))"
  by (cases "locks s a")
    (auto simp: read_unlock_account_def Let_def put_def entry_update wl_def rl_def split: option.split)

section \<open>Every operation keeps the representation\<close>

lemma rep_cong:
  assumes "\<And>w t. count H' (a, w, t) = count H (a, w, t)"
  shows "write_rep H' a wo \<longleftrightarrow> write_rep H a wo" and "read_rep H' a ro \<longleftrightarrow> read_rep H a ro"
proof -
  have mem: "(a, w, t) \<in># H' \<longleftrightarrow> (a, w, t) \<in># H" for w t
    by (metis assms count_greater_zero_iff)
  show "write_rep H' a wo \<longleftrightarrow> write_rep H a wo" "read_rep H' a ro \<longleftrightarrow> read_rep H a ro"
    by (simp_all add: write_rep_def read_rep_def assms mem cong: option.case_cong)
qed

lemma rep_frame [simp]:
  "write_rep (add_mset (a, False, t) H) b wo \<longleftrightarrow> write_rep H b wo"
  "read_rep (add_mset (a, True, t) H) b ro \<longleftrightarrow> read_rep H b ro"
  by (simp_all add: write_rep_def read_rep_def cong: option.case_cong)

lemma tal_repD:
  assumes "tal_rep s H"
  shows "write_rep H a (wl s a)" "read_rep H a (rl s a)" "exclusive H" "num_threads s \<le> 64"
    "(a, w, t) \<in># H \<Longrightarrow> t < num_threads s"
  using assms unfolding tal_rep_def by blast+

lemma rep_put:
  assumes rep: "tal_rep s H" and excl: "exclusive H'" and size: "size H' < 2 ^ 32"
    and lt: "\<And>b w t. (b, w, t) \<in># H' \<Longrightarrow> t < num_threads s"
    and other: "\<And>b w t. b \<noteq> a \<Longrightarrow> count H' (b, w, t) = count H (b, w, t)"
    and w: "write_rep H' a w" and r: "read_rep H' a r"
  shows "tal_rep (put s a w r) H'"
proof -
  have "write_rep H' b (wl (put s a w r) b) \<and> read_rep H' b (rl (put s a w r) b) \<and>
      (locks (put s a w r) b \<noteq> None \<longrightarrow> wl (put s a w r) b \<noteq> None \<or> rl (put s a w r) b \<noteq> None)"
    for b
  proof (cases "b = a")
    case True
    with w r show ?thesis by simp (simp add: put_def)
  next
    case False
    with rep show ?thesis
      using rep_cong [OF other [OF False]] by (simp add: tal_rep_def) (simp add: put_def)
  qed
  then show ?thesis using rep excl size lt by (simp add: tal_rep_def)
qed

lemma exclusive_add:
  "exclusive H \<Longrightarrow> compatible H a w t \<Longrightarrow> exclusive (add_mset (a, w, t) H)"
  unfolding exclusive_def compatible_def set_mset_add_mset_insert insert_iff prod.inject by blast

lemma exclusive_remove: "exclusive (add_mset h H) \<Longrightarrow> exclusive H"
  unfolding exclusive_def compatible_def by (metis insertI2 set_mset_add_mset_insert)

lemma rep_write_thread:
  assumes "tal_rep s H" "wl s a = Some w"
  shows "(a, True, aw_thread_id w) \<in># H"
proof -
  from tal_repD(1) [OF assms(1), of a] assms(2) have "write_rep H a (Some w)" by simp
  then have "count H (a, True, aw_thread_id w) > 0" by (simp add: write_rep_def unat_gt_0)
  then show ?thesis by simp
qed

lemma write_rep_Some:
  "write_rep H a (Some w) \<longleftrightarrow> aw_lock_count w \<noteq> 0 \<and>
    count H (a, True, aw_thread_id w) = unat (aw_lock_count w) \<and>
    (\<forall>t. t \<noteq> aw_thread_id w \<longrightarrow> count H (a, True, t) = 0)"
  by (auto simp: write_rep_def)

lemma write_repD:
  assumes "write_rep H a (Some w)"
  shows "count H (a, True, aw_thread_id w) = unat (aw_lock_count w)"
    and "t \<noteq> aw_thread_id w \<Longrightarrow> count H (a, True, t) = 0"
  using assms by (simp_all add: write_rep_Some)

lemma rep_no_write: "tal_rep s H \<Longrightarrow> wl s a = None \<Longrightarrow> (a, True, t) \<notin># H"
  using tal_repD(1) [of s H a] by (simp add: write_rep_def)

lemma rep_no_read: "tal_rep s H \<Longrightarrow> rl s a = None \<Longrightarrow> (a, False, t) \<notin># H"
  using tal_repD(2) [of s H a] by (simp add: read_rep_def)

lemma rep_read_threads:
  assumes "tal_rep s H" "rl s a = Some r"
  shows "members (ar_thread_set r) = {t. (a, False, t) \<in># H}" and "members (ar_thread_set r) \<noteq> {}"
    and "length (ar_lock_counts r) = 64"
    and "t < 64 \<Longrightarrow> unat (ar_lock_counts r ! t) = count H (a, False, t)"
proof -
  from tal_repD(2) [OF assms(1), of a] assms(2) have rr: "read_rep H a (Some r)" by simp
  then show "members (ar_thread_set r) = {t. (a, False, t) \<in># H}"
    "length (ar_lock_counts r) = 64"
    "t < 64 \<Longrightarrow> unat (ar_lock_counts r ! t) = count H (a, False, t)"
    by (simp_all add: read_rep_def)
  have "ar_thread_set r \<noteq> 0" using rr by (simp add: read_rep_def)
  then show "members (ar_thread_set r) \<noteq> {}"
    by (metis is_empty_iff ts_is_empty_def ts_none_def)
qed

lemma only_nonzero: "ts_only t \<noteq> 0"
  using bit_as_flag [of t "t mod 64"] by (auto simp: ts_only_def)

lemma unat_inc: "unat c + 1 < 2 ^ 32 \<Longrightarrow> unat (c + 1) = Suc (unat c)" for c :: u32
  using unat_add_lt [of c 1] by simp

lemma unat_dec: "unat c = Suc n \<Longrightarrow> unat (c - 1) = n" for c :: u32
  by (subst unat_minus_one) auto

lemma write_lock_rep:
  assumes rep: "tal_rep s H" and comp: "compatible H a True t" and t: "t < num_threads s"
    and size: "size H + 1 < 2 ^ 32"
  shows "\<exists>s'. write_lock_account s a t = Some s' \<and> num_threads s' = num_threads s \<and>
    tal_rep s' (add_mset (a, True, t) H)"
proof -
  let ?H = "add_mset (a, True, t) H"
  let ?w = "case wl s a of None \<Rightarrow> \<lparr>aw_thread_id = t, aw_lock_count = 1\<rparr>
    | Some w \<Rightarrow> w\<lparr>aw_lock_count := aw_lock_count w + 1\<rparr>"
  have "only_one_contained (ar_thread_set r) = Some t" if "rl s a = Some r" for r
    using rep_read_threads [OF rep that] comp by (auto simp: only_one_contained_iff compatible_def)
  moreover have wt: "aw_thread_id w = t" if "wl s a = Some w" for w
    using rep_write_thread [OF rep that] comp by (simp add: compatible_def)
  ultimately have eq: "write_lock_account s a t = Some (put s a (Some ?w) (rl s a))"
    by (simp add: write_lock_put)
  have "write_rep ?H a (Some ?w)"
  proof (cases "wl s a")
    case None
    with rep_no_write [OF rep None] show ?thesis by (simp add: write_rep_Some not_in_iff)
  next
    case (Some w)
    then have w: "write_rep H a (Some w)" using tal_repD(1) [OF rep, of a] by simp
    then have c: "unat (aw_lock_count w) = count H (a, True, t)"
      using wt [OF Some] write_repD(1) by fastforce
    then have "unat (aw_lock_count w + 1) = Suc (unat (aw_lock_count w))"
      using count_le_size [of H "(a, True, t)"] size by (intro unat_inc) simp
    then have "aw_lock_count w + 1 \<noteq> 0" by (metis nat.distinct(1) unsigned_0)
    with \<open>unat (aw_lock_count w + 1) = _\<close> w c wt [OF Some] Some show ?thesis
      by (simp add: write_rep_Some)
  qed
  moreover have "read_rep ?H a (rl s a)"
    using tal_repD [OF rep] by simp
  ultimately have "tal_rep (put s a (Some ?w) (rl s a)) ?H"
    using rep t size comp by (intro rep_put [OF rep]) (auto simp: tal_rep_def exclusive_add)
  with eq show ?thesis by simp
qed

lemma read_lock_rep:
  assumes rep: "tal_rep s H" and comp: "compatible H a False t" and t: "t < num_threads s"
    and size: "size H + 1 < 2 ^ 32"
  shows "\<exists>s'. read_lock_account s a t = Some s' \<and> num_threads s' = num_threads s \<and>
    tal_rep s' (add_mset (a, False, t) H)"
proof -
  let ?H = "add_mset (a, False, t) H"
  have t64: "t < 64" using rep t by (simp add: tal_rep_def)
  have wt: "aw_thread_id w = t" if "wl s a = Some w" for w
    using rep_write_thread [OF rep that] comp by (simp add: compatible_def)
  have "\<exists>r. read_lock_account s a t = Some (put s a (wl s a) (Some r)) \<and> read_rep ?H a (Some r)"
  proof (cases "rl s a")
    case None
    have "read_rep ?H a (Some \<lparr>ar_thread_set = ts_only t, ar_lock_counts = (replicate 64 0)[t := 1]\<rparr>)"
      using rep_no_read [OF rep None] t64
      by (auto simp: read_rep_def members_only nth_list_update only_nonzero
          count_eq_zero_iff)
    with None wt t64 show ?thesis by (auto simp: read_lock_put)
  next
    case (Some r)
    note r = rep_read_threads [OF rep Some]
    have "unat (ar_lock_counts r ! t + 1) = Suc (unat (ar_lock_counts r ! t))"
      using r(4) [OF t64] count_le_size [of H "(a, False, t)"] size by (intro unat_inc) simp
    then have "read_rep ?H a (Some \<lparr>ar_thread_set = ts_insert (ar_thread_set r) t,
        ar_lock_counts = (ar_lock_counts r)[t := ar_lock_counts r ! t + 1]\<rparr>)"
      using r t64 members_insert [OF t64, of "ar_thread_set r"]
      by (auto simp: read_rep_def nth_list_update members_def)
    with Some wt r(3) t64 show ?thesis by (auto simp: read_lock_put)
  qed
  then obtain r where eq: "read_lock_account s a t = Some (put s a (wl s a) (Some r))"
    and r: "read_rep ?H a (Some r)" by blast
  have "write_rep ?H a (wl s a)"
    using tal_repD [OF rep] by simp
  with r have "tal_rep (put s a (wl s a) (Some r)) ?H"
    using rep t size comp by (intro rep_put [OF rep]) (auto simp: tal_rep_def exclusive_add)
  with eq show ?thesis by simp
qed

lemma write_unlock_rep:
  assumes rep: "tal_rep s (add_mset (a, True, t) H)"
  shows "\<exists>s'. write_unlock_account s a t = Some s' \<and> num_threads s' = num_threads s \<and> tal_rep s' H"
proof -
  let ?H = "add_mset (a, True, t) H"
  obtain w where Some: "wl s a = Some w"
    using rep_no_write [OF rep, of a t] by (cases "wl s a") auto
  have wt: "aw_thread_id w = t"
    using rep_write_thread [OF rep Some] rep
    by (auto simp: tal_rep_def exclusive_def compatible_def)
  have w: "write_rep ?H a (Some w)" using tal_repD(1) [OF rep, of a] Some by simp
  then have c: "unat (aw_lock_count w) = Suc (count H (a, True, t))"
    using wt write_repD(1) by fastforce
  let ?w = "if aw_lock_count w - 1 = 0 then None
    else Some (w\<lparr>aw_lock_count := aw_lock_count w - 1\<rparr>)"
  have eq: "write_unlock_account s a t = Some (put s a ?w (rl s a))"
    using Some wt by (simp add: write_unlock_put)
  have z: "aw_lock_count w - 1 = 0 \<longleftrightarrow> count H (a, True, t) = 0"
    using unat_dec [OF c] by (metis unat_eq_zero)
  have other: "count H (a, True, u) = 0" if "u \<noteq> t" for u
    using write_repD(2) [OF w, of u] wt that by simp
  have "write_rep H a ?w"
  proof (cases "aw_lock_count w - 1 = 0")
    case True
    with z other have "count H (a, True, u) = 0" for u by (cases "u = t") auto
    with True show ?thesis by (auto simp: write_rep_def not_in_iff)
  next
    case False
    with wt other unat_dec [OF c] show ?thesis by (simp add: write_rep_Some)
  qed
  moreover have "read_rep H a (rl s a)"
    using tal_repD(2) [OF rep, of a] by simp
  moreover have "exclusive H" using tal_repD(3) [OF rep] by (rule exclusive_remove)
  ultimately have "tal_rep (put s a ?w (rl s a)) H"
    using rep by (intro rep_put [OF rep]) (auto simp: tal_rep_def)
  with eq show ?thesis by simp
qed

lemma read_unlock_rep:
  assumes rep: "tal_rep s (add_mset (a, False, t) H)"
  shows "\<exists>s'. read_unlock_account s a t = Some s' \<and> num_threads s' = num_threads s \<and> tal_rep s' H"
proof -
  let ?H = "add_mset (a, False, t) H"
  have t64: "t < 64" using tal_repD(4) [OF rep] tal_repD(5) [OF rep, of a False t] by simp
  obtain r where Some: "rl s a = Some r"
    using rep_no_read [OF rep, of a t] by (cases "rl s a") auto
  note r = rep_read_threads [OF rep Some]
  have mem: "t \<in> members (ar_thread_set r)" using r(1) by simp
  have c: "unat (ar_lock_counts r ! t) = Suc (count H (a, False, t))"
    using r(4) [OF t64] by simp
  define c' where "c' = ar_lock_counts r ! t - 1"
  define ts where "ts = (if c' = 0 then ts_remove (ar_thread_set r) t else ar_thread_set r)"
  let ?counts = "(ar_lock_counts r)[t := c']"
  let ?r = "if c' = 0 \<and> ts_is_empty ts then None
    else Some \<lparr>ar_thread_set = ts, ar_lock_counts = ?counts\<rparr>"
  have eq: "read_unlock_account s a t = Some (put s a (wl s a) ?r)"
    using Some mem r(3) t64
    by (simp add: read_unlock_put contains_iff Let_def flip: c'_def ts_def)
  have c': "unat c' = count H (a, False, t)" unfolding c'_def by (rule unat_dec [OF c])
  then have z: "c' = 0 \<longleftrightarrow> count H (a, False, t) = 0" by (metis unat_eq_zero)
  have ts: "members ts = {u. (a, False, u) \<in># H}"
    using r(1) z t64 by (auto simp: ts_def members_remove not_in_iff [symmetric])
  have "read_rep H a ?r"
  proof (cases "c' = 0 \<and> ts_is_empty ts")
    case True
    then have "{u. (a, False, u) \<in># H} = {}" using ts by (simp add: is_empty_iff)
    then show ?thesis using True by (simp add: read_rep_def)
  next
    case False
    then have "ts \<noteq> 0"
      using mem by (auto simp: ts_def ts_is_empty_def ts_none_def members_def)
    moreover have "unat (?counts ! u) = count H (a, False, u)" if "u < 64" for u
      using c' r(3) r(4) [OF that] t64 that by (cases "u = t") auto
    ultimately show ?thesis using False ts r(3) by (auto simp: read_rep_def)
  qed
  moreover have "write_rep H a (wl s a)"
    using tal_repD(1) [OF rep, of a] by simp
  moreover have "exclusive H" using tal_repD(3) [OF rep] by (rule exclusive_remove)
  ultimately have "tal_rep (put s a (wl s a) ?r) H"
    using rep by (intro rep_put [OF rep]) (auto simp: tal_rep_def)
  with eq show ?thesis by simp
qed

section \<open>Which threads are schedulable\<close>

lemma compatible_simps:
  "compatible H a True t \<longleftrightarrow> (\<forall>u. (a, True, u) \<in># H \<longrightarrow> u = t) \<and> (\<forall>u. (a, False, u) \<in># H \<longrightarrow> u = t)"
  "compatible H a False t \<longleftrightarrow> (\<forall>u. (a, True, u) \<in># H \<longrightarrow> u = t)"
  unfolding compatible_def all_bool_eq by simp_all

lemma compatible_write: "compatible H a True t \<Longrightarrow> compatible H a w t"
  by (cases w) (simp_all add: compatible_simps)

lemma compatible_writeD: "compatible H a w t \<Longrightarrow> (a, True, u) \<in># H \<Longrightarrow> u = t"
  by (cases w) (simp_all add: compatible_simps)

lemma schedulable_threads_spec:
  assumes rep: "tal_rep s H"
  shows "\<exists>ts. schedulable_threads W s a = Some ts \<and>
    members ts = {t. t < num_threads s \<and> compatible H a W t}"
proof -
  have n: "num_threads s \<le> 64" using tal_repD(4) [OF rep] .
  have lt: "t < num_threads s" if "(a, w, t) \<in># H" for w t using tal_repD(5) [OF rep that] .
  have ex: "compatible H a w t" if "(a, w, t) \<in># H" for w t
    using tal_repD(3) [OF rep] that by (simp add: exclusive_def)
  show ?thesis
  proof (cases "wl s a")
    case None
    note wl = None
    then have now: "(a, True, t) \<notin># H" for t using rep_no_write [OF rep] by blast
    show ?thesis
    proof (cases "rl s a")
      case None
      then have "(a, w, t) \<notin># H" for w t using now rep_no_read [OF rep None] by (cases w) auto
      moreover have "locks s a = None" using rep wl None unfolding tal_rep_def by blast
      ultimately show ?thesis
        using n by (auto simp: schedulable_threads_def members_any compatible_def)
    next
      case (Some r)
      note r = rep_read_threads [OF rep Some]
      obtain e where e: "locks s a = Some e" "e_write_locks e = None" "e_read_locks e = Some r"
        using wl Some by (auto simp: wl_def rl_def bind_eq_Some_conv split: option.splits)
      have comp: "compatible H a True t \<longleftrightarrow> members (ar_thread_set r) = {t}" for t
        using r(1,2) now unfolding compatible_simps by blast
      have all: "compatible H a False t" for t
        using now by (simp add: compatible_simps)
      have only: "members (case only_one_contained (ar_thread_set r) of
          None \<Rightarrow> ts_none | Some t \<Rightarrow> ts_only t) = {t. members (ar_thread_set r) = {t}}"
      proof (cases "only_one_contained (ar_thread_set r)")
        case None
        then show ?thesis using only_one_contained_iff [of "ar_thread_set r"]
          by (auto simp: members_none)
      next
        case (Some t)
        then have m: "members (ar_thread_set r) = {t}" by (simp add: only_one_contained_iff)
        then have "t < 64" using members_lt by blast
        with Some m show ?thesis by (auto simp: members_only)
      qed
      show ?thesis
      proof (cases W)
        case True
        have "{t. members (ar_thread_set r) = {t}} =
            {t. t < num_threads s \<and> compatible H a True t}"
          using comp r(1) lt by blast
        with True e only show ?thesis by (simp add: schedulable_threads_def)
      next
        case False
        with e all n show ?thesis by (auto simp: schedulable_threads_def members_any)
      qed
    qed
  next
    case (Some w)
    have hold: "(a, True, aw_thread_id w) \<in># H" using rep_write_thread [OF rep Some] .
    have set: "{t. t < num_threads s \<and> compatible H a W t} = {aw_thread_id w}"
      using hold lt compatible_write [OF ex [OF hold], of W] compatible_writeD [of H a W]
      by blast
    obtain e where e: "locks s a = Some e" "e_write_locks e = Some w" "e_read_locks e = rl s a"
      using Some by (auto simp: wl_def rl_def bind_eq_Some_conv)
    have w64: "aw_thread_id w < 64" using lt [OF hold] n by simp
    show ?thesis
    proof (cases "rl s a")
      case None
      with e set w64 show ?thesis by (simp add: schedulable_threads_def members_only)
    next
      case (Some r)
      note r = rep_read_threads [OF rep Some]
      have "members (ar_thread_set r) = {aw_thread_id w}"
        using r(1,2) ex [OF hold] unfolding compatible_simps by blast
      with e set Some show ?thesis
        by (simp add: schedulable_threads_def only_one_contained_iff)
    qed
  qed
qed

lemma narrow_threads_spec:
  assumes "members ts \<noteq> {}" and "\<And>a. a \<in> set as \<Longrightarrow> \<exists>x. f a = Some x \<and> members x = G a"
  shows "\<exists>r. narrow_threads f ts as = Some r \<and>
    (case r of None \<Rightarrow> members ts \<inter> (\<Inter>a\<in>set as. G a) = {}
     | Some ts' \<Rightarrow> members ts' = members ts \<inter> (\<Inter>a\<in>set as. G a) \<and> members ts' \<noteq> {})"
  using assms
proof (induction as arbitrary: ts)
  case Nil
  then show ?case by simp
next
  case (Cons a as)
  obtain x where x: "f a = Some x" "members x = G a" using Cons.prems(2) by auto
  have m: "members (ts_bitand ts x) = members ts \<inter> G a" by (simp add: members_bitand x)
  show ?case
  proof (cases "ts_is_empty (ts_bitand ts x)")
    case True
    with m x show ?thesis by (auto simp: is_empty_iff Let_def)
  next
    case False
    then have "members (ts_bitand ts x) \<noteq> {}" by (simp add: is_empty_iff)
    moreover have "\<exists>x. f b = Some x \<and> members x = G b" if "b \<in> set as" for b
      using Cons.prems(2) that by simp
    ultimately obtain r where r: "narrow_threads f (ts_bitand ts x) as = Some r"
      "case r of None \<Rightarrow> members (ts_bitand ts x) \<inter> (\<Inter>a\<in>set as. G a) = {}
       | Some ts' \<Rightarrow> members ts' = members (ts_bitand ts x) \<inter> (\<Inter>a\<in>set as. G a) \<and>
           members ts' \<noteq> {}"
      using Cons.IH [of "ts_bitand ts x"] by blast
    have "narrow_threads f ts (a # as) = Some r"
      using False x r(1) by (simp add: Let_def)
    moreover have E: "members ts \<inter> (\<Inter>a\<in>set (a # as). G a) =
        members (ts_bitand ts x) \<inter> (\<Inter>a\<in>set as. G a)" using m by auto
    ultimately show ?thesis unfolding E using r(2) by blast
  qed
qed

text \<open>The threads on which a whole request fits: the specification of the scheduling decision.\<close>

definition fitting_threads :: "nat \<Rightarrow> hold multiset \<Rightarrow> pubkey list \<Rightarrow> pubkey list \<Rightarrow> thread_id set"
where
  "fitting_threads n H writes reads = {t. t < n \<and> (\<forall>a\<in>set writes. compatible H a True t)
     \<and> (\<forall>a\<in>set reads. compatible H a False t)}"

lemma accounts_schedulable_threads_spec:
  assumes rep: "tal_rep s H"
  shows "\<exists>r. accounts_schedulable_threads s writes reads = Some r \<and>
    (case r of None \<Rightarrow> fitting_threads (num_threads s) H writes reads = {}
     | Some ts \<Rightarrow> members ts = fitting_threads (num_threads s) H writes reads \<and> members ts \<noteq> {})"
proof -
  let ?n = "num_threads s"
  let ?G = "\<lambda>W a. {t. t < ?n \<and> compatible H a W t}"
  have any: "members (ts_any ?n) = {..<?n}" "{..<?n} \<noteq> {}"
    using rep by (auto simp: tal_rep_def members_any)
  have "\<exists>r. narrow_threads (write_schedulable_threads s) (ts_any ?n) writes = Some r \<and>
      (case r of None \<Rightarrow> members (ts_any ?n) \<inter> (\<Inter>a\<in>set writes. ?G True a) = {}
       | Some ts' \<Rightarrow> members ts' = members (ts_any ?n) \<inter> (\<Inter>a\<in>set writes. ?G True a) \<and>
           members ts' \<noteq> {})"
    using any schedulable_threads_spec [OF rep, of True]
    by (intro narrow_threads_spec) (simp_all add: write_schedulable_threads_def)
  then obtain r1 where
    r1: "narrow_threads (write_schedulable_threads s) (ts_any ?n) writes = Some r1"
    and c1: "case r1 of None \<Rightarrow> {..<?n} \<inter> (\<Inter>a\<in>set writes. ?G True a) = {}
      | Some ts' \<Rightarrow> members ts' = {..<?n} \<inter> (\<Inter>a\<in>set writes. ?G True a) \<and> members ts' \<noteq> {}"
    unfolding any(1) by blast
  show ?thesis
  proof (cases r1)
    case None
    with r1 c1 show ?thesis
      by (auto simp: accounts_schedulable_threads_def fitting_threads_def)
  next
    case (Some ts1)
    have ts1: "members ts1 \<noteq> {}" using c1 unfolding Some option.case by (rule conjunct2)
    have "\<exists>r. narrow_threads (read_schedulable_threads s) ts1 reads = Some r \<and>
        (case r of None \<Rightarrow> members ts1 \<inter> (\<Inter>a\<in>set reads. ?G False a) = {}
         | Some ts' \<Rightarrow> members ts' = members ts1 \<inter> (\<Inter>a\<in>set reads. ?G False a) \<and>
             members ts' \<noteq> {})"
      using ts1 schedulable_threads_spec [OF rep, of False]
      by (intro narrow_threads_spec) (simp_all add: read_schedulable_threads_def)
    then obtain r2 where r2: "narrow_threads (read_schedulable_threads s) ts1 reads = Some r2"
      and c2: "case r2 of None \<Rightarrow> members ts1 \<inter> (\<Inter>a\<in>set reads. ?G False a) = {}
        | Some ts' \<Rightarrow> members ts' = members ts1 \<inter> (\<Inter>a\<in>set reads. ?G False a) \<and> members ts' \<noteq> {}"
      by blast
    have "members ts1 \<inter> (\<Inter>a\<in>set reads. ?G False a) = fitting_threads ?n H writes reads"
      using c1 unfolding Some option.case fitting_threads_def by auto
    note fit = this
    have "accounts_schedulable_threads s writes reads = Some r2"
      using r1 r2 Some by (simp add: accounts_schedulable_threads_def)
    then show ?thesis using c2 unfolding fit by blast
  qed
qed

section \<open>Whole requests\<close>

definition batch_holds :: "thread_id \<Rightarrow> pubkey list \<Rightarrow> pubkey list \<Rightarrow> hold multiset" where
  "batch_holds t writes reads =
     mset (map (\<lambda>a. (a, True, t)) writes) + mset (map (\<lambda>a. (a, False, t)) reads)"

lemma size_batch_holds [simp]: "size (batch_holds t ws rs) = length ws + length rs"
  by (simp add: batch_holds_def)

lemma compatible_add_same: "compatible H a w t \<Longrightarrow> compatible (add_mset (b, v, t) H) a w t"
  by (cases w) (auto simp: compatible_simps)

text \<open>Locking a list of accounts one by one, for either kind of access.\<close>

lemma lock_list_rep:
  assumes step: "\<And>s H a. tal_rep s H \<Longrightarrow> compatible H a w t \<Longrightarrow> t < num_threads s \<Longrightarrow>
      size H + 1 < 2 ^ 32 \<Longrightarrow> \<exists>s'. f s a = Some s' \<and> num_threads s' = num_threads s \<and>
        tal_rep s' (add_mset (a, w, t) H)"
    and "tal_rep s H" "t < num_threads s" "\<forall>a\<in>set as. compatible H a w t"
    "size H + length as < 2 ^ 32"
  shows "\<exists>s'. fold_opt f s as = Some s' \<and> num_threads s' = num_threads s \<and>
    tal_rep s' (H + mset (map (\<lambda>a. (a, w, t)) as))"
  using assms(2-)
proof (induction as arbitrary: s H)
  case Nil
  then show ?case by simp
next
  case (Cons a as)
  obtain s1 where s1: "f s a = Some s1" "num_threads s1 = num_threads s"
    "tal_rep s1 (add_mset (a, w, t) H)"
    using step [of s H a] Cons.prems by auto
  have "\<forall>b\<in>set as. compatible (add_mset (a, w, t) H) b w t"
    using Cons.prems(3) by (auto intro: compatible_add_same)
  then obtain s2 where "fold_opt f s1 as = Some s2" "num_threads s2 = num_threads s1"
    "tal_rep s2 (add_mset (a, w, t) H + mset (map (\<lambda>a. (a, w, t)) as))"
    using Cons.IH [of s1 "add_mset (a, w, t) H"] s1 Cons.prems by auto
  with s1 show ?case by auto
qed

lemma unlock_list_rep:
  assumes step: "\<And>s H a. tal_rep s (add_mset (a, w, t) H) \<Longrightarrow>
      \<exists>s'. f s a = Some s' \<and> num_threads s' = num_threads s \<and> tal_rep s' H"
    and "tal_rep s (H + mset (map (\<lambda>a. (a, w, t)) as))"
  shows "\<exists>s'. fold_opt f s as = Some s' \<and> num_threads s' = num_threads s \<and> tal_rep s' H"
  using assms(2)
proof (induction as arbitrary: s)
  case Nil
  then show ?case by simp
next
  case (Cons a as)
  then obtain s1 where "f s a = Some s1" "num_threads s1 = num_threads s"
    "tal_rep s1 (H + mset (map (\<lambda>a. (a, w, t)) as))"
    using step [of s a "H + mset (map (\<lambda>a. (a, w, t)) as)"] by auto
  with Cons.IH [of s1] show ?case by auto
qed

lemma compatible_batch:
  "compatible H a w t \<Longrightarrow> compatible (H + image_mset (\<lambda>a. (a, v, t)) (mset as)) a w t"
  by (induction as arbitrary: H) (simp_all add: compatible_add_same)

lemma lock_accounts_rep:
  assumes rep: "tal_rep s H" and t: "t \<in> fitting_threads (num_threads s) H ws rs"
    and size: "size H + length ws + length rs < 2 ^ 32"
  shows "\<exists>s'. lock_accounts s ws rs t = Some s' \<and> num_threads s' = num_threads s \<and>
    tal_rep s' (H + batch_holds t ws rs)"
proof -
  have tn: "t < num_threads s" using t by (simp add: fitting_threads_def)
  let ?H1 = "H + mset (map (\<lambda>a. (a, True, t)) ws)"
  obtain s1 where s1: "fold_opt (\<lambda>s a. write_lock_account s a t) s ws = Some s1"
    "num_threads s1 = num_threads s" "tal_rep s1 ?H1"
    using lock_list_rep [OF write_lock_rep rep tn, of ws] t size
    by (auto simp: fitting_threads_def)
  have "\<forall>a\<in>set rs. compatible ?H1 a False t"
    using t by (auto simp: fitting_threads_def intro: compatible_batch)
  then obtain s2 where "fold_opt (\<lambda>s a. read_lock_account s a t) s1 rs = Some s2"
    "num_threads s2 = num_threads s1" "tal_rep s2 (?H1 + mset (map (\<lambda>a. (a, False, t)) rs))"
    using lock_list_rep [OF read_lock_rep s1(3), of t rs] tn s1(2) size by auto
  with s1 tn show ?thesis
    by (auto simp: lock_accounts_def batch_holds_def add.assoc)
qed

lemma unlock_accounts_rep:
  assumes rep: "tal_rep s (H + batch_holds t ws rs)"
  shows "\<exists>s'. unlock_accounts s ws rs t = Some s' \<and> num_threads s' = num_threads s \<and> tal_rep s' H"
proof -
  let ?R = "mset (map (\<lambda>a. (a, False, t)) rs)"
  have "tal_rep s ((H + ?R) + mset (map (\<lambda>a. (a, True, t)) ws))"
    using rep by (simp add: batch_holds_def ac_simps)
  from unlock_list_rep [where f = "\<lambda>s a. write_unlock_account s a t", OF write_unlock_rep this]
  obtain s1 where
    s1: "fold_opt (\<lambda>s a. write_unlock_account s a t) s ws = Some s1"
    "num_threads s1 = num_threads s" "tal_rep s1 (H + ?R)" by blast
  from unlock_list_rep [where f = "\<lambda>s a. read_unlock_account s a t", OF read_unlock_rep s1(3)] s1
  show ?thesis by (auto simp: unlock_accounts_def)
qed

lemma try_lock_accounts_rep:
  assumes rep: "tal_rep s H" and size: "size H + length ws + length rs < 2 ^ 32"
    and sel: "\<And>ts. members ts \<noteq> {} \<Longrightarrow> members ts \<subseteq> {..<num_threads s} \<Longrightarrow>
      \<exists>t \<in> members ts. sel ts = Some t"
  defines "F \<equiv> fitting_threads (num_threads s) H ws rs"
  shows "if F = {} then try_lock_accounts s ws rs allowed sel = Some (s, Inl MultipleConflicts)
    else if F \<inter> members allowed = {}
      then try_lock_accounts s ws rs allowed sel = Some (s, Inl ThreadNotAllowed)
    else \<exists>s' t ts. members ts = F \<inter> members allowed \<and> sel ts = Some t \<and> t \<in> members ts \<and>
      try_lock_accounts s ws rs allowed sel = Some (s', Inr t) \<and>
      num_threads s' = num_threads s \<and> tal_rep s' (H + batch_holds t ws rs)"
proof -
  obtain r where r: "accounts_schedulable_threads s ws rs = Some r"
    "case r of None \<Rightarrow> F = {} | Some ts \<Rightarrow> members ts = F \<and> members ts \<noteq> {}"
    using accounts_schedulable_threads_spec [OF rep, of ws rs] unfolding F_def by blast
  show ?thesis
  proof (cases r)
    case None
    with r show ?thesis by (simp add: try_lock_accounts_def)
  next
    case (Some ts)
    have ts: "members ts = F" "F \<noteq> {}" using r(2) unfolding Some option.case by auto
    let ?ts = "ts_bitand ts allowed"
    have m: "members ?ts = F \<inter> members allowed" by (simp add: members_bitand ts)
    show ?thesis
    proof (cases "F \<inter> members allowed = {}")
      case True
      with r(1) Some ts m show ?thesis
        by (simp add: try_lock_accounts_def is_empty_iff)
    next
      case False
      have "members ?ts \<subseteq> {..<num_threads s}" using m by (auto simp: F_def fitting_threads_def)
      with sel [of ?ts] m False obtain t where t: "t \<in> members ?ts" "sel ?ts = Some t" by auto
      have "t \<in> fitting_threads (num_threads s) H ws rs" using t(1) m by (simp add: F_def)
      from lock_accounts_rep [OF rep this size] obtain s' where
        "lock_accounts s ws rs t = Some s'" "num_threads s' = num_threads s"
        "tal_rep s' (H + batch_holds t ws rs)" by blast
      moreover from this have "try_lock_accounts s ws rs allowed sel = Some (s', Inr t)"
        using r(1) Some t m False by (simp add: try_lock_accounts_def is_empty_iff)
      ultimately show ?thesis using False ts m t by auto
    qed
  qed
qed

lemma try_lock_accounts_granted:
  assumes rep: "tal_rep s H"
    and sel: "\<And>ts t. sel ts = Some t \<Longrightarrow> members ts \<noteq> {} \<Longrightarrow> members ts \<subseteq> {..<num_threads s} \<Longrightarrow>
      t \<in> members ts"
    and "try_lock_accounts s ws rs allowed sel = Some (s', Inr t)"
  shows "t \<in> fitting_threads (num_threads s) H ws rs \<inter> members allowed \<and>
    lock_accounts s ws rs t = Some s'"
proof -
  obtain r where r: "accounts_schedulable_threads s ws rs = Some r"
    "case r of None \<Rightarrow> fitting_threads (num_threads s) H ws rs = {}
     | Some ts \<Rightarrow> members ts = fitting_threads (num_threads s) H ws rs \<and> members ts \<noteq> {}"
    using accounts_schedulable_threads_spec [OF rep, of ws rs] by blast
  with assms(3) obtain ts where ts: "r = Some ts" by (cases r) (auto simp: try_lock_accounts_def)
  have s: "sel (ts_bitand ts allowed) = Some t" "members (ts_bitand ts allowed) \<noteq> {}"
    "lock_accounts s ws rs t = Some s'"
    using assms(3) r(1) ts
    by (auto simp: try_lock_accounts_def is_empty_iff Let_def bind_eq_Some_conv split: if_splits)
  have "members (ts_bitand ts allowed) \<subseteq> {..<num_threads s}"
    using r(2) unfolding ts option.case by (auto simp: members_bitand fitting_threads_def)
  from sel [OF s(1,2) this] r(2) ts s(3) show ?thesis by (simp add: members_bitand)
qed

section \<open>The table as a lock table\<close>

type_synonym batch = "thread_id \<times> pubkey list \<times> pubkey list"

definition all_holds :: "batch multiset \<Rightarrow> hold multiset" where
  "all_holds B = \<Sum>\<^sub># (image_mset (\<lambda>(t, ws, rs). batch_holds t ws rs) B)"

lemma all_holds_simps [simp]:
  "all_holds {#} = {#}"
  "all_holds (add_mset (t, ws, rs) B) = batch_holds t ws rs + all_holds B"
  by (simp_all add: all_holds_def)

definition requests :: "pubkey list \<Rightarrow> pubkey list \<Rightarrow> lock_request set" where
  "requests ws rs = (\<lambda>a. (a, True)) ` set ws \<union> (\<lambda>a. (a, False)) ` set rs"

lemma holds_requests: "(t, ws, rs) \<in># B \<Longrightarrow> (a, w) \<in> requests ws rs \<Longrightarrow> (a, w, t) \<in># all_holds B"
  by (auto simp: all_holds_def requests_def batch_holds_def intro!: bexI [of _ "(t, ws, rs)"])

text \<open>A selector returns one of the threads it is offered, whenever some of the \<open>n\<close> threads are.\<close>

definition selects_member :: "nat \<Rightarrow> (thread_set \<Rightarrow> thread_id option) \<Rightarrow> bool" where
  "selects_member n sel \<longleftrightarrow> (\<forall>ts. members ts \<noteq> {} \<longrightarrow> members ts \<subseteq> {..<n} \<longrightarrow>
     (\<exists>t \<in> members ts. sel ts = Some t))"

definition tal_grant :: "thread_aware_account_locks \<Rightarrow> batch \<Rightarrow> thread_aware_account_locks \<Rightarrow> bool"
where
  "tal_grant s b s' \<longleftrightarrow> (\<exists>allowed sel. selects_member (num_threads s) sel \<and>
     try_lock_accounts s (fst (snd b)) (snd (snd b)) allowed sel = Some (s', Inr (fst b)))"

definition tal_give :: "thread_aware_account_locks \<Rightarrow> batch \<Rightarrow> thread_aware_account_locks option"
where
  "tal_give s b = unlock_accounts s (fst (snd b)) (snd (snd b)) (fst b)"

definition tal_clash :: "batch \<Rightarrow> batch \<Rightarrow> bool" where
  "tal_clash b c \<longleftrightarrow> fst b \<noteq> fst c \<and>
     conflicts (requests (fst (snd b)) (snd (snd b))) (requests (fst (snd c)) (snd (snd c)))"

definition tal_room :: "batch multiset \<Rightarrow> bool" where
  "tal_room B \<longleftrightarrow> size (all_holds B) < 2 ^ 32"

definition tal_represents ::
  "thread_aware_account_locks \<Rightarrow> thread_aware_account_locks \<Rightarrow> batch multiset \<Rightarrow> bool"
where
  "tal_represents s0 s B \<longleftrightarrow> num_threads s = num_threads s0 \<and> tal_rep s (all_holds B)"

lemma tal_rep_new: "new_locks n = Some s \<Longrightarrow> tal_rep s {#} \<and> num_threads s = n"
  by (auto simp: new_locks_def tal_rep_def exclusive_def write_rep_def read_rep_def wl_def rl_def
      split: if_splits)

lemma write_rep_unique: "write_rep K a x \<Longrightarrow> write_rep K a y \<Longrightarrow> x = y"
proof -
  assume x: "write_rep K a x" and y: "write_rep K a y"
  have none: False if "write_rep K a None" "write_rep K a (Some w)" for w
    using that write_repD(1) [OF that(2)] by (auto simp: write_rep_def not_in_iff unat_eq_zero)
  show ?thesis
  proof (cases x; cases y)
    fix w v assume xy: "x = Some w" "y = Some v"
    have "aw_thread_id w = aw_thread_id v"
      using x y unfolding xy write_rep_Some by (metis unat_eq_zero)
    moreover from this have "aw_lock_count w = aw_lock_count v"
      using x y unfolding xy write_rep_Some by (metis word_unat_eq_iff)
    ultimately show ?thesis using xy by simp
  qed (use x y none in auto)
qed

lemma read_rep_unique: "read_rep K a x \<Longrightarrow> read_rep K a y \<Longrightarrow> x = y"
proof -
  assume x: "read_rep K a x" and y: "read_rep K a y"
  have none: False if "read_rep K a None" "read_rep K a (Some r)" for r
    using that is_empty_iff [of "ar_thread_set r"]
    by (simp add: read_rep_def ts_is_empty_def ts_none_def)
  show ?thesis
  proof (cases x; cases y)
    fix r v assume xy: "x = Some r" "y = Some v"
    have "ar_thread_set r = ar_thread_set v"
      using x y unfolding xy by (intro members_eqI) (simp add: read_rep_def)
    moreover have "ar_lock_counts r = ar_lock_counts v"
      using x y unfolding xy by (intro nth_equalityI) (simp_all add: read_rep_def word_unat_eq_iff)
    ultimately show ?thesis using xy by simp
  qed (use x y none in auto)
qed

lemma locks_from_fields:
  "tal_rep s K \<Longrightarrow> locks s a = (if wl s a = None \<and> rl s a = None then None
    else Some \<lparr>e_write_locks = wl s a, e_read_locks = rl s a\<rparr>)"
  by (cases "locks s a") (auto simp: tal_rep_def wl_def rl_def)

lemma tal_rep_unique:
  assumes "tal_rep s K" "tal_rep s' K" "num_threads s = num_threads s'"
  shows "s = s'"
proof -
  have "wl s a = wl s' a" "rl s a = rl s' a" for a
    using tal_repD(1,2) [OF assms(1)] tal_repD(1,2) [OF assms(2)] write_rep_unique read_rep_unique
    by blast+
  then have "locks s = locks s'"
    using locks_from_fields [OF assms(1)] locks_from_fields [OF assms(2)] by (intro ext) simp
  with assms(3) show ?thesis by simp
qed

interpretation tal: lock_table tal_grant tal_give tal_room "\<lambda>s. \<exists>n. new_locks n = Some s"
  tal_clash tal_represents
proof (unfold_locales, goal_cases)
  case (1 s0)
  then show ?case using tal_rep_new by (auto simp: tal_represents_def)
next
  case (2 s0 s H s')
  then show ?case by (intro tal_rep_unique [of s "all_holds H"]) (auto simp: tal_represents_def)
next
  case (3 s0 s H b s')
  obtain t ws rs where b: "b = (t, ws, rs)" by (cases b)
  from 3 obtain allowed sel where sel: "selects_member (num_threads s) sel"
    and tr: "try_lock_accounts s ws rs allowed sel = Some (s', Inr t)"
    by (auto simp: tal_grant_def b)
  have rep: "tal_rep s (all_holds H)" using 3 by (simp add: tal_represents_def)
  have g: "t \<in> fitting_threads (num_threads s) (all_holds H) ws rs"
    "lock_accounts s ws rs t = Some s'"
    using try_lock_accounts_granted [OF rep _ tr] sel by (fastforce simp: selects_member_def)+
  show ?case
    using lock_accounts_rep [OF rep g(1)] g(2) 3
    by (auto simp: tal_represents_def tal_room_def b add.commute)
next
  case (4 s0 s H b s' c)
  obtain t ws rs where b: "b = (t, ws, rs)" by (cases b)
  obtain u ws' rs' where c: "c = (u, ws', rs')" by (cases c)
  from 4 obtain allowed sel where sel: "selects_member (num_threads s) sel"
    and tr: "try_lock_accounts s ws rs allowed sel = Some (s', Inr t)"
    by (auto simp: tal_grant_def b)
  have rep: "tal_rep s (all_holds H)" using 4 by (simp add: tal_represents_def)
  have g: "t \<in> fitting_threads (num_threads s) (all_holds H) ws rs"
    using try_lock_accounts_granted [OF rep _ tr] sel by (fastforce simp: selects_member_def)
  have "u = t" if "(a, w) \<in> requests ws rs" "(a, w') \<in> requests ws' rs'" "w \<or> w'" for a w w'
  proof -
    have "compatible (all_holds H) a w t"
      using g that(1) by (auto simp: fitting_threads_def requests_def)
    moreover have "(a, w', u) \<in># all_holds H"
      using 4(3) that(2) by (auto simp: c intro: holds_requests)
    ultimately show ?thesis using that(3) by (auto simp: compatible_def)
  qed
  then show ?case by (auto simp: tal_clash_def conflicts_def b c)
next
  case (5 s0 s b H)
  then show ?case
    using unlock_accounts_rep [of s "all_holds H" "fst b" "fst (snd b)" "snd (snd b)"]
    by (cases b) (auto simp: tal_represents_def tal_give_def add.commute)
next
  case (6 r q)
  then show ?case by (auto simp: tal_clash_def conflicts_sym)
qed

section \<open>Extending runs\<close>

text \<open>The selector that takes the lowest thread offered.\<close>

definition lowest_thread :: "thread_set \<Rightarrow> thread_id option" where
  "lowest_thread ts = (case iter_next ts of None \<Rightarrow> None | Some (t, _) \<Rightarrow> Some t)"

lemma lowest_thread_selects: "selects_member n lowest_thread"
  unfolding selects_member_def
proof (intro allI impI)
  fix ts assume "members ts \<noteq> {}"
  then have "ts \<noteq> 0" by (auto simp: members_def)
  then obtain t ts' where "iter_next ts = Some (t, ts')" by (simp add: iter_next_def)
  with iter_next_members(2) [OF this] show "\<exists>t \<in> members ts. lowest_thread ts = Some t"
    by (auto simp: lowest_thread_def)
qed

abbreviation tal_run ::
  "thread_aware_account_locks \<Rightarrow> thread_aware_account_locks \<Rightarrow> batch multiset \<Rightarrow> bool"
where
  "tal_run \<equiv> lock_run tal_grant tal_give tal_room"

lemma tal_run_rep:
  "new_locks n = Some s0 \<Longrightarrow> tal_run s0 s B \<Longrightarrow> tal_rep s (all_holds B) \<and> num_threads s = n"
  using tal.run_represents [of s0 s B] tal_rep_new [of n s0] by (auto simp: tal_represents_def)

lemma tal_run_extend:
  assumes new: "new_locks n = Some s0" and run: "tal_run s0 s B"
    and t: "t \<in> fitting_threads n (all_holds B) ws rs"
    and size: "size (all_holds B) + length ws + length rs < 2 ^ 32"
  shows "\<exists>s'. tal_run s0 s' (add_mset (t, ws, rs) B)"
proof -
  from tal_run_rep [OF new run] have rep: "tal_rep s (all_holds B)" and n: "num_threads s = n"
    by simp_all
  have t64: "t < 64" using t tal_repD(4) [OF rep] n by (simp add: fitting_threads_def)
  have sel: "\<exists>t \<in> members ts. lowest_thread ts = Some t"
    if "members ts \<noteq> {}" "members ts \<subseteq> {..<num_threads s}" for ts
    using lowest_thread_selects [of n] that n by (simp add: selects_member_def)
  have "fitting_threads n (all_holds B) ws rs \<inter> members (ts_only t) = {t}"
    using t t64 by (auto simp: members_only)
  then obtain s' where "try_lock_accounts s ws rs (ts_only t) lowest_thread = Some (s', Inr t)"
    using try_lock_accounts_rep [OF rep size sel, of "ts_only t"] t unfolding n
    by (auto split: if_splits)
  then have "tal_grant s (t, ws, rs) s'"
    using lowest_thread_selects by (auto simp: tal_grant_def)
  then show ?thesis using lock_run.grant [OF run, of "(t, ws, rs)"] size by (auto simp: tal_room_def)
qed

text \<open>Two threads; account 1 is written on thread 0, account 3 on thread 1, account 2 read on both.\<close>

definition demo_table :: thread_aware_account_locks where
  "demo_table = \<lparr>num_threads = 2, locks = Map.empty\<rparr>"

definition demo_batches :: "batch multiset" where
  "demo_batches = {#(1, [3], [2]), (0, [1], [2])#}"

lemma demo_new: "new_locks 2 = Some demo_table"
  by (simp add: new_locks_def demo_table_def)

lemma demo_run: "\<exists>s. tal_run demo_table s demo_batches"
proof -
  have "0 \<in> fitting_threads 2 (all_holds {#}) [1] [2]"
    by (simp add: fitting_threads_def compatible_simps)
  from tal_run_extend [OF demo_new lock_run.start this] obtain s where
    s: "tal_run demo_table s {#(0, [1], [2])#}" by auto
  have "1 \<in> fitting_threads 2 (all_holds {#(0, [1], [2])#}) [3] [2]"
    by (simp add: fitting_threads_def compatible_simps batch_holds_def)
  from tal_run_extend [OF demo_new s this] show ?thesis by (simp add: demo_batches_def)
qed

section \<open>Properties\<close>

text \<open>
  C22. Thread safety of scheduling. Starting from a new table, whatever batches are locked and
  unlocked and however the selector chooses, two outstanding batches on different threads never
  conflict on an account: a write-locked account belongs to one thread.
\<close>

theorem thread_aware_exclusive:
  assumes "new_locks n = Some s0" and "tal_run s0 s B"
    and "(t, ws, rs) \<in># B" and "(u, ws', rs') \<in># B - {#(t, ws, rs)#}" and "t \<noteq> u"
  shows "\<not> conflicts (requests ws rs) (requests ws' rs')"
  using tal.run_no_clash [OF assms(2) _ assms(3,4)] assms(1,5) by (auto simp: tal_clash_def)

theorem thread_aware_exclusive_witness:
  "\<exists>s. tal_run demo_table s demo_batches \<and> \<not> conflicts (requests [3] [2]) (requests [1] [2])"
proof -
  obtain s where s: "tal_run demo_table s demo_batches" using demo_run by blast
  with thread_aware_exclusive [OF demo_new s, of 1 "[3]" "[2]" 0 "[1]" "[2]"] show ?thesis
    by (auto simp: demo_batches_def)
qed

text \<open>
  C24. Unlocking. In every reachable state, unlocking an outstanding batch runs into none of the
  assertions of the table, whatever the order in which batches complete; and when the last one
  has been unlocked the table is again the new one, with no entry left behind.
\<close>

theorem thread_aware_unlock:
  assumes "new_locks n = Some s0" and "tal_run s0 s (add_mset (t, ws, rs) B)"
  shows "\<exists>s'. unlock_accounts s ws rs t = Some s' \<and> tal_run s0 s' B \<and> (B = {#} \<longrightarrow> s' = s0)"
proof -
  obtain s' where s': "tal_give s (t, ws, rs) = Some s'" "tal_run s0 s' B"
    using tal.run_give [OF assms(2)] assms(1) by blast
  moreover have "B = {#} \<longrightarrow> s' = s0"
    using tal.run_all_returned [of s0 s'] s'(2) assms(1) by blast
  ultimately show ?thesis by (auto simp: tal_give_def)
qed

theorem thread_aware_unlock_witness:
  "\<exists>s s'. tal_run demo_table s demo_batches \<and> unlock_accounts s [3] [2] 1 = Some s'
    \<and> tal_run demo_table s' {#(0, [1], [2])#}"
proof -
  obtain s where s: "tal_run demo_table s demo_batches" using demo_run by blast
  with thread_aware_unlock [OF demo_new s [unfolded demo_batches_def]] show ?thesis by blast
qed

text \<open>
  C23. The scheduling decision is exact. In every reachable state \<^verbatim>\<open>try_lock_accounts\<close> does not
  panic; it reports \<^verbatim>\<open>MultipleConflicts\<close> exactly when no thread can take the whole request next
  to the locks held, \<^verbatim>\<open>ThreadNotAllowed\<close> exactly when such threads exist and none is allowed,
  and otherwise offers the selector exactly the allowed ones and locks on its choice.
\<close>

theorem thread_aware_try_lock:
  assumes "new_locks n = Some s0" and "tal_run s0 s B" and "selects_member n sel"
    and "size (all_holds B) + length ws + length rs < 2 ^ 32"
  shows "let F = fitting_threads n (all_holds B) ws rs in
    if F = {} then try_lock_accounts s ws rs allowed sel = Some (s, Inl MultipleConflicts)
    else if F \<inter> members allowed = {}
      then try_lock_accounts s ws rs allowed sel = Some (s, Inl ThreadNotAllowed)
    else \<exists>s' t ts. members ts = F \<inter> members allowed \<and> sel ts = Some t \<and> t \<in> members ts \<and>
      try_lock_accounts s ws rs allowed sel = Some (s', Inr t) \<and>
      tal_run s0 s' (add_mset (t, ws, rs) B)"
proof -
  from tal_run_rep [OF assms(1,2)] have rep: "tal_rep s (all_holds B)" and n: "num_threads s = n"
    by simp_all
  have sel: "\<exists>t \<in> members ts. sel ts = Some t"
    if "members ts \<noteq> {}" "members ts \<subseteq> {..<num_threads s}" for ts
    using assms(3) that n by (simp add: selects_member_def)
  have "tal_run s0 s' (add_mset (t, ws, rs) B)"
    if "try_lock_accounts s ws rs allowed sel = Some (s', Inr t)" for s' t
    using that assms(3,4) n
    by (intro lock_run.grant [OF assms(2)]) (auto simp: tal_room_def tal_grant_def)
  then show ?thesis
    using try_lock_accounts_rep [OF rep assms(4) sel, of allowed] unfolding n Let_def
    by (auto split: if_splits)
qed

theorem thread_aware_try_lock_witness:
  "\<exists>s. tal_run demo_table s demo_batches
    \<and> try_lock_accounts s [2] [] (ts_any 2) lowest_thread = Some (s, Inl MultipleConflicts)
    \<and> try_lock_accounts s [1] [] (ts_only 1) lowest_thread = Some (s, Inl ThreadNotAllowed)
    \<and> (\<exists>s'. try_lock_accounts s [1] [4] (ts_any 2) lowest_thread = Some (s', Inr 0))"
proof -
  obtain s where s: "tal_run demo_table s demo_batches" using demo_run by blast
  have t2: "t < 2 \<longleftrightarrow> t = 0 \<or> t = 1" for t :: nat by auto
  note dec = thread_aware_try_lock [OF demo_new s lowest_thread_selects]
  note sim = Let_def fitting_threads_def compatible_simps demo_batches_def batch_holds_def
  have f: "fitting_threads 2 (all_holds demo_batches) [2] [] = {}"
    "fitting_threads 2 (all_holds demo_batches) [1] [] = {0}"
    "fitting_threads 2 (all_holds demo_batches) [1] [4] = {0}"
    by (auto simp: sim t2)
  have "try_lock_accounts s [2] [] (ts_any 2) lowest_thread = Some (s, Inl MultipleConflicts)"
    using dec [of "[2]" "[]" "ts_any 2"] by (simp add: f) (simp add: sim)
  moreover have
    "try_lock_accounts s [1] [] (ts_only 1) lowest_thread = Some (s, Inl ThreadNotAllowed)"
    using dec [of "[1]" "[]" "ts_only 1"] by (simp add: f members_only) (simp add: sim)
  moreover have "\<exists>s'. try_lock_accounts s [1] [4] (ts_any 2) lowest_thread = Some (s', Inr 0)"
    using dec [of "[1]" "[4]" "ts_any 2"] by (simp add: f members_any) (auto simp: sim)
  ultimately show ?thesis using s by blast
qed

end
