(* ===== verification/Scheduling_Common.thy ===== *)
theory Scheduling_Common
  imports Thread_Aware_Locks "HOL-Library.Product_Lexorder"
begin

text \<open>
  The bookkeeping that every transaction scheduler of the banking stage shares
  (\<^verbatim>\<open>scheduler_common.rs\<close>, \<^verbatim>\<open>in_flight_tracker.rs\<close> and \<^verbatim>\<open>batch_id_generator.rs\<close> under
  \<^verbatim>\<open>src/core/src/banking_stage/transaction_scheduler/\<close>): the batches being filled, the work in
  flight per worker thread, the choice of a thread, sending batches and taking back completed
  ones. The locks are those of the thread-aware table.

  Parameters. A transaction is seen through its \<^verbatim>\<open>account_keys\<close> and \<^verbatim>\<open>is_writable\<close>; a channel
  of crossbeam through \<open>send\<close> (\<^const>\<open>None\<close> when it is disconnected) and \<open>try_recv\<close>; the
  container of transaction states through \<open>retry\<close> and \<open>remove\<close>.
\<close>

section \<open>Work in flight\<close>

type_synonym batch_id = u64

record batch_id_generator =
  next_id :: u64

definition batch_id_generator_default :: batch_id_generator where
  "batch_id_generator_default = \<lparr>next_id = 0\<rparr>"

definition generator_next :: "batch_id_generator \<Rightarrow> batch_id_generator \<times> batch_id" where
  "generator_next g = (g\<lparr>next_id := next_id g - 1\<rparr>, next_id g)"

record batch_entry =
  be_thread_id :: thread_id
  be_num_transactions :: usize
  be_total_cus :: u64

record in_flight_tracker =
  num_in_flight_per_thread :: "usize list"
  cus_in_flight_per_thread :: "u64 list"
  tracked_batches :: "batch_id \<rightharpoonup> batch_entry"
  batch_id_gen :: batch_id_generator

definition new_tracker :: "nat \<Rightarrow> in_flight_tracker" where
  "new_tracker n = \<lparr>num_in_flight_per_thread = replicate n 0,
     cus_in_flight_per_thread = replicate n 0, tracked_batches = Map.empty,
     batch_id_gen = batch_id_generator_default\<rparr>"

definition track_batch ::
  "in_flight_tracker \<Rightarrow> usize \<Rightarrow> u64 \<Rightarrow> thread_id \<Rightarrow> (in_flight_tracker \<times> batch_id) option"
where
  "track_batch t num cus i = (let (g, batch_id) = generator_next (batch_id_gen t) in do {
     n \<leftarrow> idx (num_in_flight_per_thread t) i;
     c \<leftarrow> idx (cus_in_flight_per_thread t) i;
     Some (\<lparr>num_in_flight_per_thread = (num_in_flight_per_thread t)[i := n + num],
        cus_in_flight_per_thread = (cus_in_flight_per_thread t)[i := c + cus],
        tracked_batches = (tracked_batches t)(batch_id \<mapsto>
          \<lparr>be_thread_id = i, be_num_transactions = num, be_total_cus = cus\<rparr>),
        batch_id_gen = g\<rparr>, batch_id) })"

definition tracker_complete_batch ::
  "in_flight_tracker \<Rightarrow> batch_id \<Rightarrow> (in_flight_tracker \<times> thread_id) option"
where
  "tracker_complete_batch t batch_id = (case tracked_batches t batch_id of
     None \<Rightarrow> None
   | Some e \<Rightarrow> do {
       let i = be_thread_id e;
       n \<leftarrow> idx (num_in_flight_per_thread t) i;
       c \<leftarrow> idx (cus_in_flight_per_thread t) i;
       Some (t\<lparr>tracked_batches := (tracked_batches t)(batch_id := None),
          num_in_flight_per_thread := (num_in_flight_per_thread t)[i := n - be_num_transactions e],
          cus_in_flight_per_thread := (cus_in_flight_per_thread t)[i := c - be_total_cus e]\<rparr>, i) })"

section \<open>Batches being filled\<close>

record ('tx, 'age) batches =
  b_ids :: "usize list list"
  b_transactions :: "'tx list list"
  b_max_ages :: "'age list list"
  b_total_cus :: "u64 list"

definition new_batches :: "nat \<Rightarrow> ('tx, 'age) batches" where
  "new_batches n = \<lparr>b_ids = replicate n [], b_transactions = replicate n [],
     b_max_ages = replicate n [], b_total_cus = replicate n 0\<rparr>"

definition add_transaction_to_batch ::
  "('tx, 'age) batches \<Rightarrow> thread_id \<Rightarrow> usize \<Rightarrow> 'tx \<Rightarrow> 'age \<Rightarrow> u64 \<Rightarrow> ('tx, 'age) batches option"
where
  "add_transaction_to_batch b i tid tx age cus = do {
     ids \<leftarrow> idx (b_ids b) i;
     txs \<leftarrow> idx (b_transactions b) i;
     ages \<leftarrow> idx (b_max_ages b) i;
     c \<leftarrow> idx (b_total_cus b) i;
     Some \<lparr>b_ids = (b_ids b)[i := ids @ [tid]], b_transactions = (b_transactions b)[i := txs @ [tx]],
       b_max_ages = (b_max_ages b)[i := ages @ [age]], b_total_cus = (b_total_cus b)[i := c + cus]\<rparr> }"

definition take_batch ::
  "('tx, 'age) batches \<Rightarrow> thread_id
    \<Rightarrow> (('tx, 'age) batches \<times> usize list \<times> 'tx list \<times> 'age list \<times> u64) option"
where
  "take_batch b i = do {
     ids \<leftarrow> idx (b_ids b) i;
     txs \<leftarrow> idx (b_transactions b) i;
     ages \<leftarrow> idx (b_max_ages b) i;
     c \<leftarrow> idx (b_total_cus b) i;
     Some (\<lparr>b_ids = (b_ids b)[i := []], b_transactions = (b_transactions b)[i := []],
       b_max_ages = (b_max_ages b)[i := []], b_total_cus = (b_total_cus b)[i := 0]\<rparr>,
       ids, txs, ages, c) }"

section \<open>Choosing a thread\<close>

text \<open>\<^verbatim>\<open>Iterator::min_by\<close> keeps the first of equal minima.\<close>

fun min_by :: "('a \<Rightarrow> 'a \<Rightarrow> bool) \<Rightarrow> 'a list \<Rightarrow> 'a option" where
  "min_by lt [] = None"
| "min_by lt [x] = Some x"
| "min_by lt (x # y # ys) = min_by lt ((if lt y x then y else x) # ys)"

definition load_less :: "thread_id \<times> u64 \<times> usize \<Rightarrow> thread_id \<times> u64 \<times> usize \<Rightarrow> bool" where
  "load_less a b \<longleftrightarrow> fst (snd a) < fst (snd b) \<or>
     fst (snd a) = fst (snd b) \<and> snd (snd a) < snd (snd b)"

definition thread_load ::
  "u64 list \<Rightarrow> u64 list \<Rightarrow> 'tx list list \<Rightarrow> usize list \<Rightarrow> thread_id
    \<Rightarrow> (thread_id \<times> u64 \<times> usize) option"
where
  "thread_load batch_cus flight_cus batch_txs in_flight i = do {
     bc \<leftarrow> idx batch_cus i;
     fc \<leftarrow> idx flight_cus i;
     bt \<leftarrow> idx batch_txs i;
     f \<leftarrow> idx in_flight i;
     Some (i, bc + fc, of_nat (length bt) + f) }"

fun map_opt :: "('a \<Rightarrow> 'b option) \<Rightarrow> 'a list \<Rightarrow> 'b list option" where
  "map_opt f [] = Some []"
| "map_opt f (x # xs) = do { y \<leftarrow> f x; ys \<leftarrow> map_opt f xs; Some (y # ys) }"

definition select_thread ::
  "thread_set \<Rightarrow> u64 list \<Rightarrow> u64 list \<Rightarrow> 'tx list list \<Rightarrow> usize list \<Rightarrow> thread_id option"
where
  "select_thread ts batch_cus flight_cus batch_txs in_flight = do {
     loads \<leftarrow> map_opt (thread_load batch_cus flight_cus batch_txs in_flight)
       (contained_threads_iter ts);
     best \<leftarrow> min_by load_less loads;
     Some (fst best) }"

section \<open>Sending and completing\<close>

datatype scheduler_error = DisconnectedSendChannel string | DisconnectedRecvChannel string

record ('tx, 'age) consume_work =
  w_batch_id :: batch_id
  w_ids :: "usize list"
  w_transactions :: "'tx list"
  w_max_ages :: "'age list"

record ('tx, 'age) finished_consume_work =
  f_work :: "('tx, 'age) consume_work"
  f_retryable_indexes :: "nat list"

record ('chan, 'rx) scheduling_common =
  consume_work_senders :: "'chan list"
  finished_consume_work_receiver :: 'rx
  tracker :: in_flight_tracker
  account_locks :: thread_aware_account_locks

definition new_common :: "'chan list \<Rightarrow> 'rx \<Rightarrow> ('chan, 'rx) scheduling_common option" where
  "new_common senders rx = (let n = length senders in
     if n > 0 \<and> n \<le> MAX_THREADS then do {
       l \<leftarrow> new_locks n;
       Some \<lparr>consume_work_senders = senders, finished_consume_work_receiver = rx,
         tracker = new_tracker n, account_locks = l\<rparr> }
     else None)"

definition send_batch ::
  "('chan \<Rightarrow> ('tx, 'age) consume_work \<Rightarrow> 'chan option) \<Rightarrow> ('chan, 'rx) scheduling_common
    \<Rightarrow> ('tx, 'age) batches \<Rightarrow> nat
    \<Rightarrow> (('chan, 'rx) scheduling_common \<times> ('tx, 'age) batches \<times> (scheduler_error + usize)) option"
where
  "send_batch send c b i = do {
     pending \<leftarrow> idx (b_ids b) i;
     if pending = [] then Some (c, b, Inr 0)
     else do {
       (b', ids, txs, ages, cus) \<leftarrow> take_batch b i;
       (tr, batch_id) \<leftarrow> track_batch (tracker c) (of_nat (length ids)) cus i;
       sender \<leftarrow> idx (consume_work_senders c) i;
       let work = \<lparr>w_batch_id = batch_id, w_ids = ids, w_transactions = txs, w_max_ages = ages\<rparr>;
       let c' = c\<lparr>tracker := tr\<rparr>;
       Some (case send sender work of
         None \<Rightarrow> (c', b', Inl (DisconnectedSendChannel ''consume work sender''))
       | Some sender' \<Rightarrow>
           (c'\<lparr>consume_work_senders := (consume_work_senders c)[i := sender']\<rparr>, b',
            Inr (of_nat (length ids)))) } }"

text \<open>The sum over the threads; the first error ends it, and no further batch is sent.\<close>

fun send_batches_from ::
  "('chan \<Rightarrow> ('tx, 'age) consume_work \<Rightarrow> 'chan option) \<Rightarrow> ('chan, 'rx) scheduling_common
    \<Rightarrow> ('tx, 'age) batches \<Rightarrow> nat list \<Rightarrow> usize
    \<Rightarrow> (('chan, 'rx) scheduling_common \<times> ('tx, 'age) batches \<times> (scheduler_error + usize)) option"
where
  "send_batches_from send c b [] sent = Some (c, b, Inr sent)"
| "send_batches_from send c b (i # is) sent = do {
     (c', b', r) \<leftarrow> send_batch send c b i;
     (case r of Inl e \<Rightarrow> Some (c', b', Inl e)
      | Inr n \<Rightarrow> send_batches_from send c' b' is (sent + n)) }"

definition send_batches ::
  "('chan \<Rightarrow> ('tx, 'age) consume_work \<Rightarrow> 'chan option) \<Rightarrow> ('chan, 'rx) scheduling_common
    \<Rightarrow> ('tx, 'age) batches
    \<Rightarrow> (('chan, 'rx) scheduling_common \<times> ('tx, 'age) batches \<times> (scheduler_error + usize)) option"
where
  "send_batches send c b = send_batches_from send c b [0..<length (consume_work_senders c)] 0"

definition write_account_locks :: "('tx \<Rightarrow> pubkey list) \<Rightarrow> ('tx \<Rightarrow> nat \<Rightarrow> bool) \<Rightarrow> 'tx \<Rightarrow> pubkey list"
where
  "write_account_locks account_keys is_writable tx =
     map snd (filter (\<lambda>(i, key). is_writable tx i) (enumerate 0 (account_keys tx)))"

definition read_account_locks :: "('tx \<Rightarrow> pubkey list) \<Rightarrow> ('tx \<Rightarrow> nat \<Rightarrow> bool) \<Rightarrow> 'tx \<Rightarrow> pubkey list"
where
  "read_account_locks account_keys is_writable tx =
     map snd (filter (\<lambda>(i, key). \<not> is_writable tx i) (enumerate 0 (account_keys tx)))"

definition complete_batch ::
  "('tx \<Rightarrow> pubkey list) \<Rightarrow> ('tx \<Rightarrow> nat \<Rightarrow> bool) \<Rightarrow> ('chan, 'rx) scheduling_common \<Rightarrow> batch_id
    \<Rightarrow> 'tx list \<Rightarrow> ('chan, 'rx) scheduling_common option"
where
  "complete_batch keys wr c batch_id txs = do {
     (tr, i) \<leftarrow> tracker_complete_batch (tracker c) batch_id;
     l \<leftarrow> fold_opt (\<lambda>l tx. unlock_accounts l (write_account_locks keys wr tx)
       (read_account_locks keys wr tx) i) (account_locks c) txs;
     Some (c\<lparr>tracker := tr, account_locks := l\<rparr>) }"

datatype 'm try_recv = Received 'm | Recv_Empty | Recv_Disconnected

text \<open>
  The loop over the finished transactions: \<open>i\<close> is the index, \<open>rs\<close> what is left of the retryable
  indexes; a transaction is retried when its index is the next of them, and removed otherwise.
\<close>

fun finish_transactions ::
  "('c \<Rightarrow> usize \<Rightarrow> 'tx \<Rightarrow> 'c option) \<Rightarrow> ('c \<Rightarrow> usize \<Rightarrow> 'c option) \<Rightarrow> 'c \<Rightarrow> nat
    \<Rightarrow> (usize \<times> 'tx) list \<Rightarrow> nat list \<Rightarrow> 'c option"
where
  "finish_transactions retry remove c i [] rs = Some c"
| "finish_transactions retry remove c i ((tid, tx) # work) rs =
     (if rs \<noteq> [] \<and> hd rs = i
      then do { c' \<leftarrow> retry c tid tx; finish_transactions retry remove c' (i + 1) work (tl rs) }
      else do { c' \<leftarrow> remove c tid; finish_transactions retry remove c' (i + 1) work rs })"

definition try_receive_completed ::
  "('rx \<Rightarrow> ('tx, 'age) finished_consume_work try_recv \<times> 'rx)
    \<Rightarrow> ('c \<Rightarrow> usize \<Rightarrow> 'tx \<Rightarrow> 'c option) \<Rightarrow> ('c \<Rightarrow> usize \<Rightarrow> 'c option)
    \<Rightarrow> ('tx \<Rightarrow> pubkey list) \<Rightarrow> ('tx \<Rightarrow> nat \<Rightarrow> bool)
    \<Rightarrow> ('chan, 'rx) scheduling_common \<Rightarrow> 'c
    \<Rightarrow> (('chan, 'rx) scheduling_common \<times> 'c \<times> (scheduler_error + nat \<times> nat)) option"
where
  "try_receive_completed recv retry remove keys wr s c =
     (let (m, rx) = recv (finished_consume_work_receiver s);
          s' = s\<lparr>finished_consume_work_receiver := rx\<rparr>
      in case m of
        Received f \<Rightarrow> do {
          let work = f_work f;
          s'' \<leftarrow> complete_batch keys wr s' (w_batch_id work) (w_transactions work);
          c' \<leftarrow> finish_transactions retry remove c 0 (zip (w_ids work) (w_transactions work))
            (f_retryable_indexes f);
          Some (s'', c', Inr (length (w_ids work), length (f_retryable_indexes f))) }
      | Recv_Empty \<Rightarrow> Some (s', c, Inr (0, 0))
      | Recv_Disconnected \<Rightarrow> Some (s', c, Inl (DisconnectedRecvChannel ''finished consume work'')))"

section \<open>Choosing a thread: the least loaded, the lowest of equals\<close>

lemma min_by_first:
  fixes k :: "'a \<Rightarrow> 'b::linorder"
  assumes "xs \<noteq> []" "sorted_wrt R xs" "transp R" "\<And>a b. lt a b \<longleftrightarrow> k a < k b"
  shows "\<exists>m \<in> set xs. min_by lt xs = Some m \<and>
    (\<forall>y \<in> set xs. y = m \<or> k m < k y \<or> k m = k y \<and> R m y)"
  using assms
proof (induction lt xs rule: min_by.induct)
  case (3 lt x y ys)
  let ?h = "if lt y x then y else x"
  have "sorted_wrt R (?h # ys)" using 3(3) by auto
  from 3(1) [OF _ this 3(4,5)] obtain m where m: "m \<in> set (?h # ys)"
    "min_by lt (?h # ys) = Some m"
    "\<And>z. z \<in> set (?h # ys) \<Longrightarrow> z = m \<or> k m < k z \<or> k m = k z \<and> R m z" by auto
  have "z = m \<or> k m < k z \<or> k m = k z \<and> R m z" if "z \<in> set (x # y # ys)" for z
  proof (cases "z \<in> set (?h # ys)")
    case False
    have h: "?h = m \<or> k m < k ?h \<or> k m = k ?h \<and> R m ?h" by (rule m(3)) simp
    show ?thesis
    proof (cases "lt y x")
      case True
      with False that have "z = x" by auto
      with True h 3(5) show ?thesis by auto
    next
      case no: False
      with False that have "z = y" by auto
      moreover have "R x y" "k x \<le> k y" using 3(3,5) no by auto
      ultimately show ?thesis using h no 3(4) by (auto dest: transpD simp: not_less)
    qed
  qed (rule m(3))
  with m(1,2) show ?case by (intro bexI [of _ m]) (auto split: if_splits)
qed simp_all

lemma map_opt_eq: "(\<And>x. x \<in> set xs \<Longrightarrow> f x = Some (g x)) \<Longrightarrow> map_opt f xs = Some (map g xs)"
  by (induction xs) auto

text \<open>The load of thread \<open>i\<close>, compared by compute units and then by number of transactions.\<close>

definition load_of :: "u64 list \<Rightarrow> u64 list \<Rightarrow> 'tx list list \<Rightarrow> usize list \<Rightarrow> thread_id \<Rightarrow> u64 \<times> usize"
where
  "load_of bc fc bt f i = (bc ! i + fc ! i, of_nat (length (bt ! i)) + f ! i)"

lemma select_thread_spec:
  assumes ts: "members ts \<noteq> {}" "members ts \<subseteq> {..<n}"
    and len: "length bc = n" "length fc = n" "length bt = n" "length f = n"
  shows "\<exists>t \<in> members ts. select_thread ts bc fc bt f = Some t \<and>
    (\<forall>u \<in> members ts. load_of bc fc bt f t < load_of bc fc bt f u \<or>
       load_of bc fc bt f t = load_of bc fc bt f u \<and> t \<le> u)"
proof -
  let ?is = "contained_threads_iter ts" and ?l = "\<lambda>i. (i, load_of bc fc bt f i)"
  note it = contained_threads_iter_spec [of ts]
  have loads: "map_opt (thread_load bc fc bt f) ?is = Some (map ?l ?is)"
    using ts(2) it len by (intro map_opt_eq) (auto simp: thread_load_def load_of_def idx_def)
  have "\<exists>m \<in> set (map ?l ?is). min_by load_less (map ?l ?is) = Some m \<and>
    (\<forall>y \<in> set (map ?l ?is). y = m \<or> snd m < snd y \<or> snd m = snd y \<and> fst m < fst y)"
  proof (rule min_by_first)
    show "map ?l ?is \<noteq> []" using it ts(1) by auto
    show "sorted_wrt (\<lambda>a b. fst a < fst b) (map ?l ?is)" using it by (simp add: sorted_wrt_map)
    show "transp (\<lambda>a b :: thread_id \<times> u64 \<times> usize. fst a < fst b)" by (auto intro: transpI)
    show "load_less a b \<longleftrightarrow> snd a < snd b" for a b by (auto simp: load_less_def less_prod_def')
  qed
  then obtain m where m: "m \<in> set (map ?l ?is)" "min_by load_less (map ?l ?is) = Some m"
    "\<And>y. y \<in> set (map ?l ?is) \<Longrightarrow> y = m \<or> snd m < snd y \<or> snd m = snd y \<and> fst m < fst y"
    by blast
  from m(1) it obtain t where t: "m = ?l t" "t \<in> members ts" by auto
  have "load_of bc fc bt f t < load_of bc fc bt f u \<or>
    load_of bc fc bt f t = load_of bc fc bt f u \<and> t \<le> u" if "u \<in> members ts" for u
    using m(3) [of "?l u"] that it unfolding t(1) by auto
  moreover have "select_thread ts bc fc bt f = Some t"
    by (simp add: select_thread_def loads m(2) t(1) del: map_opt.simps)
  ultimately show ?thesis using t(2) by blast
qed

lemma select_thread_selects:
  assumes "length bc = n" "length fc = n" "length bt = n" "length f = n"
  shows "selects_member n (\<lambda>ts. select_thread ts bc fc bt f)"
  using select_thread_spec [OF _ _ assms] unfolding selects_member_def by blast

section \<open>The tracker is exact\<close>

text \<open>The sum of \<open>f\<close> over the tracked batches of thread \<open>i\<close>, in the arithmetic of the counters.\<close>

definition tracked_sum :: "(batch_entry \<Rightarrow> u64) \<Rightarrow> (batch_id \<rightharpoonup> batch_entry) \<Rightarrow> thread_id \<Rightarrow> u64" where
  "tracked_sum f m i = (\<Sum>b \<in> dom m. if be_thread_id (the (m b)) = i then f (the (m b)) else 0)"

lemma tracked_sum_empty [simp]: "tracked_sum f Map.empty i = 0"
  by (simp add: tracked_sum_def)

lemma tracked_sum_remove:
  assumes "finite (dom m)" "m b = Some e"
  shows "tracked_sum f m i =
    (if be_thread_id e = i then f e else 0) + tracked_sum f (m(b := None)) i"
proof -
  let ?g = "\<lambda>m b. if be_thread_id (the (m b)) = i then f (the (m b)) else 0"
  have "sum (?g m) (dom m) = ?g m b + sum (?g m) (dom m - {b})"
    using assms by (intro sum.remove) auto
  moreover have "sum (?g m) (dom m - {b}) = sum (?g (m(b := None))) (dom (m(b := None)))"
    by (intro sum.cong) auto
  ultimately show ?thesis using assms(2) by (simp add: tracked_sum_def)
qed

lemma tracked_sum_add:
  assumes "finite (dom m)" "m b = None"
  shows "tracked_sum f (m(b \<mapsto> e)) i = (if be_thread_id e = i then f e else 0) + tracked_sum f m i"
  using tracked_sum_remove [of "m(b \<mapsto> e)" b e f i] assms by (simp add: fun_upd_idem)

text \<open>The tracker of \<open>n\<close> threads after \<open>k\<close> batches have been given an id.\<close>

definition tracker_inv :: "nat \<Rightarrow> nat \<Rightarrow> in_flight_tracker \<Rightarrow> bool" where
  "tracker_inv n k t \<longleftrightarrow>
     length (num_in_flight_per_thread t) = n \<and> length (cus_in_flight_per_thread t) = n \<and>
     next_id (batch_id_gen t) = - of_nat k \<and>
     dom (tracked_batches t) \<subseteq> (\<lambda>j. - of_nat j) ` {..<k} \<and>
     (\<forall>e \<in> ran (tracked_batches t). be_thread_id e < n) \<and>
     (\<forall>i < n. num_in_flight_per_thread t ! i = tracked_sum be_num_transactions (tracked_batches t) i \<and>
        cus_in_flight_per_thread t ! i = tracked_sum be_total_cus (tracked_batches t) i)"

lemma tracker_inv_finite: "tracker_inv n k t \<Longrightarrow> finite (dom (tracked_batches t))"
  unfolding tracker_inv_def by (meson finite_imageI finite_lessThan finite_subset)

lemma tracker_inv_new: "tracker_inv n 0 (new_tracker n)"
  by (simp add: tracker_inv_def new_tracker_def batch_id_generator_default_def)

lemma tracker_id_fresh:
  assumes "tracker_inv n k t" "k < 2 ^ 64"
  shows "tracked_batches t (next_id (batch_id_gen t)) = None"
proof (rule ccontr)
  assume "tracked_batches t (next_id (batch_id_gen t)) \<noteq> None"
  then have "- of_nat k \<in> (\<lambda>j. - of_nat j :: u64) ` {..<k}"
    using assms(1) unfolding tracker_inv_def by (metis domIff subsetD)
  then obtain j where j: "j < k" "(of_nat k :: u64) = of_nat j" by auto
  have "k mod 2 ^ 64 = j mod 2 ^ 64"
    using arg_cong [OF j(2), of unat] by (simp only: unat_of_nat) simp
  with j(1) assms(2) show False by (simp only: mod_less)
qed

lemma tracker_invD:
  assumes "tracker_inv n k t"
  shows "length (num_in_flight_per_thread t) = n" "length (cus_in_flight_per_thread t) = n"
    "next_id (batch_id_gen t) = - of_nat k"
    "b \<in> dom (tracked_batches t) \<Longrightarrow> b \<in> (\<lambda>j. - of_nat j) ` {..<k}"
    "tracked_batches t b = Some e \<Longrightarrow> be_thread_id e < n"
    "i < n \<Longrightarrow> num_in_flight_per_thread t ! i = tracked_sum be_num_transactions (tracked_batches t) i"
    "i < n \<Longrightarrow> cus_in_flight_per_thread t ! i = tracked_sum be_total_cus (tracked_batches t) i"
  using assms by (auto simp: tracker_inv_def ran_def)

lemma track_batch_inv:
  assumes inv: "tracker_inv n k t" and "k < 2 ^ 64" and i: "i < n"
  shows "\<exists>t'. track_batch t num cus i = Some (t', next_id (batch_id_gen t)) \<and> tracker_inv n (Suc k) t' \<and>
    tracked_batches t' = (tracked_batches t)(next_id (batch_id_gen t) \<mapsto>
      \<lparr>be_thread_id = i, be_num_transactions = num, be_total_cus = cus\<rparr>)"
proof -
  note d = tracker_invD [OF inv]
  define m where "m = (tracked_batches t)(next_id (batch_id_gen t) \<mapsto>
    \<lparr>be_thread_id = i, be_num_transactions = num, be_total_cus = cus\<rparr>)"
  define t' where "t' = \<lparr>num_in_flight_per_thread =
      (num_in_flight_per_thread t)[i := num_in_flight_per_thread t ! i + num],
    cus_in_flight_per_thread = (cus_in_flight_per_thread t)[i := cus_in_flight_per_thread t ! i + cus],
    tracked_batches = m, batch_id_gen = \<lparr>next_id = - of_nat (Suc k)\<rparr>\<rparr>"
  have "track_batch t num cus i = Some (t', next_id (batch_id_gen t))"
    using i d(1-3) by (simp add: track_batch_def generator_next_def idx_lt t'_def m_def)
  moreover have sums: "tracked_sum f m j =
    (if j = i then f \<lparr>be_thread_id = i, be_num_transactions = num, be_total_cus = cus\<rparr> else 0)
     + tracked_sum f (tracked_batches t) j" for f j
    using tracked_sum_add [OF tracker_inv_finite [OF inv] tracker_id_fresh [OF assms(1,2)]]
    by (simp add: m_def)
  moreover have "dom m \<subseteq> (\<lambda>j. - of_nat j) ` {..<Suc k}"
    using d(3) d(4) by (auto simp: m_def lessThan_Suc)
  moreover have "\<forall>e \<in> ran m. be_thread_id e < n" using d(5) i by (auto simp: m_def ran_def split: if_splits)
  moreover have "num_in_flight_per_thread t' ! j = tracked_sum be_num_transactions m j"
    "cus_in_flight_per_thread t' ! j = tracked_sum be_total_cus m j" if "j < n" for j
    unfolding sums using d(1,2) d(6,7) [OF that] i that by (simp_all add: t'_def nth_list_update)
  ultimately show ?thesis using d(1,2)
    by (intro exI [of _ t']) (simp add: tracker_inv_def t'_def m_def)
qed

lemma complete_batch_inv:
  assumes inv: "tracker_inv n k t" and b: "tracked_batches t b = Some e"
  shows "\<exists>t'. tracker_complete_batch t b = Some (t', be_thread_id e) \<and> tracker_inv n k t' \<and>
    tracked_batches t' = (tracked_batches t)(b := None)"
proof -
  note d = tracker_invD [OF inv]
  define m where "m = (tracked_batches t)(b := None)"
  define i where "i = be_thread_id e"
  define t' where "t' = t\<lparr>num_in_flight_per_thread :=
      (num_in_flight_per_thread t)[i := num_in_flight_per_thread t ! i - be_num_transactions e],
    cus_in_flight_per_thread :=
      (cus_in_flight_per_thread t)[i := cus_in_flight_per_thread t ! i - be_total_cus e],
    tracked_batches := m\<rparr>"
  have i: "i < n" using d(5) [OF b] by (simp add: i_def)
  then have "tracker_complete_batch t b = Some (t', be_thread_id e)"
    using b d(1,2) by (simp add: tracker_complete_batch_def idx_lt t'_def m_def i_def Let_def)
  moreover have sums: "tracked_sum f (tracked_batches t) j =
    (if j = i then f e else 0) + tracked_sum f m j" for f j
    using tracked_sum_remove [OF tracker_inv_finite [OF inv] b] by (simp add: m_def i_def)
  moreover have "dom m \<subseteq> (\<lambda>j. - of_nat j) ` {..<k}" using d(4) by (auto simp: m_def)
  moreover have "\<forall>e \<in> ran m. be_thread_id e < n" using d(5) by (auto simp: m_def ran_def split: if_splits)
  moreover have "num_in_flight_per_thread t' ! j = tracked_sum be_num_transactions m j"
    "cus_in_flight_per_thread t' ! j = tracked_sum be_total_cus m j" if "j < n" for j
    using d(1,2) d(6,7) [OF that] sums [of _ j] i that by (simp_all add: t'_def nth_list_update)
  ultimately show ?thesis using d(1-3)
    by (intro exI [of _ t']) (simp add: tracker_inv_def t'_def m_def)
qed

section \<open>Runs of the scheduler\<close>

text \<open>What transaction \<open>tx\<close> locks on thread \<open>i\<close>; the locks of the batches being filled and of the work sent.\<close>

definition tx_batch :: "('tx \<Rightarrow> pubkey list) \<Rightarrow> ('tx \<Rightarrow> nat \<Rightarrow> bool) \<Rightarrow> thread_id \<Rightarrow> 'tx \<Rightarrow> batch" where
  "tx_batch keys wr i tx = (i, write_account_locks keys wr tx, read_account_locks keys wr tx)"

definition tx_batches ::
  "('tx \<Rightarrow> pubkey list) \<Rightarrow> ('tx \<Rightarrow> nat \<Rightarrow> bool) \<Rightarrow> thread_id \<Rightarrow> 'tx list \<Rightarrow> batch multiset"
where
  "tx_batches keys wr i txs = image_mset (tx_batch keys wr i) (mset txs)"

definition filling ::
  "('tx \<Rightarrow> pubkey list) \<Rightarrow> ('tx \<Rightarrow> nat \<Rightarrow> bool) \<Rightarrow> ('tx, 'age) batches \<Rightarrow> batch multiset"
where
  "filling keys wr b = (\<Sum>i < length (b_transactions b). tx_batches keys wr i (b_transactions b ! i))"

type_synonym 'tx outstanding = "batch_id \<rightharpoonup> thread_id \<times> 'tx list"

definition in_flight ::
  "('tx \<Rightarrow> pubkey list) \<Rightarrow> ('tx \<Rightarrow> nat \<Rightarrow> bool) \<Rightarrow> 'tx outstanding \<Rightarrow> batch multiset"
where
  "in_flight keys wr W = (\<Sum>b \<in> dom W. tx_batches keys wr (fst (the (W b))) (snd (the (W b))))"

text \<open>
  A run of \<^verbatim>\<open>SchedulingCommon\<close> as a scheduler uses it: a transaction is locked on the thread that
  \<^verbatim>\<open>select_thread\<close> picks and put in that thread's batch; a batch is sent; a batch that was sent
  comes back complete. \<open>W\<close> is the work sent and not yet back, \<open>k\<close> the number of batches sent so
  far, which is the number of ids used.
\<close>

inductive sched_run ::
  "('tx \<Rightarrow> pubkey list) \<Rightarrow> ('tx \<Rightarrow> nat \<Rightarrow> bool)
    \<Rightarrow> ('chan \<Rightarrow> ('tx, 'age) consume_work \<Rightarrow> 'chan option) \<Rightarrow> nat
    \<Rightarrow> ('chan, 'rx) scheduling_common \<Rightarrow> ('tx, 'age) batches \<Rightarrow> 'tx outstanding \<Rightarrow> nat \<Rightarrow> bool"
  for keys wr send n
where
  start: "new_common senders rx = Some c \<Longrightarrow> length senders = n \<Longrightarrow>
    sched_run keys wr send n c (new_batches n) Map.empty 0"
| schedule: "sched_run keys wr send n c b W k \<Longrightarrow>
    tal_room (add_mset (tx_batch keys wr t tx) (filling keys wr b + in_flight keys wr W)) \<Longrightarrow>
    try_lock_accounts (account_locks c) (write_account_locks keys wr tx)
      (read_account_locks keys wr tx) allowed
      (\<lambda>ts. select_thread ts (b_total_cus b) (cus_in_flight_per_thread (tracker c))
         (b_transactions b) (num_in_flight_per_thread (tracker c))) = Some (l, Inr t) \<Longrightarrow>
    add_transaction_to_batch b t tid tx age cus = Some b' \<Longrightarrow>
    sched_run keys wr send n (c\<lparr>account_locks := l\<rparr>) b' W k"
| skip: "sched_run keys wr send n c b W k \<Longrightarrow> i < n \<Longrightarrow> b_ids b ! i = [] \<Longrightarrow>
    send_batch send c b i = Some (c', b', Inr m) \<Longrightarrow> sched_run keys wr send n c' b' W k"
| send: "sched_run keys wr send n c b W k \<Longrightarrow> k < 2 ^ 64 \<Longrightarrow> i < n \<Longrightarrow> b_ids b ! i \<noteq> [] \<Longrightarrow>
    send_batch send c b i = Some (c', b', Inr m) \<Longrightarrow>
    sched_run keys wr send n c' b'
      (W(next_id (batch_id_gen (tracker c)) \<mapsto> (i, b_transactions b ! i))) (Suc k)"
| complete: "sched_run keys wr send n c b W k \<Longrightarrow> W bid = Some (i, txs) \<Longrightarrow>
    complete_batch keys wr c bid txs = Some c' \<Longrightarrow>
    sched_run keys wr send n c' b (W(bid := None)) k"

definition sched_inv ::
  "('tx \<Rightarrow> pubkey list) \<Rightarrow> ('tx \<Rightarrow> nat \<Rightarrow> bool) \<Rightarrow> nat \<Rightarrow> ('chan, 'rx) scheduling_common
    \<Rightarrow> ('tx, 'age) batches \<Rightarrow> 'tx outstanding \<Rightarrow> nat \<Rightarrow> bool"
where
  "sched_inv keys wr n c b W k \<longleftrightarrow>
     length (consume_work_senders c) = n \<and> tracker_inv n k (tracker c) \<and>
     length (b_ids b) = n \<and> length (b_transactions b) = n \<and> length (b_max_ages b) = n \<and>
     length (b_total_cus b) = n \<and>
     (\<forall>i < n. length (b_ids b ! i) = length (b_transactions b ! i)) \<and>
     map_option (\<lambda>e. (be_thread_id e, be_num_transactions e)) \<circ> tracked_batches (tracker c) =
       map_option (\<lambda>(i, txs). (i, of_nat (length txs))) \<circ> W \<and>
     (\<exists>s0. new_locks n = Some s0 \<and>
        tal_run s0 (account_locks c) (filling keys wr b + in_flight keys wr W))"

lemma sched_invD:
  assumes "sched_inv keys wr n c b W k"
  shows "length (consume_work_senders c) = n" "tracker_inv n k (tracker c)"
    "length (b_ids b) = n" "length (b_transactions b) = n" "length (b_max_ages b) = n"
    "length (b_total_cus b) = n"
    "i < n \<Longrightarrow> length (b_ids b ! i) = length (b_transactions b ! i)"
    "map_option (\<lambda>e. (be_thread_id e, be_num_transactions e)) (tracked_batches (tracker c) bid) =
       map_option (\<lambda>(i, txs). (i, of_nat (length txs))) (W bid)"
  using assms by (auto simp: sched_inv_def fun_eq_iff)

lemma sum_update:
  fixes f :: "nat \<Rightarrow> 'a \<Rightarrow> 'b::comm_monoid_add"
  assumes "t < length xs"
  shows "(\<Sum>i < length xs. f i (xs[t := v] ! i)) + f t (xs ! t) = f t v + (\<Sum>i < length xs. f i (xs ! i))"
proof -
  have "(\<Sum>i < length xs. f i (ys ! i)) = f t (ys ! t) + (\<Sum>i \<in> {..<length xs} - {t}. f i (ys ! i))"
    for ys using assms by (intro sum.remove) auto
  moreover have "(\<Sum>i \<in> {..<length xs} - {t}. f i (xs[t := v] ! i)) =
    (\<Sum>i \<in> {..<length xs} - {t}. f i (xs ! i))"
    by (intro sum.cong) auto
  ultimately show ?thesis using assms by (simp add: ac_simps)
qed

lemma filling_new: "filling keys wr (new_batches n) = {#}"
  by (simp add: filling_def new_batches_def tx_batches_def)

lemma in_flight_empty [simp]: "in_flight keys wr (\<lambda>_. None) = {#}"
  by (simp add: in_flight_def)

lemma filling_add:
  assumes "t < length (b_transactions b)"
    "b_transactions b' = (b_transactions b)[t := b_transactions b ! t @ [tx]]"
  shows "filling keys wr b' = add_mset (tx_batch keys wr t tx) (filling keys wr b)"
  using sum_update [OF assms(1), of "tx_batches keys wr" "b_transactions b ! t @ [tx]"] assms(2)
  by (simp add: filling_def tx_batches_def)

lemma filling_take:
  assumes "t < length (b_transactions b)" "b_transactions b' = (b_transactions b)[t := []]"
  shows "filling keys wr b = tx_batches keys wr t (b_transactions b ! t) + filling keys wr b'"
  using sum_update [OF assms(1), of "tx_batches keys wr" "[]"] assms(2)
  by (simp add: filling_def tx_batches_def add.commute)

lemma in_flight_remove:
  assumes "finite (dom W)" "W bid = Some (i, txs)"
  shows "in_flight keys wr W = tx_batches keys wr i txs + in_flight keys wr (W(bid := None))"
proof -
  let ?g = "\<lambda>W b. tx_batches keys wr (fst (the (W b))) (snd (the (W b)))"
  have "sum (?g W) (dom W) = ?g W bid + sum (?g W) (dom W - {bid})"
    using assms by (intro sum.remove) (simp_all add: domI)
  moreover have "sum (?g W) (dom W - {bid}) = sum (?g (W(bid := None))) (dom (W(bid := None)))"
    by (rule sum.cong) simp_all
  ultimately show ?thesis using assms(2) by (simp only: in_flight_def option.sel fst_conv snd_conv)
qed

lemma in_flight_add:
  assumes "finite (dom W)" "W bid = None"
  shows "in_flight keys wr (W(bid \<mapsto> (i, txs))) = tx_batches keys wr i txs + in_flight keys wr W"
  using in_flight_remove [of "W(bid \<mapsto> (i, txs))" bid i txs] assms by (simp add: fun_upd_idem)

lemma sched_inv_dom:
  assumes "sched_inv keys wr n c b W k"
  shows "dom W = dom (tracked_batches (tracker c))" "finite (dom W)"
proof -
  have "W bid = None \<longleftrightarrow> tracked_batches (tracker c) bid = None" for bid
    using sched_invD(8) [OF assms, of bid] by (cases "W bid") auto
  then show "dom W = dom (tracked_batches (tracker c))" by (auto simp: dom_def)
  with tracker_inv_finite [OF sched_invD(2) [OF assms]] show "finite (dom W)" by simp
qed

text \<open>Unlocking the transactions of a batch one after the other.\<close>

lemma unlock_batch:
  assumes "new_locks n = Some s0" "tal_run s0 l (tx_batches keys wr i txs + B)"
  shows "\<exists>l'. fold_opt (\<lambda>l tx. unlock_accounts l (write_account_locks keys wr tx)
    (read_account_locks keys wr tx) i) l txs = Some l' \<and> tal_run s0 l' B"
  using assms(2)
proof (induction txs arbitrary: l)
  case Nil
  then show ?case by (simp add: tx_batches_def)
next
  case (Cons tx txs)
  have "tal_run s0 l (add_mset (tx_batch keys wr i tx) (tx_batches keys wr i txs + B))"
    using Cons.prems by (simp add: tx_batches_def)
  from tal.run_give [OF this] assms(1) obtain l' where l':
    "tal_give l (tx_batch keys wr i tx) = Some l'" "tal_run s0 l' (tx_batches keys wr i txs + B)"
    by blast
  from Cons.IH [OF l'(2)] l'(1) show ?case by (auto simp: tal_give_def tx_batch_def)
qed

section \<open>Every operation keeps the invariant\<close>

lemma start_inv:
  assumes "new_common senders rx = Some c" "length senders = n"
  shows "sched_inv keys wr n c (new_batches n) Map.empty 0"
proof -
  obtain l where l: "new_locks n = Some l"
    "c = \<lparr>consume_work_senders = senders, finished_consume_work_receiver = rx,
      tracker = new_tracker n, account_locks = l\<rparr>"
    using assms by (auto simp: new_common_def Let_def bind_eq_Some_conv split: if_splits)
  have "tal_run l l (filling keys wr (new_batches n) + in_flight keys wr Map.empty)"
    by (simp add: filling_new lock_run.start)
  moreover have "tracked_batches (new_tracker n) = Map.empty" by (simp add: new_tracker_def)
  ultimately show ?thesis using l(1) assms(2) tracker_inv_new [of n]
    unfolding sched_inv_def l(2) by (simp add: new_batches_def fun_eq_iff)
qed

lemma scheduled_inv:
  assumes inv: "sched_inv keys wr n c b W k"
    and room: "tal_room (add_mset (tx_batch keys wr t tx) (filling keys wr b + in_flight keys wr W))"
    and tr: "try_lock_accounts (account_locks c) (write_account_locks keys wr tx)
      (read_account_locks keys wr tx) allowed
      (\<lambda>ts. select_thread ts (b_total_cus b) (cus_in_flight_per_thread (tracker c))
         (b_transactions b) (num_in_flight_per_thread (tracker c))) = Some (l, Inr t)"
  shows "\<exists>b'. add_transaction_to_batch b t tid tx age cus = Some b' \<and>
    sched_inv keys wr n (c\<lparr>account_locks := l\<rparr>) b' W k"
proof -
  note d = sched_invD [OF inv] and trd = tracker_invD [OF sched_invD(2) [OF inv]]
  let ?B = "filling keys wr b + in_flight keys wr W"
  obtain s0 where s0: "new_locks n = Some s0" "tal_run s0 (account_locks c) ?B"
    using inv by (auto simp: sched_inv_def)
  note rep = tal_run_rep [OF s0]
  have sel: "selects_member n (\<lambda>ts. select_thread ts (b_total_cus b)
    (cus_in_flight_per_thread (tracker c)) (b_transactions b) (num_in_flight_per_thread (tracker c)))"
    using d trd by (intro select_thread_selects) auto
  have "t \<in> fitting_threads (num_threads (account_locks c)) (all_holds ?B)
    (write_account_locks keys wr tx) (read_account_locks keys wr tx) \<inter> members allowed \<and>
    lock_accounts (account_locks c) (write_account_locks keys wr tx)
      (read_account_locks keys wr tx) t = Some l"
  proof (rule try_lock_accounts_granted [OF conjunct1 [OF rep] _ tr])
    fix ts t
    assume *: "select_thread ts (b_total_cus b) (cus_in_flight_per_thread (tracker c))
      (b_transactions b) (num_in_flight_per_thread (tracker c)) = Some t"
      "members ts \<noteq> {}" "members ts \<subseteq> {..<num_threads (account_locks c)}"
    with sel rep show "t \<in> members ts" unfolding selects_member_def by (metis option.inject)
  qed
  then have t: "t < n" using rep by (simp add: fitting_threads_def)
  have grant: "tal_grant (account_locks c) (tx_batch keys wr t tx) l"
    using tr sel rep by (auto simp: tal_grant_def tx_batch_def)
  have run: "tal_run s0 l (add_mset (tx_batch keys wr t tx) ?B)"
    using lock_run.grant [OF s0(2) room grant] .
  define b' where "b' = \<lparr>b_ids = (b_ids b)[t := b_ids b ! t @ [tid]],
    b_transactions = (b_transactions b)[t := b_transactions b ! t @ [tx]],
    b_max_ages = (b_max_ages b)[t := b_max_ages b ! t @ [age]],
    b_total_cus = (b_total_cus b)[t := b_total_cus b ! t + cus]\<rparr>"
  have add: "add_transaction_to_batch b t tid tx age cus = Some b'"
    using t d by (simp add: add_transaction_to_batch_def idx_lt b'_def)
  have "filling keys wr b' = add_mset (tx_batch keys wr t tx) (filling keys wr b)"
    using t d by (intro filling_add) (simp_all add: b'_def)
  then have "tal_run s0 (account_locks (c\<lparr>account_locks := l\<rparr>))
    (filling keys wr b' + in_flight keys wr W)" using run by simp
  moreover have "length (b_ids b') = n" "length (b_transactions b') = n" "length (b_max_ages b') = n"
    "length (b_total_cus b') = n" "\<And>i. i < n \<Longrightarrow> length (b_ids b' ! i) = length (b_transactions b' ! i)"
    using d t by (simp_all add: b'_def nth_list_update)
  ultimately have "sched_inv keys wr n (c\<lparr>account_locks := l\<rparr>) b' W k"
    using d(1,2,8) s0(1) unfolding sched_inv_def by (simp add: fun_eq_iff)
  with add show ?thesis by blast
qed

lemma send_empty:
  "sched_inv keys wr n c b W k \<Longrightarrow> i < n \<Longrightarrow> b_ids b ! i = [] \<Longrightarrow> send_batch send c b i = Some (c, b, Inr 0)"
  using sched_invD(3) by (fastforce simp: send_batch_def idx_lt)

lemma send_inv:
  assumes inv: "sched_inv keys wr n c b W k" and k: "k < 2 ^ 64" and i: "i < n"
    and ne: "b_ids b ! i \<noteq> []"
  shows "\<exists>c' b' r. send_batch send c b i = Some (c', b', r) \<and>
    (r = Inl (DisconnectedSendChannel ''consume work sender'') \<or>
     r = Inr (of_nat (length (b_transactions b ! i))) \<and>
     sched_inv keys wr n c' b' (W(next_id (batch_id_gen (tracker c)) \<mapsto> (i, b_transactions b ! i)))
       (Suc k))"
proof -
  note d = sched_invD [OF inv]
  let ?id = "next_id (batch_id_gen (tracker c))" and ?txs = "b_transactions b ! i"
  define b' where "b' = \<lparr>b_ids = (b_ids b)[i := []], b_transactions = (b_transactions b)[i := []],
    b_max_ages = (b_max_ages b)[i := []], b_total_cus = (b_total_cus b)[i := 0]\<rparr>"
  have tk: "take_batch b i = Some (b', b_ids b ! i, ?txs, b_max_ages b ! i, b_total_cus b ! i)"
    using i d by (simp add: take_batch_def idx_lt b'_def)
  obtain t' where t': "track_batch (tracker c) (of_nat (length ?txs)) (b_total_cus b ! i) i = Some (t', ?id)"
    "tracker_inv n (Suc k) t'" "tracked_batches t' = (tracked_batches (tracker c))(?id \<mapsto>
      \<lparr>be_thread_id = i, be_num_transactions = of_nat (length ?txs), be_total_cus = b_total_cus b ! i\<rparr>)"
    using track_batch_inv [OF d(2) k i] by blast
  define work where "work = \<lparr>w_batch_id = ?id, w_ids = b_ids b ! i, w_transactions = ?txs,
    w_max_ages = b_max_ages b ! i\<rparr>"
  have sb: "send_batch send c b i = Some (case send (consume_work_senders c ! i) work of
      None \<Rightarrow> (c\<lparr>tracker := t'\<rparr>, b', Inl (DisconnectedSendChannel ''consume work sender''))
    | Some s \<Rightarrow> (c\<lparr>tracker := t', consume_work_senders := (consume_work_senders c)[i := s]\<rparr>, b',
        Inr (of_nat (length ?txs))))"
    using i ne d(1,3) d(7) [OF i] t'(1) by (simp add: send_batch_def idx_lt tk work_def Let_def cong: option.case_cong)
  have W: "W ?id = None"
    using sched_inv_dom(1) [OF inv] tracker_id_fresh [OF d(2) k] by (metis domIff)
  have eq: "filling keys wr b' + in_flight keys wr (W(?id \<mapsto> (i, ?txs))) =
    filling keys wr b + in_flight keys wr W"
    using in_flight_add [OF sched_inv_dom(2) [OF inv] W] filling_take [of i b b' keys wr] i d(4)
    by (simp add: b'_def ac_simps)
  have "sched_inv keys wr n (c\<lparr>tracker := t', consume_work_senders := (consume_work_senders c)[i := s]\<rparr>) b'
    (W(?id \<mapsto> (i, ?txs))) (Suc k)" for s
    using inv t'(2,3) i unfolding sched_inv_def eq
    by (simp add: b'_def fun_eq_iff nth_list_update)
  with sb show ?thesis by (cases "send (consume_work_senders c ! i) work") simp_all
qed

lemma complete_inv:
  assumes inv: "sched_inv keys wr n c b W k" and W: "W bid = Some (i, txs)"
  shows "\<exists>c'. complete_batch keys wr c bid txs = Some c' \<and> sched_inv keys wr n c' b (W(bid := None)) k"
proof -
  note d = sched_invD [OF inv]
  obtain e where e: "tracked_batches (tracker c) bid = Some e" "be_thread_id e = i"
    using d(8) [of bid] W by auto
  obtain t' where t': "tracker_complete_batch (tracker c) bid = Some (t', i)" "tracker_inv n k t'"
    "tracked_batches t' = (tracked_batches (tracker c))(bid := None)"
    using complete_batch_inv [OF d(2) e(1)] e(2) by blast
  let ?B = "filling keys wr b + in_flight keys wr (W(bid := None))"
  obtain s0 where s0: "new_locks n = Some s0"
    "tal_run s0 (account_locks c) (tx_batches keys wr i txs + ?B)"
    using inv in_flight_remove [OF sched_inv_dom(2) [OF inv] W] by (auto simp: sched_inv_def ac_simps)
  obtain l where l: "fold_opt (\<lambda>l tx. unlock_accounts l (write_account_locks keys wr tx)
    (read_account_locks keys wr tx) i) (account_locks c) txs = Some l" "tal_run s0 l ?B"
    using unlock_batch [OF s0] by blast
  have "complete_batch keys wr c bid txs = Some (c\<lparr>tracker := t', account_locks := l\<rparr>)"
    using t'(1) l(1) by (simp add: complete_batch_def)
  moreover have "sched_inv keys wr n (c\<lparr>tracker := t', account_locks := l\<rparr>) b (W(bid := None)) k"
    using inv t'(2,3) l(2) s0(1) unfolding sched_inv_def by (simp add: fun_eq_iff)
  ultimately show ?thesis by blast
qed

lemma sched_run_inv: "sched_run keys wr send n c b W k \<Longrightarrow> sched_inv keys wr n c b W k"
proof (induction rule: sched_run.induct)
  case (start senders rx c)
  then show ?case by (rule start_inv)
next
  case (schedule c b W k t tx allowed l tid age cus b')
  from scheduled_inv [OF schedule.IH schedule.hyps(2,3), of tid age cus] schedule.hyps(4) show ?case by auto
next
  case (skip c b W k i c' b' m)
  from send_empty [OF skip.IH skip.hyps(2,3)] skip.hyps(4) skip.IH show ?case by simp
next
  case (send c b W k i c' b' m)
  from send_inv [OF send.IH send.hyps(2-4), where send = send] obtain c1 b1 r where
    s: "send_batch send c b i = Some (c1, b1, r)"
    "r = Inl (DisconnectedSendChannel ''consume work sender'') \<or>
     r = Inr (of_nat (length (b_transactions b ! i))) \<and>
     sched_inv keys wr n c1 b1 (W(next_id (batch_id_gen (tracker c)) \<mapsto> (i, b_transactions b ! i)))
       (Suc k)" by blast
  moreover from s(1) send.hyps(5) have "c1 = c'" "b1 = b'" "r = Inr m" by simp_all
  ultimately show ?case by blast
next
  case (complete c b W k bid i txs c')
  from complete_inv [OF complete.IH complete.hyps(2)] obtain c1 where
    "complete_batch keys wr c bid txs = Some c1" "sched_inv keys wr n c1 b (W(bid := None)) k" by blast
  moreover from this(1) complete.hyps(3) have "c1 = c'" by simp
  ultimately show ?case by blast
qed

lemma sched_run_tal:
  "sched_run keys wr send n c b W k \<Longrightarrow>
    \<exists>s0. new_locks n = Some s0 \<and> tal_run s0 (account_locks c) (filling keys wr b + in_flight keys wr W)"
  using sched_run_inv unfolding sched_inv_def by blast

lemma in_flight_mem:
  assumes "finite (dom W)" "W bid = Some (i, txs)" "tx \<in> set txs"
  shows "tx_batch keys wr i tx \<in># in_flight keys wr W"
  using assms(3) by (auto simp: in_flight_remove [OF assms(1,2)] tx_batches_def)

lemma tracked_sum_outstanding:
  assumes "map_option (\<lambda>e. (be_thread_id e, be_num_transactions e)) \<circ> m =
    map_option (\<lambda>(i, txs). (i, of_nat (length txs))) \<circ> W"
  shows "tracked_sum be_num_transactions m i =
    of_nat (\<Sum>b \<in> dom W. if fst (the (W b)) = i then length (snd (the (W b))) else 0)"
proof -
  have eq: "map_option (\<lambda>e. (be_thread_id e, be_num_transactions e)) (m b) =
    map_option (\<lambda>(i, txs). (i, of_nat (length txs))) (W b)" for b
    using assms by (simp add: fun_eq_iff)
  have "m b = None \<longleftrightarrow> W b = None" for b using eq [of b] by (cases "W b") auto
  then have "dom m = dom W" by (auto simp: dom_def)
  moreover have "(if be_thread_id (the (m b)) = i then be_num_transactions (the (m b)) else 0) =
    of_nat (if fst (the (W b)) = i then length (snd (the (W b))) else 0)" if "b \<in> dom W" for b
    using eq [of b] that by (cases "m b") (auto simp: dom_def)
  ultimately show ?thesis by (simp add: tracked_sum_def)
qed

lemma finish_transactions_from:
  "sorted_wrt (<) rs \<Longrightarrow> \<forall>r \<in> set rs. i \<le> r \<Longrightarrow>
    finish_transactions retry remove c i work rs =
      fold_opt (\<lambda>c (j, tid, tx). if j \<in> set rs then retry c tid tx else remove c tid) c (enumerate i work)"
proof (induction retry remove c i work rs rule: finish_transactions.induct)
  case (2 retry remove c i tid tx work rs)
  show ?case
  proof (cases "rs \<noteq> [] \<and> hd rs = i")
    case True
    then obtain rs' where rs: "rs = i # rs'" by (cases rs) auto
    have s: "sorted_wrt (<) rs'" "\<forall>r \<in> set rs'. i + 1 \<le> r" using 2(3) by (auto simp: rs)
    have "fold_opt (\<lambda>c (j, tid, tx). if j \<in> set rs then retry c tid tx else remove c tid) x
        (enumerate (i + 1) work) =
      fold_opt (\<lambda>c (j, tid, tx). if j \<in> set rs' then retry c tid tx else remove c tid) x
        (enumerate (i + 1) work)" for x
      by (rule fold_opt_cong) (auto simp: rs in_set_enumerate_eq)
    with 2(1) [OF True] s True show ?thesis by (cases "retry c tid tx") (simp_all add: rs)
  next
    case False
    have "i \<notin> set rs" using False 2(3,4) by (cases rs) auto
    moreover from this 2(4) have "\<forall>r \<in> set rs. i + 1 \<le> r" by (metis Suc_eq_plus1 Suc_leI le_neq_implies_less)
    ultimately show ?thesis using 2(2) [OF False] 2(3) False by (cases "remove c tid") auto
  qed
qed simp

section \<open>Extending runs\<close>

lemma sched_extend:
  fixes c :: "('chan, 'rx) scheduling_common"
  assumes run: "sched_run keys wr send n c b W k"
    and t: "t \<in> fitting_threads n (all_holds (filling keys wr b + in_flight keys wr W))
      (write_account_locks keys wr tx) (read_account_locks keys wr tx)"
    and size: "size (all_holds (filling keys wr b + in_flight keys wr W)) +
      length (write_account_locks keys wr tx) + length (read_account_locks keys wr tx) < 2 ^ 32"
  shows "\<exists>(c' :: ('chan, 'rx) scheduling_common) b'. sched_run keys wr send n c' b' W k \<and>
    add_transaction_to_batch b t tid tx age cus = Some b'"
proof -
  let ?sel = "\<lambda>ts. select_thread ts (b_total_cus b) (cus_in_flight_per_thread (tracker c))
    (b_transactions b) (num_in_flight_per_thread (tracker c))"
  note inv = sched_run_inv [OF run] and d = sched_invD [OF sched_run_inv [OF run]]
  obtain s0 where s0: "new_locks n = Some s0"
    "tal_run s0 (account_locks c) (filling keys wr b + in_flight keys wr W)"
    using sched_run_tal [OF run] by blast
  note rep = tal_run_rep [OF s0]
  have sel: "\<exists>t \<in> members ts. ?sel ts = Some t"
    if "members ts \<noteq> {}" "members ts \<subseteq> {..<num_threads (account_locks c)}" for ts
    using select_thread_selects d(4,6) tracker_invD(1,2) [OF d(2)] that rep
    unfolding selects_member_def by metis
  have t64: "t < 64" using t tal_repD(4) [OF conjunct1 [OF rep]] rep by (simp add: fitting_threads_def)
  have "fitting_threads n (all_holds (filling keys wr b + in_flight keys wr W))
    (write_account_locks keys wr tx) (read_account_locks keys wr tx) \<inter> members (ts_only t) = {t}"
    using t t64 by (auto simp: members_only)
  then obtain l where l: "try_lock_accounts (account_locks c) (write_account_locks keys wr tx)
    (read_account_locks keys wr tx) (ts_only t) ?sel = Some (l, Inr t)"
    using try_lock_accounts_rep [OF conjunct1 [OF rep] size sel, of "ts_only t"] t rep
    by (auto split: if_splits)
  have room: "tal_room (add_mset (tx_batch keys wr t tx) (filling keys wr b + in_flight keys wr W))"
    using size by (simp add: tal_room_def tx_batch_def)
  obtain b' where add: "add_transaction_to_batch b t tid tx age cus = Some b'"
    using scheduled_inv [OF inv room l, of tid age cus] by blast
  from sched_run.schedule [OF run room l add] add show ?thesis by blast
qed

lemma sched_send:
  fixes c :: "('chan, 'rx) scheduling_common"
  assumes run: "sched_run keys wr send n c b W k" and "k < 2 ^ 64" "i < n" "b_ids b ! i \<noteq> []"
    and "\<And>ch w. send ch w = Some (f ch w)"
  shows "\<exists>(c' :: ('chan, 'rx) scheduling_common) b'. sched_run keys wr send n c' b' (W(- of_nat k \<mapsto> (i, b_transactions b ! i))) (Suc k) \<and>
    b_transactions b' = (b_transactions b)[i := []] \<and> b_ids b' = (b_ids b)[i := []]"
proof -
  note inv = sched_run_inv [OF run]
  obtain c' b' r where s: "send_batch send c b i = Some (c', b', r)"
    using send_inv [OF inv assms(2-4), of send] by blast
  then obtain m where m: "r = Inr m" "b_transactions b' = (b_transactions b)[i := []]"
    "b_ids b' = (b_ids b)[i := []]"
    using assms(4,5)
    by (auto simp: send_batch_def take_batch_def Let_def bind_eq_Some_conv split: option.splits)
  have "next_id (batch_id_gen (tracker c)) = - of_nat k"
    using tracker_invD(3) [OF sched_invD(2) [OF inv]] .
  with sched_run.send [OF run assms(2-4) s [unfolded m(1)]] m(2,3) show ?thesis by auto
qed

section \<open>A concrete run\<close>

text \<open>
  Transactions as lists of account references; channels as lists that take every message. Two
  worker threads, one transaction sent to each, the second reading what the first reads.
\<close>

type_synonym demo_tx = "(pubkey \<times> bool) list"

definition demo_keys :: "demo_tx \<Rightarrow> pubkey list" where
  "demo_keys tx = map fst tx"

definition demo_writable :: "demo_tx \<Rightarrow> nat \<Rightarrow> bool" where
  "demo_writable tx i = snd (tx ! i)"

definition demo_send ::
  "(demo_tx, unit) consume_work list \<Rightarrow> (demo_tx, unit) consume_work
    \<Rightarrow> (demo_tx, unit) consume_work list option"
where
  "demo_send q w = Some (q @ [w])"

definition demo_tx1 :: demo_tx where "demo_tx1 = [(1, True), (2, False)]"

definition demo_tx2 :: demo_tx where "demo_tx2 = [(3, True), (2, False)]"

definition demo_out :: "demo_tx outstanding" where
  "demo_out = [0 \<mapsto> (0, [demo_tx1]), - 1 \<mapsto> (1, [demo_tx2])]"

abbreviation demo_sched_run ::
  "((demo_tx, unit) consume_work list, unit) scheduling_common \<Rightarrow> (demo_tx, unit) batches
    \<Rightarrow> demo_tx outstanding \<Rightarrow> nat \<Rightarrow> bool"
where
  "demo_sched_run \<equiv> sched_run demo_keys demo_writable demo_send 2"

lemma demo_locks:
  "write_account_locks demo_keys demo_writable demo_tx1 = [1]"
  "read_account_locks demo_keys demo_writable demo_tx1 = [2]"
  "write_account_locks demo_keys demo_writable demo_tx2 = [3]"
  "read_account_locks demo_keys demo_writable demo_tx2 = [2]"
  by (simp_all add: write_account_locks_def read_account_locks_def demo_keys_def demo_writable_def
      demo_tx1_def demo_tx2_def)

lemma demo_sched:
  "\<exists>c b. demo_sched_run c b demo_out 2 \<and> b_transactions b = [[], []]"
proof -
  let ?k = demo_keys and ?w = demo_writable
  obtain c0 :: "((demo_tx, unit) consume_work list, unit) scheduling_common" where
    "new_common [[], []] () = Some c0"
    by (simp add: new_common_def new_locks_def)
  then have r0: "demo_sched_run c0 (new_batches 2) Map.empty 0" by (intro sched_run.start) auto
  have "0 \<in> fitting_threads 2 (all_holds (filling ?k ?w (new_batches 2) + in_flight ?k ?w Map.empty))
    (write_account_locks ?k ?w demo_tx1) (read_account_locks ?k ?w demo_tx1)"
    by (simp add: fitting_threads_def compatible_simps filling_new demo_locks)
  from sched_extend [OF r0 this, of 7 "()" 100] obtain c1 b1 where
    r1: "demo_sched_run c1 b1 Map.empty 0" and
    b1: "add_transaction_to_batch (new_batches 2) 0 7 demo_tx1 () 100 = Some b1"
    by (auto simp: filling_new demo_locks)
  have b1': "b_transactions b1 = [[demo_tx1], []]" "b_ids b1 = [[7], []]"
    using b1 by (auto simp: add_transaction_to_batch_def new_batches_def numeral_2_eq_2 bind_eq_Some_conv)
  obtain c2 b2 where r2: "demo_sched_run c2 b2 [0 \<mapsto> (0, [demo_tx1])] 1"
    and b2: "b_transactions b2 = [[], []]" "b_ids b2 = [[], []]"
    using sched_send [OF r1, of 0 "\<lambda>q w. q @ [w]"] b1' by (auto simp: demo_send_def)
  have f2: "filling ?k ?w b2 + in_flight ?k ?w [0 \<mapsto> (0, [demo_tx1])] = {#(0, [1], [2])#}"
    by (simp add: filling_def b2 tx_batches_def in_flight_def tx_batch_def demo_locks numeral_2_eq_2)
  have "1 \<in> fitting_threads 2 (all_holds (filling ?k ?w b2 + in_flight ?k ?w [0 \<mapsto> (0, [demo_tx1])]))
    (write_account_locks ?k ?w demo_tx2) (read_account_locks ?k ?w demo_tx2)"
    unfolding f2 demo_locks by (simp add: fitting_threads_def compatible_simps batch_holds_def)
  from sched_extend [OF r2 this, of 8 "()" 50] obtain c3 b3 where
    r3: "demo_sched_run c3 b3 [0 \<mapsto> (0, [demo_tx1])] 1" and
    b3: "add_transaction_to_batch b2 1 8 demo_tx2 () 50 = Some b3"
    unfolding f2 demo_locks by auto
  have b3': "b_transactions b3 = [[], [demo_tx2]]" "b_ids b3 = [[], [8]]"
    using b3 by (auto simp: add_transaction_to_batch_def b2 bind_eq_Some_conv)
  from sched_send [OF r3, of 1 "\<lambda>q w. q @ [w]"] b3' show ?thesis
    by (auto simp: demo_send_def demo_out_def numeral_2_eq_2 [symmetric])
qed

section \<open>Properties\<close>

text \<open>
  C20. Worker isolation. Whatever transactions are scheduled, batched, sent and completed, and in
  whatever order workers finish, two transactions that are with different worker threads at the
  same time never conflict on an account.
\<close>

theorem workers_never_conflict:
  assumes run: "sched_run keys wr send n c b W k"
    and "W bid = Some (i, txs)" "tx \<in> set txs" and "W bid' = Some (j, txs')" "tx' \<in> set txs'"
    and "i \<noteq> j"
  shows "\<not> conflicts
    (requests (write_account_locks keys wr tx) (read_account_locks keys wr tx))
    (requests (write_account_locks keys wr tx') (read_account_locks keys wr tx'))"
proof -
  obtain s0 where s0: "new_locks n = Some s0"
    "tal_run s0 (account_locks c) (filling keys wr b + in_flight keys wr W)"
    using sched_run_tal [OF run] by blast
  note mem = in_flight_mem [OF sched_inv_dom(2) [OF sched_run_inv [OF run]]]
  let ?H = "filling keys wr b + in_flight keys wr W"
  have m: "tx_batch keys wr i tx \<in># ?H" "tx_batch keys wr j tx' \<in># ?H - {#tx_batch keys wr i tx#}"
    using mem [OF assms(2,3), of keys wr] mem [OF assms(4,5), of keys wr] assms(6)
    by (auto simp: tx_batch_def in_diff_count)
  from tal.run_no_clash [OF s0(2) _ m] s0(1) assms(6) show ?thesis
    by (auto simp: tal_clash_def tx_batch_def)
qed

theorem workers_never_conflict_witness:
  "\<exists>c b. demo_sched_run c b demo_out 2 \<and> \<not> conflicts
    (requests (write_account_locks demo_keys demo_writable demo_tx1)
       (read_account_locks demo_keys demo_writable demo_tx1))
    (requests (write_account_locks demo_keys demo_writable demo_tx2)
       (read_account_locks demo_keys demo_writable demo_tx2))"
proof -
  obtain c b where run: "demo_sched_run c b demo_out 2" using demo_sched by blast
  from workers_never_conflict [OF run, of 0 0 "[demo_tx1]" demo_tx1 "- 1" 1 "[demo_tx2]" demo_tx2] run
  show ?thesis by (auto simp: demo_out_def)
qed

text \<open>
  C21. Completing a batch. For every batch that is out, \<^verbatim>\<open>complete_batch\<close> with the transactions
  that were sent runs into no panic of the tracker or of the lock table, releases that batch's
  locks and goes on as a run without it. Once nothing is batched or out, the lock table is again
  the one the scheduler was created with.
\<close>

theorem complete_batch_releases:
  assumes run: "sched_run keys wr send n c b W k" and "W bid = Some (i, txs)"
  shows "\<exists>c'. complete_batch keys wr c bid txs = Some c' \<and>
    sched_run keys wr send n c' b (W(bid := None)) k \<and>
    (W(bid := None) = Map.empty \<and> (\<forall>q \<in> set (b_transactions b). q = []) \<longrightarrow>
      new_locks n = Some (account_locks c'))"
proof -
  obtain c' where c': "complete_batch keys wr c bid txs = Some c'"
    using complete_inv [OF sched_run_inv [OF run] assms(2)] by blast
  note run' = sched_run.complete [OF run assms(2) c']
  obtain s0 where s0: "new_locks n = Some s0"
    "tal_run s0 (account_locks c') (filling keys wr b + in_flight keys wr (W(bid := None)))"
    using sched_run_tal [OF run'] by blast
  have "account_locks c' = s0"
    if "W(bid := None) = Map.empty" "\<forall>q \<in> set (b_transactions b). q = []"
  proof -
    have "filling keys wr b = {#}" using that(2)
      by (auto simp: filling_def tx_batches_def intro!: sum.neutral)
    then show ?thesis
      using tal.run_all_returned [of s0 "account_locks c'"] s0 unfolding that(1) by auto
  qed
  with c' run' s0(1) show ?thesis by blast
qed

theorem complete_batch_releases_witness:
  "\<exists>c b c' c''. demo_sched_run c b demo_out 2 \<and>
    complete_batch demo_keys demo_writable c 0 [demo_tx1] = Some c' \<and>
    complete_batch demo_keys demo_writable c' (- 1) [demo_tx2] = Some c'' \<and>
    new_locks 2 = Some (account_locks c'')"
proof -
  obtain c b where run: "demo_sched_run c b demo_out 2" and b: "b_transactions b = [[], []]"
    using demo_sched by blast
  have out: "demo_out 0 = Some (0, [demo_tx1])"
    "(demo_out(0 := None)) (- 1) = Some (1, [demo_tx2])" "demo_out(0 := None, - 1 := None) = Map.empty"
    by (auto simp: demo_out_def)
  obtain c' where c': "complete_batch demo_keys demo_writable c 0 [demo_tx1] = Some c'"
    "demo_sched_run c' b (demo_out(0 := None)) 2"
    using complete_batch_releases [OF run out(1)] by blast
  obtain c'' where c'': "complete_batch demo_keys demo_writable c' (- 1) [demo_tx2] = Some c''"
    "demo_out(0 := None, - 1 := None) = Map.empty \<and> (\<forall>q \<in> set (b_transactions b). q = []) \<longrightarrow>
      new_locks 2 = Some (account_locks c'')"
    using complete_batch_releases [OF c'(2) out(2)] by blast
  moreover have "\<forall>q \<in> set (b_transactions b). q = []" using b by simp
  ultimately show ?thesis using run c'(1) out(3) by blast
qed

text \<open>
  C29. The in-flight counts are exact: the counter that load balancing reads for thread \<open>i\<close> is the
  number of transactions sent to \<open>i\<close> and not yet back, in the 64-bit arithmetic of the counter.
  No batch id is ever reused for a batch that is still out, so no entry is overwritten.
\<close>

theorem in_flight_count_exact:
  assumes run: "sched_run keys wr send n c b W k" and i: "i < n"
  shows "num_in_flight_per_thread (tracker c) ! i =
      of_nat (\<Sum>q \<in> dom W. if fst (the (W q)) = i then length (snd (the (W q))) else 0) \<and>
    (k < 2 ^ 64 \<longrightarrow> next_id (batch_id_gen (tracker c)) \<notin> dom W)"
proof
  note inv = sched_run_inv [OF run]
  note t = sched_invD(2) [OF inv]
  show "num_in_flight_per_thread (tracker c) ! i =
      of_nat (\<Sum>q \<in> dom W. if fst (the (W q)) = i then length (snd (the (W q))) else 0)"
    using tracked_sum_outstanding [of "tracked_batches (tracker c)" W i] inv tracker_invD(6) [OF t i]
    unfolding sched_inv_def by simp
  show "k < 2 ^ 64 \<longrightarrow> next_id (batch_id_gen (tracker c)) \<notin> dom W"
    unfolding sched_inv_dom(1) [OF inv] using tracker_id_fresh [OF t] by (simp add: domIff)
qed

theorem in_flight_count_exact_witness:
  "\<exists>c b. demo_sched_run c b demo_out 2 \<and> num_in_flight_per_thread (tracker c) ! 1 = 1 \<and>
    next_id (batch_id_gen (tracker c)) \<notin> dom demo_out"
proof -
  obtain c b where run: "demo_sched_run c b demo_out 2" using demo_sched by blast
  have "dom demo_out = {0, - 1}" by (auto simp: demo_out_def split: if_splits)
  with in_flight_count_exact [OF run, of 1] run show ?thesis by (auto simp: demo_out_def)
qed



text \<open>
  Finished work. When the worker reports the retryable indexes in increasing order, the loop
  over the finished transactions retries exactly the transactions at those indexes and removes
  every other one, in order, whatever the container does.
\<close>

theorem finish_retries_exactly:
  assumes "sorted_wrt (<) rs"
  shows "finish_transactions retry remove c 0 work rs =
    fold_opt (\<lambda>c (j, tid, tx). if j \<in> set rs then retry c tid tx else remove c tid) c (enumerate 0 work)"
  using assms by (simp add: finish_transactions_from)

theorem finish_retries_exactly_witness:
  "finish_transactions (\<lambda>c tid tx. Some (c @ [(tid, True)])) (\<lambda>c tid. Some (c @ [(tid, False)])) [] 0
     [(10, ()), (11, ()), (12, ())] [0, 2] = Some [(10, True), (11, False), (12, True)]"
  by (subst finish_retries_exactly) simp_all

end
