(* ===== verification/Unified_Scheduler.thy ===== *)
theory Unified_Scheduler
  imports Prelude
begin

text \<open>
  The scheduling state machine of the unified scheduler
  (\<^verbatim>\<open>src/unified-scheduler-logic/src/lib.rs\<close>): a queue per address, tasks that take all their
  addresses at once and run when nothing scheduled earlier conflicts with them.

  Shared cells. A \<^verbatim>\<open>UsageQueue\<close> is an \<^verbatim>\<open>Arc<TokenCell<UsageQueueInner>>\<close> and a \<^verbatim>\<open>Task\<close> an
  \<^verbatim>\<open>Arc<TaskInner>\<close> with one mutable cell, its \<^verbatim>\<open>blocked_usage_count\<close>. The model keeps the
  contents of the cells in two stores, indexed by references, and passes them along with the
  fields of \<^verbatim>\<open>SchedulingStateMachine\<close>; the zero-sized tokens that gate the access to the cells have
  no run-time content. Panics (\<^verbatim>\<open>unwrap\<close> of the checked counters, \<^verbatim>\<open>unreachable!\<close>,
  \<^verbatim>\<open>assert_matches!\<close>, \<^verbatim>\<open>panic!\<close>) are \<^const>\<open>None\<close>.
\<close>

section \<open>Counters\<close>

type_synonym short_counter = u32

definition sc_increment :: "short_counter \<Rightarrow> short_counter option" where
  "sc_increment c = checked_add c 1"

definition sc_decrement :: "short_counter \<Rightarrow> short_counter option" where
  "sc_decrement c = checked_sub c 1"

section \<open>Tasks and usage queues\<close>

datatype requested_usage = RequestedReadonly | RequestedWritable

datatype usage = Readonly short_counter | Writable

definition usage_from :: "requested_usage \<Rightarrow> usage" where
  "usage_from u = (case u of RequestedReadonly \<Rightarrow> Readonly 1 | RequestedWritable \<Rightarrow> Writable)"

type_synonym queue_ref = nat

record lock_context =
  lc_usage_queue :: queue_ref
  lc_requested_usage :: requested_usage

text \<open>\<open>count_cell\<close> is the reference of the task's \<^verbatim>\<open>blocked_usage_count\<close> cell.\<close>

record 'tx task =
  transaction :: 'tx
  task_index :: usize
  lock_contexts :: "lock_context list"
  count_cell :: nat

type_synonym 'tx usage_from_task = "requested_usage \<times> 'tx task"

record 'tx usage_queue_inner =
  current_usage :: "usage option"
  blocked_usages_from_tasks :: "'tx usage_from_task list"

definition usage_queue_default :: "'tx usage_queue_inner" where
  "usage_queue_default = \<lparr>current_usage = None, blocked_usages_from_tasks = []\<rparr>"

text \<open>The boolean tells \<^verbatim>\<open>Ok(())\<close> from \<^verbatim>\<open>Err(())\<close>.\<close>

definition try_lock :: "'tx usage_queue_inner \<Rightarrow> requested_usage \<Rightarrow> ('tx usage_queue_inner \<times> bool) option"
where
  "try_lock q u = (case current_usage q of
     None \<Rightarrow> Some (q\<lparr>current_usage := Some (usage_from u)\<rparr>, True)
   | Some (Readonly cnt) \<Rightarrow>
       (case u of
          RequestedReadonly \<Rightarrow> do {
            c \<leftarrow> sc_increment cnt;
            Some (q\<lparr>current_usage := Some (Readonly c)\<rparr>, True) }
        | RequestedWritable \<Rightarrow> Some (q, False))
   | Some Writable \<Rightarrow> Some (q, False))"

definition pop_front :: "'tx usage_queue_inner \<Rightarrow> 'tx usage_queue_inner \<times> 'tx usage_from_task option"
where
  "pop_front q = (case blocked_usages_from_tasks q of
     [] \<Rightarrow> (q, None)
   | x # xs \<Rightarrow> (q\<lparr>blocked_usages_from_tasks := xs\<rparr>, Some x))"

definition unlock ::
  "'tx usage_queue_inner \<Rightarrow> requested_usage
    \<Rightarrow> ('tx usage_queue_inner \<times> 'tx usage_from_task option) option"
where
  "unlock q u = (case current_usage q of
     Some (Readonly cnt) \<Rightarrow>
       (case u of
          RequestedReadonly \<Rightarrow>
            if cnt = 1 then Some (pop_front (q\<lparr>current_usage := None\<rparr>))
            else do {
              c \<leftarrow> sc_decrement cnt;
              Some (q\<lparr>current_usage := Some (Readonly c)\<rparr>, None) }
        | RequestedWritable \<Rightarrow> None)
   | Some Writable \<Rightarrow>
       (case u of
          RequestedWritable \<Rightarrow> Some (pop_front (q\<lparr>current_usage := None\<rparr>))
        | RequestedReadonly \<Rightarrow> None)
   | None \<Rightarrow> None)"

definition push_blocked_usage_from_task ::
  "'tx usage_queue_inner \<Rightarrow> 'tx usage_from_task \<Rightarrow> 'tx usage_queue_inner option"
where
  "push_blocked_usage_from_task q x = (case current_usage q of
     None \<Rightarrow> None
   | Some _ \<Rightarrow> Some (q\<lparr>blocked_usages_from_tasks := blocked_usages_from_tasks q @ [x]\<rparr>))"

definition pop_unblocked_readonly_usage_from_task ::
  "'tx usage_queue_inner \<Rightarrow> ('tx usage_queue_inner \<times> 'tx usage_from_task option) option"
where
  "pop_unblocked_readonly_usage_from_task q = (case blocked_usages_from_tasks q of
     (RequestedReadonly, _) # _ \<Rightarrow>
       (case current_usage q of
          Some (Readonly _) \<Rightarrow> Some (pop_front q)
        | _ \<Rightarrow> None)
   | _ \<Rightarrow> Some (q, None))"

definition has_no_blocked_usage :: "'tx usage_queue_inner \<Rightarrow> bool" where
  "has_no_blocked_usage q \<longleftrightarrow> blocked_usages_from_tasks q = []"

section \<open>The state machine\<close>

record 'tx scheduling_state_machine =
  unblocked_task_queue :: "'tx task list"
  active_task_count :: short_counter
  running_task_count :: short_counter
  max_running_task_count :: u32
  handled_task_count :: short_counter
  unblocked_task_count :: short_counter
  total_task_count :: short_counter
  usage_queues :: "queue_ref \<Rightarrow> 'tx usage_queue_inner"
  blocked_usage_counts :: "nat \<Rightarrow> short_counter"

definition initialize ::
  "usize option \<Rightarrow> (nat \<Rightarrow> short_counter) \<Rightarrow> 'tx scheduling_state_machine option"
where
  "initialize max_running cells = (
     let n = (case max_running of None \<Rightarrow> 2 ^ 32 - 1 | Some n \<Rightarrow> unat n) in
     if n < 2 ^ 32 then Some \<lparr>unblocked_task_queue = [], active_task_count = 0,
       running_task_count = 0, max_running_task_count = of_nat n, handled_task_count = 0,
       unblocked_task_count = 0, total_task_count = 0,
       usage_queues = (\<lambda>_. usage_queue_default), blocked_usage_counts = cells\<rparr>
     else None)"

definition has_no_running_task :: "'tx scheduling_state_machine \<Rightarrow> bool" where
  "has_no_running_task m \<longleftrightarrow> running_task_count m = 0"

definition has_no_active_task :: "'tx scheduling_state_machine \<Rightarrow> bool" where
  "has_no_active_task m \<longleftrightarrow> active_task_count m = 0"

definition has_unblocked_task :: "'tx scheduling_state_machine \<Rightarrow> bool" where
  "has_unblocked_task m \<longleftrightarrow> unblocked_task_queue m \<noteq> []"

definition is_task_runnable :: "'tx scheduling_state_machine \<Rightarrow> bool" where
  "is_task_runnable m \<longleftrightarrow> running_task_count m < max_running_task_count m"

definition has_runnable_task :: "'tx scheduling_state_machine \<Rightarrow> bool" where
  "has_runnable_task m \<longleftrightarrow> has_unblocked_task m \<and> is_task_runnable m"

text \<open>One round of the loop of \<^verbatim>\<open>try_lock_usage_queues\<close>, on the queues and the count of blocked usages.\<close>

definition lock_context_step ::
  "'tx task \<Rightarrow> (queue_ref \<Rightarrow> 'tx usage_queue_inner) \<times> short_counter \<Rightarrow> lock_context
    \<Rightarrow> ((queue_ref \<Rightarrow> 'tx usage_queue_inner) \<times> short_counter) option"
where
  "lock_context_step t = (\<lambda>(qs, n) c. let r = lc_usage_queue c; u = lc_requested_usage c in do {
     (q, locked) \<leftarrow> (if has_no_blocked_usage (qs r) then try_lock (qs r) u else Some (qs r, False));
     if locked then Some (qs(r := q), n)
     else do {
       n' \<leftarrow> sc_increment n;
       q' \<leftarrow> push_blocked_usage_from_task q (u, t);
       Some (qs(r := q'), n') } })"

definition try_lock_usage_queues ::
  "'tx scheduling_state_machine \<Rightarrow> 'tx task \<Rightarrow> ('tx scheduling_state_machine \<times> 'tx task option) option"
where
  "try_lock_usage_queues m t = do {
     (qs, n) \<leftarrow> fold_opt (lock_context_step t) (usage_queues m, 0) (lock_contexts t);
     if n = 0 then Some (m\<lparr>usage_queues := qs\<rparr>, Some t)
     else Some (m\<lparr>usage_queues := qs,
       blocked_usage_counts := (blocked_usage_counts m)(count_cell t := n)\<rparr>, None) }"

definition schedule_or_buffer_task ::
  "'tx scheduling_state_machine \<Rightarrow> 'tx task \<Rightarrow> bool
    \<Rightarrow> ('tx scheduling_state_machine \<times> 'tx task option) option"
where
  "schedule_or_buffer_task m t force_buffering = do {
     total_n \<leftarrow> sc_increment (total_task_count m);
     active \<leftarrow> sc_increment (active_task_count m);
     (m, r) \<leftarrow> try_lock_usage_queues (m\<lparr>total_task_count := total_n, active_task_count := active\<rparr>) t;
     (case r of
        None \<Rightarrow> Some (m, None)
      | Some t \<Rightarrow>
          if \<not> is_task_runnable m \<or> force_buffering then do {
            n \<leftarrow> sc_increment (unblocked_task_count m);
            Some (m\<lparr>unblocked_task_count := n,
              unblocked_task_queue := unblocked_task_queue m @ [t]\<rparr>, None) }
          else do {
            n \<leftarrow> sc_increment (running_task_count m);
            Some (m\<lparr>running_task_count := n\<rparr>, Some t) }) }"

definition buffer_task ::
  "'tx scheduling_state_machine \<Rightarrow> 'tx task \<Rightarrow> 'tx scheduling_state_machine option"
where
  "buffer_task m t = do {
     (m, r) \<leftarrow> schedule_or_buffer_task m t True;
     (case r of None \<Rightarrow> Some m | Some _ \<Rightarrow> None) }"

definition schedule_next_unblocked_task ::
  "'tx scheduling_state_machine \<Rightarrow> ('tx scheduling_state_machine \<times> 'tx task option) option"
where
  "schedule_next_unblocked_task m =
     (if \<not> is_task_runnable m then Some (m, None)
      else case unblocked_task_queue m of
        [] \<Rightarrow> Some (m, None)
      | t # ts \<Rightarrow> do {
          r \<leftarrow> sc_increment (running_task_count m);
          n \<leftarrow> sc_increment (unblocked_task_count m);
          Some (m\<lparr>unblocked_task_queue := ts, running_task_count := r, unblocked_task_count := n\<rparr>,
            Some t) })"

text \<open>
  The inner loop of \<^verbatim>\<open>unlock_usage_queues\<close> on one queue; \<open>uq\<close> is the unblocked queue, the last
  argument the entry taken off the blocked ones. Every round but the last shortens the queue.
\<close>

function unblock_loop ::
  "'tx usage_queue_inner \<Rightarrow> (nat \<Rightarrow> short_counter) \<Rightarrow> 'tx task list \<Rightarrow> 'tx usage_from_task option
    \<Rightarrow> ('tx usage_queue_inner \<times> (nat \<Rightarrow> short_counter) \<times> 'tx task list) option"
where
  "unblock_loop q cells uq None = Some (q, cells, uq)"
| "unblock_loop q cells uq (Some (u, t)) = do {
     n \<leftarrow> sc_decrement (cells (count_cell t));
     let cells = cells(count_cell t := n);
     let uq = (if n = 0 then uq @ [t] else uq);
     (q, locked) \<leftarrow> try_lock q u;
     if locked then do {
       (q, next) \<leftarrow> (if u = RequestedReadonly then pop_unblocked_readonly_usage_from_task q
         else Some (q, None));
       unblock_loop q cells uq next }
     else None }"
  by pat_completeness auto

lemma try_lock_blocked:
  "try_lock q u = Some (q', ok) \<Longrightarrow> blocked_usages_from_tasks q' = blocked_usages_from_tasks q"
  by (auto simp: try_lock_def bind_eq_Some_conv split: option.splits usage.splits requested_usage.splits)

lemma pop_unblocked_shorter:
  "pop_unblocked_readonly_usage_from_task q = Some (q', r) \<Longrightarrow> length (blocked_usages_from_tasks q) =
    length (blocked_usages_from_tasks q') + (case r of None \<Rightarrow> 0 | Some _ \<Rightarrow> 1)"
  by (auto simp: pop_unblocked_readonly_usage_from_task_def pop_front_def
      split: list.splits requested_usage.splits option.splits usage.splits)

termination unblock_loop
proof (relation "measure (\<lambda>(q, _, _, next).
    length (blocked_usages_from_tasks q) + (case next of None \<Rightarrow> 0 | Some _ \<Rightarrow> 1))", goal_cases)
  case 1
  show ?case by simp
next
  case (2 q cells uq u t n cells' uq' z q1 ok z' q2 "next")
  then show ?case
    using try_lock_blocked [of q u q1 ok] pop_unblocked_shorter [of q1 q2]
    by (auto split: if_splits option.splits)
qed

declare unblock_loop.simps(2) [simp del]

definition unlock_context_step ::
  "(queue_ref \<Rightarrow> 'tx usage_queue_inner) \<times> (nat \<Rightarrow> short_counter) \<times> 'tx task list \<Rightarrow> lock_context
    \<Rightarrow> ((queue_ref \<Rightarrow> 'tx usage_queue_inner) \<times> (nat \<Rightarrow> short_counter) \<times> 'tx task list) option"
where
  "unlock_context_step = (\<lambda>(qs, cells, uq) c. let r = lc_usage_queue c in do {
     (q, next) \<leftarrow> unlock (qs r) (lc_requested_usage c);
     (q, cells, uq) \<leftarrow> unblock_loop q cells uq next;
     Some (qs(r := q), cells, uq) })"

definition unlock_usage_queues ::
  "'tx scheduling_state_machine \<Rightarrow> 'tx task \<Rightarrow> 'tx scheduling_state_machine option"
where
  "unlock_usage_queues m t = do {
     (qs, cells, uq) \<leftarrow> fold_opt unlock_context_step
       (usage_queues m, blocked_usage_counts m, unblocked_task_queue m) (lock_contexts t);
     Some (m\<lparr>usage_queues := qs, blocked_usage_counts := cells, unblocked_task_queue := uq\<rparr>) }"

definition deschedule_task ::
  "'tx scheduling_state_machine \<Rightarrow> 'tx task \<Rightarrow> 'tx scheduling_state_machine option"
where
  "deschedule_task m t = do {
     r \<leftarrow> sc_decrement (running_task_count m);
     a \<leftarrow> sc_decrement (active_task_count m);
     h \<leftarrow> sc_increment (handled_task_count m);
     unlock_usage_queues (m\<lparr>running_task_count := r, active_task_count := a, handled_task_count := h\<rparr>) t }"

definition create_task ::
  "('tx \<Rightarrow> pubkey list) \<Rightarrow> ('tx \<Rightarrow> nat \<Rightarrow> bool) \<Rightarrow> (pubkey \<Rightarrow> queue_ref) \<Rightarrow> 'tx \<Rightarrow> usize \<Rightarrow> nat
    \<Rightarrow> 'tx task"
where
  "create_task account_keys is_writable usage_queue_loader tx i cell =
     \<lparr>transaction = tx, task_index = i,
      lock_contexts = map (\<lambda>(i, address). \<lparr>lc_usage_queue = usage_queue_loader address,
        lc_requested_usage = (if is_writable tx i then RequestedWritable else RequestedReadonly)\<rparr>)
        (enumerate 0 (account_keys tx)),
      count_cell = cell\<rparr>"

definition reinitialize :: "'tx scheduling_state_machine \<Rightarrow> 'tx scheduling_state_machine option" where
  "reinitialize m = (if has_no_active_task m \<and> running_task_count m = 0 \<and> unblocked_task_queue m = []
     then Some (m\<lparr>active_task_count := 0, handled_task_count := 0, unblocked_task_count := 0,
       total_task_count := 0\<rparr>)
     else None)"

lemma unlock_usage_queues_counts:
  "unlock_usage_queues m t = Some m' \<Longrightarrow> active_task_count m' = active_task_count m"
  by (auto simp: unlock_usage_queues_def bind_eq_Some_conv)

lemma deschedule_task_active:
  "deschedule_task m t = Some m' \<Longrightarrow> unat (active_task_count m') < unat (active_task_count m)"
  by (auto simp: deschedule_task_def bind_eq_Some_conv sc_decrement_def checked_sub_eq_Some_iff
      dest!: unlock_usage_queues_counts)

lemma schedule_next_active:
  "schedule_next_unblocked_task m = Some (m', r) \<Longrightarrow> active_task_count m' = active_task_count m"
  by (auto simp: schedule_next_unblocked_task_def bind_eq_Some_conv split: if_splits list.splits)

text \<open>The loop of \<^verbatim>\<open>clear_and_reinitialize\<close>: every round ends one active task.\<close>

function clear_loop ::
  "'tx scheduling_state_machine \<Rightarrow> short_counter \<Rightarrow> ('tx scheduling_state_machine \<times> short_counter) option"
where
  "clear_loop m n = do {
     (m, r) \<leftarrow> schedule_next_unblocked_task m;
     (case r of
        None \<Rightarrow> Some (m, n)
      | Some t \<Rightarrow> do {
          m \<leftarrow> deschedule_task m t;
          n \<leftarrow> sc_increment n;
          clear_loop m n }) }"
  by pat_completeness auto

termination clear_loop
  by (relation "measure (\<lambda>(m, _). unat (active_task_count m))")
    (auto dest!: deschedule_task_active schedule_next_active)

declare clear_loop.simps [simp del]

definition clear_and_reinitialize ::
  "'tx scheduling_state_machine \<Rightarrow> ('tx scheduling_state_machine \<times> usize) option"
where
  "clear_and_reinitialize m = do {
     (m, n) \<leftarrow> clear_loop m 0;
     m \<leftarrow> reinitialize m;
     Some (m, of_nat (unat n)) }"

section \<open>What a queue stands for\<close>

text \<open>
  A usage queue stands for the line of active requests for its address, in order of arrival. The
  front of the line, either one writer or all readers up to the first writer, holds the address;
  the rest is blocked.
\<close>

abbreviation is_read :: "'tx usage_from_task \<Rightarrow> bool" where
  "is_read x \<equiv> fst x = RequestedReadonly"

fun front :: "'tx usage_from_task list \<Rightarrow> nat" where
  "front [] = 0"
| "front (x # xs) = (if is_read x then Suc (length (takeWhile is_read xs)) else 1)"

definition queue_of :: "'tx usage_from_task list \<Rightarrow> 'tx usage_queue_inner" where
  "queue_of xs = \<lparr>current_usage = (case xs of
       [] \<Rightarrow> None
     | x # _ \<Rightarrow> Some (if is_read x then Readonly (of_nat (front xs)) else Writable)),
     blocked_usages_from_tasks = drop (front xs) xs\<rparr>"

lemma queue_of_Nil: "queue_of [] = usage_queue_default"
  by (simp add: queue_of_def usage_queue_default_def)

lemma front_le: "front xs \<le> length xs"
  by (cases xs) (auto simp: length_takeWhile_le)

lemma takeWhile_index: "i < length (takeWhile P xs) \<longleftrightarrow> i < length xs \<and> (\<forall>j \<le> i. P (xs ! j))"
proof (induction xs arbitrary: i)
  case (Cons x xs)
  then show ?case by (cases i) (auto simp: All_less_Suc2 less_Suc_eq_le [symmetric])
qed simp

lemma length_takeWhile_all: "length (takeWhile P xs) = length xs \<longleftrightarrow> (\<forall>x \<in> set xs. P x)"
  by (induction xs) auto

lemma less_front_iff:
  "i < front xs \<longleftrightarrow> i < length xs \<and> (i = 0 \<or> (\<forall>j \<le> i. is_read (xs ! j)))"
proof (cases xs)
  case (Cons x ys)
  show ?thesis
  proof (cases "is_read x")
    case True
    then have "front xs = length (takeWhile is_read xs)" by (simp add: Cons)
    then have "i < front xs \<longleftrightarrow> i < length xs \<and> (\<forall>j \<le> i. is_read (xs ! j))"
      by (simp only: takeWhile_index)
    then show ?thesis using True by (auto simp: Cons)
  qed (auto simp: Cons)
qed simp

lemma front_append: "i < length xs \<Longrightarrow> i < front (xs @ ys) \<longleftrightarrow> i < front xs"
  by (auto simp: less_front_iff nth_append)

lemma front_snoc:
  "front (xs @ [x]) = (if xs = [] \<or> is_read x \<and> (\<forall>y \<in> set xs. is_read y) then Suc (length xs) else front xs)"
  using length_takeWhile_all [of is_read "tl xs"] by (cases xs) (auto simp: takeWhile_append)

lemma requested_not_read: "u \<noteq> RequestedReadonly \<longleftrightarrow> u = RequestedWritable"
  by (cases u) auto

lemma no_blocked_iff: "has_no_blocked_usage (queue_of xs) \<longleftrightarrow> front xs = length xs"
  using front_le [of xs] by (auto simp: has_no_blocked_usage_def queue_of_def)

lemma all_read_front: "xs \<noteq> [] \<Longrightarrow> (\<forall>y \<in> set xs. is_read y) \<Longrightarrow> front xs = length xs"
  by (cases xs) (auto simp: length_takeWhile_all)

lemma sc_increment_Some: "Suc n < 2 ^ 32 \<Longrightarrow> sc_increment (of_nat n) = Some (of_nat (Suc n))"
  by (simp add: sc_increment_def checked_add_def unat_of_nat)

text \<open>Joining the line: the queue locks or blocks the request, as its place in the line says.\<close>

lemma try_lock_queue_of:
  assumes "Suc (length xs) < 2 ^ 32" "front xs = length xs"
  shows "try_lock (queue_of xs) u = (if front (xs @ [(u, t)]) = Suc (length xs)
    then Some (queue_of (xs @ [(u, t)]), True) else Some (queue_of xs, False))"
proof (cases xs)
  case Nil
  then show ?thesis
    by (cases u) (auto simp: try_lock_def queue_of_def usage_from_def)
next
  case (Cons x ys)
  show ?thesis
  proof (cases "is_read x")
    case True
    then have all: "\<forall>y \<in> set xs. is_read y"
      using assms(2) length_takeWhile_all [of is_read ys] by (simp add: Cons)
    have "front (x # ys @ [(u, t)]) = (if u = RequestedReadonly then Suc (Suc (length ys)) else front (x # ys))"
      using front_snoc [of xs "(u, t)"] all by (simp add: Cons del: front.simps)
    then show ?thesis
      using assms all True
      by (cases u) (auto simp: try_lock_def queue_of_def Cons sc_increment_Some
          simp del: front.simps of_nat_Suc)
  next
    case False
    with assms show ?thesis by (auto simp: try_lock_def queue_of_def Cons)
  qed
qed

text \<open>Whether \<open>x\<close> is blocked when it joins the line \<open>xs\<close>.\<close>

definition joins_blocked :: "'tx usage_from_task list \<Rightarrow> 'tx usage_from_task \<Rightarrow> bool" where
  "joins_blocked xs x \<longleftrightarrow> xs \<noteq> [] \<and> \<not> (is_read x \<and> (\<forall>y \<in> set xs. is_read y))"

lemma front_joins: "front (xs @ [x]) = (if joins_blocked xs x then front xs else Suc (length xs))"
  by (auto simp: front_snoc joins_blocked_def)

lemma push_blocked_queue_of:
  assumes "joins_blocked xs x"
  shows "push_blocked_usage_from_task (queue_of xs) x = Some (queue_of (xs @ [x]))"
proof -
  have "front (xs @ [x]) = front xs" using assms by (simp add: front_joins)
  moreover have "drop (front xs) (xs @ [x]) = drop (front xs) xs @ [x]" using front_le [of xs] by simp
  moreover have "xs \<noteq> []" using assms by (simp add: joins_blocked_def)
  ultimately show ?thesis
    by (cases xs) (simp_all add: push_blocked_usage_from_task_def queue_of_def del: front.simps drop_append)
qed

lemma lock_context_step_queue_of:
  fixes t :: "'tx task"
  assumes "qs (lc_usage_queue c) = queue_of xs" "Suc (length xs) < 2 ^ 32" "Suc n < 2 ^ 32"
  defines "x \<equiv> (lc_requested_usage c, t)"
  shows "lock_context_step t (qs, of_nat n) c = Some (qs(lc_usage_queue c := queue_of (xs @ [x])),
    of_nat (if joins_blocked xs x then Suc n else n))"
proof (cases "front xs = length xs")
  case True
  show ?thesis
    using try_lock_queue_of [OF assms(2) True, of "lc_requested_usage c" t] front_joins [of xs x]
      push_blocked_queue_of [of xs x] sc_increment_Some [OF assms(3)] front_le [of xs]
    by (auto simp: lock_context_step_def assms(1) no_blocked_iff True x_def Let_def
        simp del: of_nat_Suc)
next
  case False
  then have "joins_blocked xs x"
    using all_read_front [of xs] by (cases "xs = []") (auto simp: joins_blocked_def)
  with False push_blocked_queue_of [of xs x] sc_increment_Some [OF assms(3)] show ?thesis
    by (simp add: lock_context_step_def assms(1) no_blocked_iff x_def Let_def del: of_nat_Suc)
qed

section \<open>Leaving the line\<close>

text \<open>The tasks of \<open>g\<close> are granted one queue each: their counts go down, those at zero are unblocked.\<close>

fun wake :: "(nat \<Rightarrow> short_counter) \<Rightarrow> 'tx task list \<Rightarrow> 'tx usage_from_task list
  \<Rightarrow> (nat \<Rightarrow> short_counter) \<times> 'tx task list"
where
  "wake cells uq [] = (cells, uq)"
| "wake cells uq ((u, t) # g) = (let n = cells (count_cell t) - 1 in
     wake (cells(count_cell t := n)) (if n = 0 then uq @ [t] else uq) g)"

definition wakeable :: "(nat \<Rightarrow> short_counter) \<Rightarrow> 'tx usage_from_task list \<Rightarrow> bool" where
  "wakeable cells g \<longleftrightarrow> distinct (map (count_cell \<circ> snd) g) \<and> (\<forall>x \<in> set g. cells (count_cell (snd x)) \<noteq> 0)"

lemma wakeable_Cons:
  "wakeable cells (x # g) \<longleftrightarrow> cells (count_cell (snd x)) \<noteq> 0 \<and>
    (\<forall>y \<in> set g. count_cell (snd y) \<noteq> count_cell (snd x)) \<and> wakeable (cells(count_cell (snd x) := n)) g"
  by (simp add: wakeable_def image_iff) metis

lemma sc_decrement_Some: "c \<noteq> 0 \<Longrightarrow> sc_decrement c = Some (c - 1)"
  by (simp add: sc_decrement_def checked_sub_def word_le_nat_alt unat_eq_zero Suc_le_eq)

lemma sc_decrement_of_nat: "Suc n < 2 ^ 32 \<Longrightarrow> sc_decrement (of_nat (Suc n)) = Some (of_nat n)"
  by (simp add: sc_decrement_def checked_sub_eq_Some_iff unat_of_nat del: of_nat_Suc)

lemma wake_effect:
  assumes "wakeable cells g"
  shows "wake cells uq g =
    ((\<lambda>c. if c \<in> (count_cell \<circ> snd) ` set g then cells c - 1 else cells c),
     uq @ map snd (filter (\<lambda>x. cells (count_cell (snd x)) = 1) g))"
  using assms
proof (induction g arbitrary: cells uq)
  case (Cons x g)
  obtain u t where x: "x = (u, t)" by (cases x)
  let ?cells = "cells(count_cell t := cells (count_cell t) - 1)"
  from Cons.prems have w: "wakeable ?cells g" and t: "\<forall>y \<in> set g. count_cell (snd y) \<noteq> count_cell t"
    by (simp_all add: wakeable_Cons [of _ _ _ "cells (count_cell t) - 1"] x)
  have "filter (\<lambda>x. ?cells (count_cell (snd x)) = 1) g = filter (\<lambda>x. cells (count_cell (snd x)) = 1) g"
    using t by (intro filter_cong) auto
  then show ?case
    using t by (simp add: x Let_def Cons.IH [OF w] fun_eq_iff image_iff) metis
qed simp

lemma try_lock_reader:
  "Suc k < 2 ^ 32 \<Longrightarrow> try_lock \<lparr>current_usage = (if k = 0 then None else Some (Readonly (of_nat k))),
      blocked_usages_from_tasks = bl\<rparr> RequestedReadonly =
    Some (\<lparr>current_usage = Some (Readonly (of_nat (Suc k))), blocked_usages_from_tasks = bl\<rparr>, True)"
  using sc_increment_Some [of k] by (auto simp: try_lock_def usage_from_def)

text \<open>The loop grants the readers up to the next writer; \<open>k\<close> readers hold the address already.\<close>

lemma unblock_loop_readers:
  assumes "wakeable cells ((RequestedReadonly, t) # takeWhile is_read bl)" "k + length bl + 1 < 2 ^ 32"
  shows "unblock_loop \<lparr>current_usage = (if k = 0 then None else Some (Readonly (of_nat k))),
      blocked_usages_from_tasks = bl\<rparr> cells uq (Some (RequestedReadonly, t)) =
    Some (\<lparr>current_usage = Some (Readonly (of_nat (Suc k + length (takeWhile is_read bl)))),
      blocked_usages_from_tasks = dropWhile is_read bl\<rparr>,
      wake cells uq ((RequestedReadonly, t) # takeWhile is_read bl))"
  using assms
proof (induction bl arbitrary: cells uq t k)
  case Nil
  have dec: "sc_decrement (cells (count_cell t)) = Some (cells (count_cell t) - 1)"
    using Nil.prems(1) by (intro sc_decrement_Some) (simp add: wakeable_def)
  have "Suc k < 2 ^ 32" using Nil.prems(2) by simp
  then show ?case
    by (subst unblock_loop.simps(2), subst try_lock_reader)
      (simp_all add: dec Let_def pop_unblocked_readonly_usage_from_task_def)
next
  case (Cons x bl)
  have dec: "sc_decrement (cells (count_cell t)) = Some (cells (count_cell t) - 1)"
    using Cons.prems(1) by (intro sc_decrement_Some) (simp add: wakeable_def)
  have k: "Suc k < 2 ^ 32" "Suc k + length bl + 1 < 2 ^ 32" using Cons.prems(2) by simp_all
  obtain u t' where x: "x = (u, t')" by (cases x)
  let ?cells = "cells(count_cell t := cells (count_cell t) - 1)"
  show ?case
  proof (cases "is_read x")
    case True
    then have u: "u = RequestedReadonly" by (simp add: x)
    from Cons.prems(1) True have w: "wakeable ?cells ((RequestedReadonly, t') # takeWhile is_read bl)"
      by (simp add: wakeable_Cons [of _ "(RequestedReadonly, t)" _ "cells (count_cell t) - 1"] x u)
    show ?thesis
      using Cons.IH [OF w k(2)] k(1)
      by (subst unblock_loop.simps(2), subst try_lock_reader)
        (simp_all add: dec Let_def pop_unblocked_readonly_usage_from_task_def pop_front_def x u
          del: unblock_loop.simps of_nat_Suc fun_upd_apply)
  next
    case False
    then have u: "u = RequestedWritable" by (cases u) (simp_all add: x)
    show ?thesis
      using k(1) by (subst unblock_loop.simps(2), subst try_lock_reader)
        (simp_all add: dec Let_def pop_unblocked_readonly_usage_from_task_def x u)
  qed
qed

lemma front_read:
  assumes "is_read x"
  shows "front (x # xs) = length (takeWhile is_read (x # xs))"
    and "drop (front (x # xs)) (x # xs) = dropWhile is_read (x # xs)"
    and "take (front (x # xs)) (x # xs) = takeWhile is_read (x # xs)"
  using assms by (simp_all add: dropWhile_eq_drop flip: takeWhile_eq_take)

text \<open>With nobody holding the address, the loop grants the new front of the line.\<close>

lemma unblock_loop_front:
  assumes "length xs < 2 ^ 32" "wakeable cells (take (front xs) xs)"
    and "pop_front \<lparr>current_usage = None, blocked_usages_from_tasks = xs\<rparr> = (q, next)"
  shows "unblock_loop q cells uq next = Some (queue_of xs, wake cells uq (take (front xs) xs))"
proof (cases xs)
  case Nil
  with assms(3) show ?thesis by (auto simp: pop_front_def queue_of_def)
next
  case (Cons x ys)
  obtain u t where x: "x = (u, t)" by (cases x)
  have q: "q = \<lparr>current_usage = None, blocked_usages_from_tasks = ys\<rparr>" "next = Some (u, t)"
    using assms(3) by (auto simp: pop_front_def Cons x)
  show ?thesis
  proof (cases "is_read x")
    case True
    then have u: "u = RequestedReadonly" by (simp add: x)
    from front_read [OF True, of ys] True have f: "front xs = Suc (length (takeWhile is_read ys))"
      "drop (front xs) xs = dropWhile is_read ys" "take (front xs) xs = (u, t) # takeWhile is_read ys"
      unfolding Cons by (simp_all add: x)
    have w: "wakeable cells ((RequestedReadonly, t) # takeWhile is_read ys)"
      using assms(2) unfolding f(3) u .
    have "unblock_loop q cells uq next = Some (\<lparr>current_usage =
        Some (Readonly (of_nat (Suc 0 + length (takeWhile is_read ys)))),
      blocked_usages_from_tasks = dropWhile is_read ys\<rparr>, wake cells uq (take (front xs) xs))"
      using unblock_loop_readers [OF w, of 0 uq] assms(1) unfolding q f(3) u
      by (simp add: Cons del: wake.simps)
    moreover have "queue_of xs = \<lparr>current_usage =
        Some (Readonly (of_nat (Suc 0 + length (takeWhile is_read ys)))),
      blocked_usages_from_tasks = dropWhile is_read ys\<rparr>"
      unfolding queue_of_def f(2) using True f(1) by (simp add: Cons)
    ultimately show ?thesis by simp
  next
    case False
    then have u: "u = RequestedWritable" by (cases u) (simp_all add: x)
    have "sc_decrement (cells (count_cell t)) = Some (cells (count_cell t) - 1)"
      using assms(2) by (intro sc_decrement_Some) (simp add: wakeable_def Cons x u)
    then show ?thesis
      by (simp add: q Cons x u Let_def try_lock_def usage_from_def queue_of_def unblock_loop.simps(2))
  qed
qed

lemma unlock_queue_of:
  assumes xs: "xs = pre @ (u, t) # post" and held: "length pre < front xs" and len: "length xs < 2 ^ 32"
  shows "\<exists>g. drop (front xs) xs = g @ drop (front (pre @ post)) (pre @ post) \<and>
    (\<forall>cells uq. wakeable cells g \<longrightarrow>
      (unlock (queue_of xs) u \<bind> (\<lambda>(q, next). unblock_loop q cells uq next)) =
        Some (queue_of (pre @ post), wake cells uq g))"
proof (cases "front xs = 1")
  case True
  with held have pre: "pre = []" by simp
  have c: "current_usage (queue_of xs) = Some (usage_from u)" "blocked_usages_from_tasks (queue_of xs) = post"
    using True by (auto simp: queue_of_def xs pre usage_from_def requested_not_read split: requested_usage.splits if_splits)
  have q: "queue_of xs = \<lparr>current_usage = Some (usage_from u), blocked_usages_from_tasks = post\<rparr>"
    using c by (cases "queue_of xs") simp
  have "unlock (queue_of xs) u = Some (pop_front \<lparr>current_usage = None, blocked_usages_from_tasks = post\<rparr>)"
    unfolding q by (cases u) (simp_all add: unlock_def usage_from_def)
  moreover have "wakeable cells (take (front post) post) \<Longrightarrow>
    (case pop_front \<lparr>current_usage = None, blocked_usages_from_tasks = post\<rparr> of
       (q, next) \<Rightarrow> unblock_loop q cells uq next) = Some (queue_of post, wake cells uq (take (front post) post))"
    for cells uq
    using unblock_loop_front [of post cells] len by (auto simp: xs split: prod.splits)
  moreover have "drop (front xs) xs = take (front post) post @ drop (front post) post"
    using True by (simp add: xs pre)
  ultimately show ?thesis by (intro exI [of _ "take (front post) post"]) (simp add: pre)
next
  case False
  with held obtain x ys where x: "xs = x # ys" "is_read x" by (cases xs) (auto split: if_splits)
  note fr = front_read [OF x(2), of ys, folded x(1)]
  have len_tw: "length pre < length (takeWhile is_read xs)" using held fr(1) by simp
  have rd: "is_read (xs ! j)" if "j \<le> length pre" for j
    using len_tw that unfolding takeWhile_index by simp
  have "is_read (pre ! j)" if "j < length pre" for j
    using rd [of j] that by (simp add: xs nth_append)
  then have allr: "\<forall>y \<in> set pre. is_read y" "u = RequestedReadonly"
    using rd [of "length pre"] by (simp_all add: xs all_set_conv_all_nth)
  have tw: "takeWhile is_read xs = pre @ (u, t) # takeWhile is_read post"
    "dropWhile is_read xs = dropWhile is_read post"
    using allr by (simp_all add: xs takeWhile_append2 dropWhile_append2)
  have tw': "takeWhile is_read (pre @ post) = pre @ takeWhile is_read post"
    "dropWhile is_read (pre @ post) = dropWhile is_read post"
    using allr by (simp_all add: takeWhile_append2 dropWhile_append2)
  have n: "front xs = Suc (length pre + length (takeWhile is_read post))" using fr(1) tw by simp
  with False have "takeWhile is_read (pre @ post) \<noteq> []" unfolding tw' by auto
  then obtain y zs where y: "pre @ post = y # zs" "is_read y"
    by (cases "pre @ post") (auto split: if_splits)
  note fr' = front_read [OF y(2), of zs, folded y(1)]
  have n': "front xs = Suc (front (pre @ post))" using n fr'(1) tw' by simp
  have d: "drop (front xs) xs = drop (front (pre @ post)) (pre @ post)" using fr(2) fr'(2) tw tw' by simp
  have "sc_decrement (of_nat (front xs)) = Some (of_nat (front (pre @ post)))"
    unfolding n' using n' len front_le [of xs] by (intro sc_decrement_of_nat) simp
  moreover have "of_nat (front xs) \<noteq> (1 :: u32)"
    using False len front_le [of xs] by (simp add: word_unat_eq_iff unat_of_nat)
  moreover have "queue_of xs = \<lparr>current_usage = Some (Readonly (of_nat (front xs))),
    blocked_usages_from_tasks = drop (front xs) xs\<rparr>"
    using x by (simp add: queue_of_def)
  moreover have "queue_of (pre @ post) = \<lparr>current_usage = Some (Readonly (of_nat (front (pre @ post)))),
    blocked_usages_from_tasks = drop (front xs) xs\<rparr>"
    unfolding d using y by (simp add: queue_of_def)
  ultimately show ?thesis using d allr(2) by (intro exI [of _ "[]"]) (simp add: unlock_def)
qed

section \<open>The lines of the active tasks\<close>

definition usage_of :: "'tx task \<Rightarrow> queue_ref \<Rightarrow> requested_usage option" where
  "usage_of t = map_of (map (\<lambda>c. (lc_usage_queue c, lc_requested_usage c)) (lock_contexts t))"

text \<open>
  A task as the replay and banking stages create it: no address twice, which account lock
  validation ensures, and (far) fewer addresses than a counter can count.
\<close>

definition wf_task :: "'tx task \<Rightarrow> bool" where
  "wf_task t \<longleftrightarrow> distinct (map lc_usage_queue (lock_contexts t)) \<and> length (lock_contexts t) < 2 ^ 32 - 1"

lemma usage_of_context:
  "wf_task t \<Longrightarrow> usage_of t r = Some u \<longleftrightarrow> (\<exists>c \<in> set (lock_contexts t). lc_usage_queue c = r \<and> lc_requested_usage c = u)"
  by (auto simp: usage_of_def wf_task_def comp_def map_of_eq_Some_iff)

definition request :: "queue_ref \<Rightarrow> 'tx task \<Rightarrow> 'tx usage_from_task list" where
  "request r t = (case usage_of t r of None \<Rightarrow> [] | Some u \<Rightarrow> [(u, t)])"

definition line :: "'tx task list \<Rightarrow> queue_ref \<Rightarrow> 'tx usage_from_task list" where
  "line A r = concat (map (request r) A)"

lemma line_simps [simp]:
  "line [] r = []" "line (t # A) r = request r t @ line A r" "line (A @ B) r = line A r @ line B r"
  by (simp_all add: line_def)

lemma in_line_iff: "(u, t) \<in> set (line A r) \<longleftrightarrow> t \<in> set A \<and> usage_of t r = Some u"
  by (auto simp: line_def request_def split: option.splits)

lemma length_line: "length (line A r) \<le> length A"
  by (induction A) (auto simp: request_def split: option.splits)

lemma distinct_line: "distinct A \<Longrightarrow> distinct (map snd (line A r))"
  by (induction A) (auto simp: request_def in_line_iff split: option.splits)

lemma line_filter: "line (filter (\<lambda>x. x \<noteq> t) A) r = filter (\<lambda>x. snd x \<noteq> t) (line A r)"
  by (induction A) (auto simp: request_def split: option.splits)

text \<open>The queues where \<open>t\<close> is behind the front, given the line \<open>S r\<close> of every queue \<open>r\<close>.\<close>

definition waits :: "(queue_ref \<Rightarrow> 'tx usage_from_task list) \<Rightarrow> 'tx task \<Rightarrow> queue_ref set" where
  "waits S t = {r. t \<in> snd ` set (drop (front (S r)) (S r))}"

lemma blocked_in_line:
  assumes "distinct (map snd xs)" "xs = pre @ (u, t) # post"
  shows "t \<in> snd ` set (drop (front xs) xs) \<longleftrightarrow> front xs \<le> length pre"
proof
  assume "t \<in> snd ` set (drop (front xs) xs)"
  then obtain i where i: "front xs \<le> i" "i < length xs" "snd (xs ! i) = t"
    by (auto simp: in_set_conv_nth) (metis add.commute le_add2 less_diff_conv snd_conv)
  have "snd (xs ! length pre) = t" "length pre < length xs" by (simp_all add: assms(2))
  with i have "i = length pre"
    using nth_eq_iff_index_eq [OF assms(1), of i "length pre"] by simp
  with i(1) show "front xs \<le> length pre" by simp
next
  assume "front xs \<le> length pre"
  then have "drop (front xs) xs = drop (front xs) pre @ (u, t) # post"
    unfolding assms(2) by (simp del: front.simps)
  then show "t \<in> snd ` set (drop (front xs) xs)" by simp
qed

definition conflict_at :: "queue_ref \<Rightarrow> 'tx task \<Rightarrow> 'tx task \<Rightarrow> bool" where
  "conflict_at r t t' \<longleftrightarrow> (\<exists>u u'. usage_of t r = Some u \<and> usage_of t' r = Some u' \<and>
     (u = RequestedWritable \<or> u' = RequestedWritable))"

definition task_conflicts :: "'tx task \<Rightarrow> 'tx task \<Rightarrow> bool" where
  "task_conflicts t t' \<longleftrightarrow> (\<exists>r. conflict_at r t t')"

text \<open>A task waits exactly where a task scheduled before it conflicts with it.\<close>

lemma waits_line:
  assumes "distinct A" "A = pre @ t # post"
  shows "waits (line A) t = {r. \<exists>t' \<in> set pre. conflict_at r t' t}"
proof -
  have "t \<in> snd ` set (drop (front (line A r)) (line A r)) \<longleftrightarrow> (\<exists>t' \<in> set pre. conflict_at r t' t)" for r
  proof (cases "usage_of t r")
    case None
    have "t \<notin> snd ` set (line A r)" using None by (auto simp: in_line_iff)
    with None show ?thesis by (auto simp: conflict_at_def dest: in_set_dropD)
  next
    case (Some u)
    have l: "line A r = line pre r @ (u, t) # line post r"
      by (simp add: assms(2) request_def Some)
    have "t \<in> snd ` set (drop (front (line A r)) (line A r)) \<longleftrightarrow> \<not> length (line pre r) < front (line A r)"
      using blocked_in_line [OF distinct_line [OF assms(1)] l] by auto
    also have "\<dots> \<longleftrightarrow> \<not> (line pre r = [] \<or> (\<forall>j \<le> length (line pre r). is_read (line A r ! j)))"
      unfolding less_front_iff by (simp add: l)
    also have "(\<forall>j \<le> length (line pre r). is_read (line A r ! j)) \<longleftrightarrow>
      u = RequestedReadonly \<and> (\<forall>y \<in> set (line pre r). is_read y)"
      unfolding l by (auto simp: nth_append all_set_conv_all_nth le_less)
    also have "\<not> (line pre r = [] \<or> u = RequestedReadonly \<and> (\<forall>y \<in> set (line pre r). is_read y)) \<longleftrightarrow>
      (\<exists>y \<in> set (line pre r). u = RequestedWritable \<or> fst y = RequestedWritable)"
      unfolding requested_not_read [symmetric] by (cases "line pre r") auto
    also have "\<dots> \<longleftrightarrow> (\<exists>u' t'. (u', t') \<in> set (line pre r) \<and> (u = RequestedWritable \<or> u' = RequestedWritable))"
      by force
    also have "\<dots> \<longleftrightarrow> (\<exists>t' \<in> set pre. conflict_at r t' t)"
      by (auto simp: conflict_at_def Some in_line_iff)
    finally show ?thesis .
  qed
  then show ?thesis by (simp add: waits_def)
qed

section \<open>Unlocking the queues of a task\<close>

text \<open>
  The stores agree with the lines \<open>S\<close>: for the tasks \<open>T\<close>, of which \<open>R\<close> are running, the count of a
  waiting task is the number of queues it waits at, and the unblocked queue holds exactly the
  tasks that wait nowhere and do not run.
\<close>

definition agrees :: "(queue_ref \<Rightarrow> 'tx usage_from_task list) \<Rightarrow> 'tx task set \<Rightarrow> 'tx task set
  \<Rightarrow> (queue_ref \<Rightarrow> 'tx usage_queue_inner) \<Rightarrow> (nat \<Rightarrow> short_counter) \<Rightarrow> 'tx task list \<Rightarrow> bool"
where
  "agrees S T R qs cells uq \<longleftrightarrow> qs = (\<lambda>r. queue_of (S r)) \<and>
     (\<forall>t \<in> T. finite (waits S t) \<and>
        (waits S t \<noteq> {} \<longrightarrow> unat (cells (count_cell t)) = card (waits S t))) \<and>
     distinct uq \<and> set uq = {t \<in> T. waits S t = {}} - R \<and> (\<forall>t \<in> R. t \<in> T \<and> waits S t = {}) \<and>
     inj_on count_cell T"

definition lines_ok :: "(queue_ref \<Rightarrow> 'tx usage_from_task list) \<Rightarrow> 'tx task set \<Rightarrow> bool" where
  "lines_ok S T \<longleftrightarrow> (\<forall>r. distinct (map snd (S r)) \<and> snd ` set (S r) \<subseteq> T \<and> length (S r) < 2 ^ 32)"

lemma filter_remove_distinct:
  assumes "distinct (map snd (pre @ (u, t) # post))"
  shows "filter (\<lambda>x. snd x \<noteq> t) (pre @ (u, t) # post) = pre @ post"
proof -
  have "t \<notin> snd ` set pre" "t \<notin> snd ` set post" using assms by simp_all
  then have "\<forall>x \<in> set pre. snd x \<noteq> t" "\<forall>x \<in> set post. snd x \<noteq> t" by blast+
  then show ?thesis by simp
qed

lemma lines_ok_remove: "lines_ok S T \<Longrightarrow> lines_ok (S(r := filter P (S r))) T"
  unfolding lines_ok_def
  by (auto simp: distinct_map_filter intro: le_less_trans [OF length_filter_le])

text \<open>What a task waits for after the tasks of \<open>g\<close> have been granted queue \<open>r\<close>.\<close>

lemma waits_granted:
  assumes "distinct (map snd (S r))" "drop (front (S r)) (S r) = g @ drop (front ys) ys"
  shows "waits (S(r := ys)) t = (if t \<in> snd ` set g then waits S t - {r} else waits S t)"
    and "t \<in> snd ` set g \<Longrightarrow> r \<in> waits S t"
proof -
  have "distinct (map snd (drop (front (S r)) (S r)))" using assms(1) by (simp add: drop_map [symmetric])
  then have "snd ` set g \<inter> snd ` set (drop (front ys) ys) = {}" unfolding assms(2) by auto
  then have disj: "t \<notin> snd ` set (drop (front ys) ys)" if "t \<in> snd ` set g" using that by blast
  have in_r: "r \<in> waits S t \<longleftrightarrow> t \<in> snd ` set g \<or> t \<in> snd ` set (drop (front ys) ys)"
    unfolding waits_def mem_Collect_eq assms(2) by (simp only: set_append image_Un Un_iff)
  have upd: "q \<in> waits (S(r := ys)) t \<longleftrightarrow>
    (if q = r then t \<in> snd ` set (drop (front ys) ys) else q \<in> waits S t)" for q
    by (simp add: waits_def)
  show "waits (S(r := ys)) t = (if t \<in> snd ` set g then waits S t - {r} else waits S t)"
  proof (rule set_eqI)
    fix x
    show "x \<in> waits (S(r := ys)) t \<longleftrightarrow> x \<in> (if t \<in> snd ` set g then waits S t - {r} else waits S t)"
      unfolding upd using in_r disj by (cases "x = r"; cases "t \<in> snd ` set g") simp_all
  qed
  show "t \<in> snd ` set g \<Longrightarrow> r \<in> waits S t" using in_r by simp
qed

lemma unat_dec_pos: "0 < unat c \<Longrightarrow> unat (c - 1) = unat c - 1" for c :: "'a::len word"
  by (simp add: unat_minus_one unat_gt_0)

text \<open>The tasks of \<open>g\<close> whose count was one are those that no longer wait anywhere.\<close>

lemma woken_ready:
  assumes ag: "agrees S T R qs cells uq"
    and w: "\<And>t. waits S' t = (if t \<in> snd ` set g then waits S t - {r} else waits S t)"
      "\<And>t. t \<in> snd ` set g \<Longrightarrow> r \<in> waits S t"
    and cnt: "\<And>x. x \<in> set g \<Longrightarrow> unat (cells (count_cell (snd x))) = card (waits S (snd x))"
      "\<And>x. x \<in> set g \<Longrightarrow> card (waits S (snd x)) > 0"
  shows "t \<in> T \<and> waits S' t = {} \<and> t \<notin> R \<longleftrightarrow>
    t \<in> set uq \<or> t \<in> T \<and> t \<in> snd ` {x \<in> set g. cells (count_cell (snd x)) = 1}"
proof (cases "t \<in> snd ` set g")
  case True
  then have r: "r \<in> waits S t" by (rule w(2))
  have one: "cells (count_cell t) = 1 \<longleftrightarrow> waits S t = {r}"
  proof -
    obtain x where "x \<in> set g" "t = snd x" using True by auto
    then have "unat (cells (count_cell t)) = card (waits S t)" using cnt(1) by simp
    then have "cells (count_cell t) = 1 \<longleftrightarrow> card (waits S t) = 1"
      by (simp add: word_unat_eq_iff)
    also have "\<dots> \<longleftrightarrow> waits S t = {r}" using r by (auto simp: card_Suc_eq)
    finally show ?thesis .
  qed
  have "t \<in> snd ` {x \<in> set g. cells (count_cell (snd x)) = 1} \<longleftrightarrow> waits S t = {r}"
    using True one by auto
  moreover have "waits S' t = {} \<longleftrightarrow> waits S t = {r}" using w(1) [of t] True r by auto
  moreover have "t \<notin> R" "t \<notin> set uq" using ag r by (auto simp: agrees_def)
  ultimately show ?thesis by auto
next
  case False
  with w(1) [of t] ag show ?thesis by (auto simp: agrees_def)
qed

lemma unlock_context_agrees:
  assumes ag: "agrees S T R qs cells uq" and ok: "lines_ok S (insert t T)"
    and xs: "S (lc_usage_queue c) = pre @ (lc_requested_usage c, t) # post"
    and held: "length pre < front (S (lc_usage_queue c))" and t: "t \<notin> T"
  shows "\<exists>qs' cells' uq'. unlock_context_step (qs, cells, uq) c = Some (qs', cells', uq') \<and>
    agrees (S(lc_usage_queue c := filter (\<lambda>x. snd x \<noteq> t) (S (lc_usage_queue c)))) T R qs' cells' uq'"
proof -
  let ?r = "lc_usage_queue c"
  let ?ys = "pre @ post"
  have dis: "distinct (map snd (S ?r))" and sub: "snd ` set (S ?r) \<subseteq> insert t T"
    and len: "length (S ?r) < 2 ^ 32" using ok by (simp_all add: lines_ok_def)
  have flt: "filter (\<lambda>x. snd x \<noteq> t) (S ?r) = ?ys"
    using dis unfolding xs by (rule filter_remove_distinct)
  obtain g where g: "drop (front (S ?r)) (S ?r) = g @ drop (front ?ys) ?ys"
    and step: "\<And>cells uq. wakeable cells g \<Longrightarrow>
      (unlock (queue_of (S ?r)) (lc_requested_usage c) \<bind> (\<lambda>(q, next). unblock_loop q cells uq next)) =
        Some (queue_of ?ys, wake cells uq g)"
    using unlock_queue_of [OF xs held len] by blast
  note w = waits_granted [of S ?r g ?ys, OF dis g]
  have gT: "snd x \<in> T" if "x \<in> set g" for x
  proof -
    have "snd x \<in> snd ` set (drop (front (S ?r)) (S ?r))" using that by (simp add: g)
    moreover have "t \<notin> snd ` set (drop (front (S ?r)) (S ?r))"
      using blocked_in_line [OF dis xs] held by simp
    ultimately show ?thesis using sub by (auto dest: in_set_dropD)
  qed
  have "distinct (map snd (drop (front (S ?r)) (S ?r)))" using dis by (simp add: drop_map [symmetric])
  then have dg: "distinct (map snd g)" unfolding g by simp
  have cnt: "unat (cells (count_cell (snd x))) = card (waits S (snd x))" "card (waits S (snd x)) > 0"
    if "x \<in> set g" for x
    using ag gT [OF that] w(2) [of "snd x"] that by (auto simp: agrees_def card_gt_0_iff)
  have wk: "wakeable cells g"
    unfolding wakeable_def
  proof
    have "inj_on count_cell (set (map snd g))"
      using ag gT by (auto simp: agrees_def intro: inj_on_subset)
    then show "distinct (map (count_cell \<circ> snd) g)"
      using dg distinct_map [of count_cell "map snd g"] by simp
    show "\<forall>x \<in> set g. cells (count_cell (snd x)) \<noteq> 0" using cnt by fastforce
  qed
  define cells' where "cells' = (\<lambda>c. if c \<in> (count_cell \<circ> snd) ` set g then cells c - 1 else cells c)"
  define uq' where "uq' = uq @ map snd (filter (\<lambda>x. cells (count_cell (snd x)) = 1) g)"
  have res: "unlock_context_step (qs, cells, uq) c = Some (qs(?r := queue_of ?ys), cells', uq')"
    using step [OF wk, of uq] ag wake_effect [OF wk, of uq]
    by (auto simp: unlock_context_step_def agrees_def cells'_def uq'_def bind_eq_Some_conv Let_def)
  have in_g: "count_cell t' \<in> (count_cell \<circ> snd) ` set g \<longleftrightarrow> t' \<in> snd ` set g" if "t' \<in> T" for t'
  proof
    assume "count_cell t' \<in> (count_cell \<circ> snd) ` set g"
    then obtain x where "x \<in> set g" "count_cell t' = count_cell (snd x)" by auto
    with ag that gT [of x] have "t' = snd x" by (auto simp: agrees_def inj_on_def)
    with \<open>x \<in> set g\<close> show "t' \<in> snd ` set g" by simp
  qed auto
  note ready = woken_ready [OF ag w cnt]
  have "unat (cells' (count_cell t')) = card (waits (S(?r := ?ys)) t')"
    if "t' \<in> T" "waits (S(?r := ?ys)) t' \<noteq> {}" for t'
  proof (cases "t' \<in> snd ` set g")
    case True
    then obtain x where x: "x \<in> set g" "t' = snd x" by auto
    have "finite (waits S t')" "r \<in> waits S t' \<Longrightarrow> card (waits S t' - {r}) = card (waits S t') - 1" for r
      using ag that(1) by (auto simp: agrees_def)
    with x cnt [OF x(1)] w(2) [of t'] w(1) [of t'] True in_g [OF that(1)] show ?thesis
      by (simp add: cells'_def unat_dec_pos)
  next
    case False
    with w(1) [of t'] in_g [OF that(1)] ag that show ?thesis by (simp add: cells'_def agrees_def)
  qed
  moreover have "finite (waits (S(?r := ?ys)) t')" if "t' \<in> T" for t'
    using w(1) [of t'] ag that by (auto simp: agrees_def)
  moreover have "distinct uq'"
    using ag dg w(2) by (auto simp: uq'_def agrees_def distinct_map_filter)
  moreover have "set uq' = {t' \<in> T. waits (S(?r := ?ys)) t' = {}} - R"
    using ready gT by (auto simp: uq'_def)
  moreover have "\<forall>t' \<in> R. t' \<in> T \<and> waits (S(?r := ?ys)) t' = {}"
    using ag w(1) by (auto simp: agrees_def)
  moreover have "qs(?r := queue_of ?ys) = (\<lambda>r. queue_of ((S(?r := ?ys)) r))"
    using ag by (auto simp: agrees_def)
  moreover have "inj_on count_cell T" using ag by (simp add: agrees_def)
  ultimately have "agrees (S(?r := ?ys)) T R (qs(?r := queue_of ?ys)) cells' uq'"
    unfolding agrees_def by simp
  with res show ?thesis unfolding flt by blast
qed

lemma unlock_fold_agrees:
  assumes "agrees S T R qs cells uq" "lines_ok S (insert t T)" "t \<notin> T" "distinct (map lc_usage_queue cs)"
    and "\<And>c. c \<in> set cs \<Longrightarrow> \<exists>pre post. S (lc_usage_queue c) = pre @ (lc_requested_usage c, t) # post \<and>
      length pre < front (S (lc_usage_queue c))"
  shows "\<exists>qs' cells' uq'. fold_opt unlock_context_step (qs, cells, uq) cs = Some (qs', cells', uq') \<and>
    agrees (\<lambda>r. if r \<in> lc_usage_queue ` set cs then filter (\<lambda>x. snd x \<noteq> t) (S r) else S r) T R qs' cells' uq'"
  using assms
proof (induction cs arbitrary: S qs cells uq)
  case (Cons c cs)
  let ?r = "lc_usage_queue c"
  let ?S = "S(?r := filter (\<lambda>x. snd x \<noteq> t) (S ?r))"
  obtain pre post where p: "S ?r = pre @ (lc_requested_usage c, t) # post" "length pre < front (S ?r)"
    using Cons.prems(5) [of c] by auto
  obtain qs1 cells1 uq1 where 1: "unlock_context_step (qs, cells, uq) c = Some (qs1, cells1, uq1)"
    "agrees ?S T R qs1 cells1 uq1"
    using unlock_context_agrees [OF Cons.prems(1,2) p Cons.prems(3)] by blast
  have "?S (lc_usage_queue d) = S (lc_usage_queue d)" if "d \<in> set cs" for d
    using Cons.prems(4) that by (auto simp: image_iff)
  with Cons.prems(4,5) obtain qs2 cells2 uq2 where
    2: "fold_opt unlock_context_step (qs1, cells1, uq1) cs = Some (qs2, cells2, uq2)"
    "agrees (\<lambda>r. if r \<in> lc_usage_queue ` set cs then filter (\<lambda>x. snd x \<noteq> t) (?S r) else ?S r) T R qs2 cells2 uq2"
    using Cons.IH [OF 1(2) lines_ok_remove [OF Cons.prems(2)] Cons.prems(3)] by fastforce
  have "(\<lambda>r. if r \<in> lc_usage_queue ` set cs then filter (\<lambda>x. snd x \<noteq> t) (?S r) else ?S r) =
    (\<lambda>r. if r \<in> lc_usage_queue ` set (c # cs) then filter (\<lambda>x. snd x \<noteq> t) (S r) else S r)"
    by (auto simp: fun_eq_iff)
  with 1(1) 2 show ?case by auto
qed simp

section \<open>Locking the queues of a task\<close>

definition requests_of :: "'tx task \<Rightarrow> lock_context list \<Rightarrow> queue_ref \<Rightarrow> 'tx usage_from_task list" where
  "requests_of t cs r = map (\<lambda>c. (lc_requested_usage c, t)) (filter (\<lambda>c. lc_usage_queue c = r) cs)"

lemma lock_fold:
  assumes "\<And>r. Suc (length (S r)) < 2 ^ 32" "distinct (map lc_usage_queue cs)" "n + length cs < 2 ^ 32"
  shows "fold_opt (lock_context_step t) ((\<lambda>r. queue_of (S r)), of_nat n) cs =
    Some ((\<lambda>r. queue_of (S r @ requests_of t cs r)),
      of_nat (n + length (filter (\<lambda>c. joins_blocked (S (lc_usage_queue c)) (lc_requested_usage c, t)) cs)))"
  using assms
proof (induction cs arbitrary: S n rule: rev_induct)
  case (snoc c cs)
  let ?r = "lc_usage_queue c" and ?k = "length (filter (\<lambda>c. joins_blocked (S (lc_usage_queue c)) (lc_requested_usage c, t)) cs)"
  have r: "requests_of t cs ?r = []"
    using snoc.prems(2) by (auto simp: requests_of_def filter_empty_conv image_iff)
  have "Suc (n + ?k) < 2 ^ 32" by (rule le_less_trans [OF _ snoc.prems(3)]) simp
  with lock_context_step_queue_of [of "\<lambda>r. queue_of (S r @ requests_of t cs r)" c "S ?r" "n + ?k" t] snoc.prems(1) r
  have "lock_context_step t ((\<lambda>r. queue_of (S r @ requests_of t cs r)), of_nat (n + ?k)) c =
    Some ((\<lambda>r. queue_of (S r @ requests_of t cs r))(?r := queue_of (S ?r @ [(lc_requested_usage c, t)])),
      of_nat (if joins_blocked (S ?r) (lc_requested_usage c, t) then Suc (n + ?k) else n + ?k))"
    by simp
  moreover have "(\<lambda>r. queue_of (S r @ requests_of t cs r))(?r := queue_of (S ?r @ [(lc_requested_usage c, t)])) =
    (\<lambda>r. queue_of (S r @ requests_of t (cs @ [c]) r))"
    using r by (auto simp: fun_eq_iff requests_of_def)
  ultimately show ?case
    using snoc.IH [of S n] snoc.prems by (simp add: fold_opt_append del: of_nat_Suc of_nat_add)
qed (simp add: requests_of_def)

lemma requests_of_task: "wf_task t \<Longrightarrow> requests_of t (lock_contexts t) r = request r t"
proof -
  have "distinct (map lc_usage_queue cs) \<Longrightarrow> requests_of t cs r =
    (case map_of (map (\<lambda>c. (lc_usage_queue c, lc_requested_usage c)) cs) r of None \<Rightarrow> [] | Some u \<Rightarrow> [(u, t)])" for cs
    by (induction cs) (auto simp: requests_of_def filter_empty_conv split: option.splits dest!: map_of_SomeD)
  then show "wf_task t \<Longrightarrow> requests_of t (lock_contexts t) r = request r t"
    by (simp add: wf_task_def request_def usage_of_def)
qed

text \<open>A task that joins the lines at the end changes nothing for the tasks before it.\<close>

lemma waits_snoc_other:
  assumes "distinct (A @ [t])" "t' \<in> set A"
  shows "waits (line (A @ [t])) t' = waits (line A) t'"
proof -
  obtain pre post where A: "A = pre @ t' # post" using assms(2) by (meson split_list)
  show ?thesis
    using waits_line [of A pre t' post] waits_line [of "A @ [t]" pre t' "post @ [t]"] assms(1) A by simp
qed

lemma waits_new:
  assumes "distinct (A @ [t])" "wf_task t"
  shows "finite (waits (line (A @ [t])) t)"
    and "card (waits (line (A @ [t])) t) = length (filter (\<lambda>c. joins_blocked (line A (lc_usage_queue c))
      (lc_requested_usage c, t)) (lock_contexts t))" (is "_ = length (filter ?b _)")
proof -
  have "r \<in> waits (line (A @ [t])) t \<longleftrightarrow> r \<in> lc_usage_queue ` set (filter ?b (lock_contexts t))" for r
  proof (cases "usage_of t r")
    case None
    have "lc_usage_queue c \<noteq> r" if "c \<in> set (lock_contexts t)" for c
      using usage_of_context [OF assms(2), of r "lc_requested_usage c"] None that by auto
    moreover have "r \<notin> waits (line (A @ [t])) t"
      using None waits_line [OF assms(1), of A t "[]"] by (simp add: conflict_at_def)
    ultimately show ?thesis by auto
  next
    case (Some u)
    then obtain c where c: "c \<in> set (lock_contexts t)" "lc_usage_queue c = r" "lc_requested_usage c = u"
      using usage_of_context [OF assms(2), of r u] by blast
    have uniq: "d = c" if "d \<in> set (lock_contexts t)" "lc_usage_queue d = r" for d
      using that c(1,2) assms(2) unfolding wf_task_def distinct_map inj_on_def by blast
    have "r \<in> waits (line (A @ [t])) t \<longleftrightarrow> front (line A r @ [(u, t)]) \<le> length (line A r)"
      using blocked_in_line [OF distinct_line [OF assms(1), of r], of "line A r" u t "[]"] Some
      by (simp add: waits_def request_def)
    also have "\<dots> \<longleftrightarrow> ?b c" using front_le [of "line A r"] c(2,3) by (simp add: front_joins)
    also have "\<dots> \<longleftrightarrow> r \<in> lc_usage_queue ` set (filter ?b (lock_contexts t))"
    proof
      assume "r \<in> lc_usage_queue ` set (filter ?b (lock_contexts t))"
      then obtain d where "d \<in> set (lock_contexts t)" "?b d" "lc_usage_queue d = r" by auto
      with uniq show "?b c" by blast
    next
      assume "?b c"
      with c(1) have "c \<in> set (filter ?b (lock_contexts t))" by simp
      with c(2) show "r \<in> lc_usage_queue ` set (filter ?b (lock_contexts t))" by blast
    qed
    finally show ?thesis .
  qed
  then have eq: "waits (line (A @ [t])) t = lc_usage_queue ` set (filter ?b (lock_contexts t))" by auto
  then show "finite (waits (line (A @ [t])) t)" by simp
  have "distinct (map lc_usage_queue (filter ?b (lock_contexts t)))"
    using assms(2) by (simp add: wf_task_def distinct_map_filter)
  from distinct_card [OF this] show "card (waits (line (A @ [t])) t) = length (filter ?b (lock_contexts t))"
    by (simp add: eq)
qed

section \<open>The state machine and its active tasks\<close>

text \<open>
  \<open>A\<close> are the active tasks in the order they were scheduled, \<open>R\<close> those handed out to run. The
  counter \<^verbatim>\<open>unblocked_task_count\<close>, raised when a task is buffered and again when it leaves the
  unblocked queue, is at most twice the total; so up to \<open>2 ^ 31 - 1\<close> tasks between two
  reinitializations no counter can overflow.
\<close>

definition machine_inv :: "'tx scheduling_state_machine \<Rightarrow> 'tx task list \<Rightarrow> 'tx task set \<Rightarrow> bool" where
  "machine_inv m A R \<longleftrightarrow> distinct A \<and> (\<forall>t \<in> set A. wf_task t) \<and>
     agrees (line A) (set A) R (usage_queues m) (blocked_usage_counts m) (unblocked_task_queue m) \<and>
     unat (active_task_count m) = length A \<and> unat (running_task_count m) = card R \<and>
     unat (total_task_count m) = unat (handled_task_count m) + length A \<and>
     unat (unblocked_task_count m) \<le> unat (total_task_count m) + unat (handled_task_count m) + card R \<and>
     running_task_count m \<le> max_running_task_count m \<and> unat (total_task_count m) < 2 ^ 31"

lemma machine_invD:
  assumes "machine_inv m A R"
  shows "distinct A" "t \<in> set A \<Longrightarrow> wf_task t"
    "agrees (line A) (set A) R (usage_queues m) (blocked_usage_counts m) (unblocked_task_queue m)"
    "unat (active_task_count m) = length A" "unat (running_task_count m) = card R"
    "unat (total_task_count m) = unat (handled_task_count m) + length A"
    "unat (unblocked_task_count m) \<le> unat (total_task_count m) + unat (handled_task_count m) + card R"
    "running_task_count m \<le> max_running_task_count m"
    "unat (total_task_count m) < 2 ^ 31"
    "length A < 2 ^ 32" "finite R" "R \<subseteq> set A" "card R \<le> length A"
proof -
  have "unat (active_task_count m) < 2 ^ 32" using unsigned_less [of "active_task_count m"] by simp
  then show "length A < 2 ^ 32" using assms by (simp add: machine_inv_def)
  show sub: "R \<subseteq> set A" using assms by (auto simp: machine_inv_def agrees_def)
  then show "finite R" by (rule finite_subset) simp
  show "card R \<le> length A" using card_mono [OF _ sub] card_length [of A] by simp
qed (use assms in \<open>auto simp: machine_inv_def\<close>)

lemma line_lines_ok:
  assumes "distinct A" "length A < 2 ^ 32"
  shows "lines_ok (line A) (set A)"
  using distinct_line [OF assms(1)] le_less_trans [OF length_line assms(2)]
  by (auto simp: lines_ok_def in_line_iff)

lemma initialize_inv: "initialize mx cells = Some m \<Longrightarrow> machine_inv m [] {}"
  by (auto simp: initialize_def Let_def machine_inv_def agrees_def queue_of_Nil split: if_splits)

text \<open>A new task takes its place at the end of every line it asks for.\<close>

lemma lock_agrees:
  assumes ag: "agrees (line A) (set A) R qs cells uq" and d: "distinct (A @ [t])" "wf_task t"
    and len: "Suc (length A) < 2 ^ 32" and cell: "count_cell t \<notin> count_cell ` set A"
  defines "n \<equiv> card (waits (line (A @ [t])) t)" and "S \<equiv> line (A @ [t])"
  shows "fold_opt (lock_context_step t) (qs, 0) (lock_contexts t) = Some ((\<lambda>r. queue_of (S r)), of_nat n)"
    and "n < 2 ^ 32" and "n = 0 \<longleftrightarrow> waits S t = {}"
    and "n = 0 \<Longrightarrow> agrees S (set (A @ [t])) (insert t R) (\<lambda>r. queue_of (S r)) cells uq"
    and "n \<noteq> 0 \<Longrightarrow> agrees S (set (A @ [t])) R (\<lambda>r. queue_of (S r)) (cells(count_cell t := of_nat n)) uq"
proof -
  note new = waits_new [OF d]
  have "Suc (length (line A r)) < 2 ^ 32" for r using length_line [of A r] len by simp
  moreover have "0 + length (lock_contexts t) < 2 ^ 32" "distinct (map lc_usage_queue (lock_contexts t))"
    using d(2) by (auto simp: wf_task_def)
  ultimately have "fold_opt (lock_context_step t) ((\<lambda>r. queue_of (line A r)), of_nat 0) (lock_contexts t) =
    Some ((\<lambda>r. queue_of (line A r @ requests_of t (lock_contexts t) r)), of_nat n)"
    using lock_fold [of "line A" "lock_contexts t" 0 t] unfolding n_def new(2) by simp
  then show "fold_opt (lock_context_step t) (qs, 0) (lock_contexts t) = Some ((\<lambda>r. queue_of (S r)), of_nat n)"
    using ag by (simp add: agrees_def S_def requests_of_task [OF d(2)])
  have "n \<le> length (lock_contexts t)" unfolding n_def new(2) by simp
  then show n: "n < 2 ^ 32" using d(2) by (simp add: wf_task_def)
  show n0: "n = 0 \<longleftrightarrow> waits S t = {}" using new(1) by (simp add: n_def S_def)
  have other: "waits S t' = waits (line A) t'" if "t' \<in> set A" for t'
    using waits_snoc_other [OF d(1) that] by (simp add: S_def)
  have tA: "t \<notin> set A" using d(1) by simp
  have inj: "inj_on count_cell (set (A @ [t]))" using ag cell by (auto simp: agrees_def)
  show "agrees S (set (A @ [t])) (insert t R) (\<lambda>r. queue_of (S r)) cells uq" if "n = 0"
    using ag that n0 other tA inj by (auto simp: agrees_def)
  have neq: "count_cell t' \<noteq> count_cell t" if "t' \<in> set A" for t' using cell that by (metis image_eqI)
  have "unat (of_nat n :: short_counter) = card (waits S t)"
    using n by (simp add: unat_of_nat n_def S_def)
  then show "agrees S (set (A @ [t])) R (\<lambda>r. queue_of (S r)) (cells(count_cell t := of_nat n)) uq" if "n \<noteq> 0"
    using ag that n0 other tA inj new(1) neq unfolding agrees_def by (auto simp: S_def)
qed

lemma waits_empty_iff:
  assumes "distinct (pre @ t # post)"
  shows "waits (line (pre @ t # post)) t = {} \<longleftrightarrow> (\<forall>t' \<in> set pre. \<not> task_conflicts t' t)"
  using waits_line [OF assms refl] by (auto simp: task_conflicts_def)

lemma sc_increment_unat:
  "Suc (unat c) < 2 ^ 32 \<Longrightarrow> sc_increment c = Some (c + 1) \<and> unat (c + 1) = Suc (unat c)"
  using unat_add_lt [of c 1] by (simp add: sc_increment_def checked_add_def)

lemma sc_decrement_unat:
  "unat c = Suc n \<Longrightarrow> sc_decrement c = Some (c - 1) \<and> unat (c - 1) = n"
  using sc_decrement_Some [of c] unat_dec_pos [of c] by (auto simp: word_unat_eq_iff)

lemma agrees_buffer:
  "agrees S T (insert t R) qs cells uq \<Longrightarrow> t \<notin> R \<Longrightarrow> agrees S T R qs cells (uq @ [t])"
  by (auto simp: agrees_def)

lemma agrees_run:
  "agrees S T R qs cells (t # uq) \<Longrightarrow> agrees S T (insert t R) qs cells uq"
  by (auto simp: agrees_def)

lemma unblocked_room:
  assumes "machine_inv m A R"
  shows "Suc (unat (unblocked_task_count m)) < 2 ^ 32"
  using machine_invD(6,7,9,13) [OF assms] by simp

lemma running_up:
  assumes inv: "machine_inv m A R" and "is_task_runnable m"
  shows "sc_increment (running_task_count m) = Some (running_task_count m + 1)"
    "unat (running_task_count m + 1) = Suc (card R)" "running_task_count m + 1 \<le> max_running_task_count m"
proof -
  note i = machine_invD [OF inv]
  have "card R < 2 ^ 31" using i(13,6,9) by simp
  then show inc: "sc_increment (running_task_count m) = Some (running_task_count m + 1)"
    "unat (running_task_count m + 1) = Suc (card R)"
    using sc_increment_unat [of "running_task_count m"] i(5) by auto
  show "running_task_count m + 1 \<le> max_running_task_count m"
    using assms(2) inc(2) i(5) by (simp add: is_task_runnable_def word_le_nat_alt word_less_nat_alt)
qed

lemma schedule_inv:
  assumes inv: "machine_inv m A R" and t: "wf_task t" "count_cell t \<notin> count_cell ` set A"
    and room: "unat (total_task_count m) < 2 ^ 31 - 1"
  defines "ready \<equiv> \<forall>t' \<in> set A. \<not> task_conflicts t' t"
  shows "\<exists>m' r. schedule_or_buffer_task m t fb = Some (m', r) \<and>
    r = (if ready \<and> is_task_runnable m \<and> \<not> fb then Some t else None) \<and>
    machine_inv m' (A @ [t]) (R \<union> set_option r)"
proof -
  note i = machine_invD [OF inv]
  have d: "distinct (A @ [t])" using i(1) t(2) by auto
  have len: "Suc (length A) < 2 ^ 32" using room i(6) by simp
  have tR: "t \<notin> R" using t(2) i(12) by auto
  have unb: "Suc (unat (unblocked_task_count m)) < 2 ^ 32" by (rule unblocked_room [OF inv])
  note lk = lock_agrees [OF i(3) d t(1) len t(2)]
  define n where "n = card (waits (line (A @ [t])) t)"
  have rd: "n = 0 \<longleftrightarrow> ready"
    using lk(3) waits_empty_iff [of A t "[]"] d by (simp add: n_def ready_def)
  have n0: "of_nat n = (0 :: u32) \<longleftrightarrow> n = 0"
    using lk(2) by (simp add: n_def word_unat_eq_iff unat_of_nat)
  define S where "S = line (A @ [t])"
  define m1 where "m1 = m\<lparr>total_task_count := total_task_count m + 1,
    active_task_count := active_task_count m + 1, usage_queues := (\<lambda>r. queue_of (S r))\<rparr>"
  have tot: "sc_increment (total_task_count m) = Some (total_task_count m + 1)"
    "unat (total_task_count m + 1) = Suc (unat (total_task_count m))"
    and act: "sc_increment (active_task_count m) = Some (active_task_count m + 1)"
    "unat (active_task_count m + 1) = Suc (length A)"
    using sc_increment_unat [of "total_task_count m"] sc_increment_unat [of "active_task_count m"]
      room len i(4) by auto
  have tr: "try_lock_usage_queues (m\<lparr>total_task_count := total_task_count m + 1,
      active_task_count := active_task_count m + 1\<rparr>) t = Some (if ready then (m1, Some t)
    else (m1\<lparr>blocked_usage_counts := (blocked_usage_counts m)(count_cell t := of_nat n)\<rparr>, None))"
    using lk(1) rd n0 by (simp add: try_lock_usage_queues_def m1_def S_def n_def)
  note base = i(1,4-8) tot act d t(1) i(2)
  consider "\<not> ready" | "ready" "\<not> is_task_runnable m \<or> fb" | "ready" "is_task_runnable m" "\<not> fb" by blast
  then show ?thesis
  proof cases
    case 1
    then have "agrees S (set (A @ [t])) R (\<lambda>r. queue_of (S r)) ((blocked_usage_counts m)(count_cell t := of_nat n)) (unblocked_task_queue m)"
      using lk(5) rd by (simp add: n_def S_def)
    then show ?thesis
      using 1 base room tr unfolding machine_inv_def
      by (simp add: schedule_or_buffer_task_def m1_def S_def)
  next
    case 2
    have "agrees S (set (A @ [t])) R (\<lambda>r. queue_of (S r)) (blocked_usage_counts m) (unblocked_task_queue m @ [t])"
      using lk(4) rd 2(1) tR by (intro agrees_buffer) (simp_all add: n_def S_def)
    moreover have "\<not> is_task_runnable m1 \<or> fb" using 2(2) by (simp add: m1_def is_task_runnable_def)
    moreover have "sc_increment (unblocked_task_count m1) = Some (unblocked_task_count m + 1)"
      "unat (unblocked_task_count m + 1) = Suc (unat (unblocked_task_count m))"
      using sc_increment_unat [of "unblocked_task_count m"] unb by (simp_all add: m1_def)
    ultimately show ?thesis
      using 2 base room tr unfolding machine_inv_def
      by (auto simp: schedule_or_buffer_task_def m1_def S_def)
  next
    case 3
    have "agrees S (set (A @ [t])) (insert t R) (\<lambda>r. queue_of (S r)) (blocked_usage_counts m) (unblocked_task_queue m)"
      using lk(4) rd 3(1) by (simp add: n_def S_def)
    moreover have "is_task_runnable m1" using 3(2) by (simp add: m1_def is_task_runnable_def)
    moreover have "sc_increment (running_task_count m1) = Some (running_task_count m + 1)"
      "unat (running_task_count m + 1) = Suc (card R)" "running_task_count m + 1 \<le> max_running_task_count m"
      using running_up [OF inv 3(2)] by (simp_all add: m1_def)
    ultimately show ?thesis
      using 3 base room tr i(11) tR unfolding machine_inv_def
      by (simp add: schedule_or_buffer_task_def m1_def S_def)
  qed
qed

lemma next_inv:
  assumes inv: "machine_inv m A R"
  shows "\<exists>m' r. schedule_next_unblocked_task m = Some (m', r) \<and>
    r = (if is_task_runnable m \<and> unblocked_task_queue m \<noteq> [] then Some (hd (unblocked_task_queue m)) else None) \<and>
    machine_inv m' A (R \<union> set_option r)"
proof (cases "is_task_runnable m \<and> unblocked_task_queue m \<noteq> []")
  case True
  then obtain t ts where q: "unblocked_task_queue m = t # ts" by (cases "unblocked_task_queue m") auto
  note i = machine_invD [OF inv]
  have t: "t \<notin> R" using i(3) by (auto simp: agrees_def q)
  have "agrees (line A) (set A) (insert t R) (usage_queues m) (blocked_usage_counts m) ts"
    using i(3) agrees_run by (simp add: q)
  moreover note running_up [OF inv conjunct1 [OF True]]
    sc_increment_unat [OF unblocked_room [OF inv]]
  ultimately show ?thesis
    using True i(1,2,4-9,11) t unfolding machine_inv_def
    by (simp add: schedule_next_unblocked_task_def q)
next
  case False
  with inv show ?thesis
    by (auto simp: schedule_next_unblocked_task_def split: list.splits)
qed

lemma unlock_agrees:
  assumes ag: "agrees (line A) (set A) R qs cells uq" and d: "distinct A" "wf_task t" "length A < 2 ^ 32"
    and t: "t \<in> R"
  defines "A' \<equiv> filter (\<lambda>x. x \<noteq> t) A"
  shows "\<exists>qs' cells' uq'. fold_opt unlock_context_step (qs, cells, uq) (lock_contexts t) = Some (qs', cells', uq') \<and>
    agrees (line A') (set A') (R - {t}) qs' cells' uq'"
proof -
  have tA: "t \<in> set A" and w0: "waits (line A) t = {}" using ag t by (auto simp: agrees_def)
  then obtain p q where A: "A = p @ t # q" by (meson split_list)
  have ag': "agrees (line A) (set A - {t}) (R - {t}) qs cells uq"
    using ag t by (auto simp: agrees_def intro: inj_on_subset)
  have ok: "lines_ok (line A) (insert t (set A - {t}))"
    using line_lines_ok [OF d(1,3)] tA by (simp add: insert_absorb)
  have held: "\<exists>pre post. line A (lc_usage_queue c) = pre @ (lc_requested_usage c, t) # post \<and>
    length pre < front (line A (lc_usage_queue c))" if "c \<in> set (lock_contexts t)" for c
  proof -
    have "usage_of t (lc_usage_queue c) = Some (lc_requested_usage c)"
      using usage_of_context [OF d(2)] that by blast
    then have l: "line A (lc_usage_queue c) =
      line p (lc_usage_queue c) @ (lc_requested_usage c, t) # line q (lc_usage_queue c)"
      by (simp add: A request_def)
    moreover have "\<not> front (line A (lc_usage_queue c)) \<le> length (line p (lc_usage_queue c))"
      using blocked_in_line [OF distinct_line [OF d(1)] l] w0 by (auto simp: waits_def)
    ultimately show ?thesis by (intro exI conjI) auto
  qed
  have "distinct (map lc_usage_queue (lock_contexts t))" using d(2) by (simp add: wf_task_def)
  from unlock_fold_agrees [OF ag' ok _ this held] obtain qs' cells' uq' where
    res: "fold_opt unlock_context_step (qs, cells, uq) (lock_contexts t) = Some (qs', cells', uq')"
    "agrees (\<lambda>r. if r \<in> lc_usage_queue ` set (lock_contexts t) then filter (\<lambda>x. snd x \<noteq> t) (line A r)
      else line A r) (set A - {t}) (R - {t}) qs' cells' uq'" by blast
  have "filter (\<lambda>x. snd x \<noteq> t) (line A r) = line A r" if "r \<notin> lc_usage_queue ` set (lock_contexts t)" for r
  proof -
    have "usage_of t r = None" using that usage_of_context [OF d(2), of r] by (cases "usage_of t r") auto
    then show ?thesis by (auto simp: filter_id_conv in_line_iff)
  qed
  then have "(\<lambda>r. if r \<in> lc_usage_queue ` set (lock_contexts t) then filter (\<lambda>x. snd x \<noteq> t) (line A r)
    else line A r) = line A'"
    unfolding A'_def line_filter fun_eq_iff by auto
  moreover have "set A - {t} = set A'" by (auto simp: A'_def)
  ultimately show ?thesis using res by auto
qed

lemma length_filter_other:
  assumes "distinct A" "t \<in> set A"
  shows "length A = Suc (length (filter (\<lambda>x. x \<noteq> t) A))"
proof -
  obtain p q where A: "A = p @ t # q" using assms(2) by (meson split_list)
  with assms(1) have "\<forall>x \<in> set p. x \<noteq> t" "\<forall>x \<in> set q. x \<noteq> t" by auto
  then show ?thesis by (simp add: A)
qed

lemma deschedule_inv:
  assumes inv: "machine_inv m A R" and t: "t \<in> R"
  shows "\<exists>m'. deschedule_task m t = Some m' \<and> machine_inv m' (filter (\<lambda>x. x \<noteq> t) A) (R - {t}) \<and>
    max_running_task_count m' = max_running_task_count m"
proof -
  note i = machine_invD [OF inv]
  have tA: "t \<in> set A" using i(12) t by blast
  have len: "length A = Suc (length (filter (\<lambda>x. x \<noteq> t) A))"
    using length_filter_other [OF i(1) tA] .
  have cR: "card R = Suc (card (R - {t}))" using card_Suc_Diff1 [OF i(11) t] by simp
  note dr = sc_decrement_unat [of "running_task_count m", OF trans [OF i(5) cR]]
  note da = sc_decrement_unat [of "active_task_count m", OF trans [OF i(4) len]]
  have "Suc (unat (handled_task_count m)) < 2 ^ 32" using i(6,9) by simp
  note ih = sc_increment_unat [OF this]
  obtain qs cells uq where u: "fold_opt unlock_context_step (usage_queues m, blocked_usage_counts m,
      unblocked_task_queue m) (lock_contexts t) = Some (qs, cells, uq)"
    "agrees (line (filter (\<lambda>x. x \<noteq> t) A)) (set (filter (\<lambda>x. x \<noteq> t) A)) (R - {t}) qs cells uq"
    using unlock_agrees [OF i(3) i(1) i(2) [OF tA] i(10) t] by blast
  define m' where "m' = m\<lparr>running_task_count := running_task_count m - 1,
    active_task_count := active_task_count m - 1, handled_task_count := handled_task_count m + 1,
    usage_queues := qs, blocked_usage_counts := cells, unblocked_task_queue := uq\<rparr>"
  have res: "deschedule_task m t = Some m'"
    using dr da ih u(1) by (simp add: deschedule_task_def unlock_usage_queues_def m'_def)
  have cnt: "unat (active_task_count m') = length (filter (\<lambda>x. x \<noteq> t) A)"
    "unat (running_task_count m') = card (R - {t})"
    "unat (handled_task_count m') = Suc (unat (handled_task_count m))"
    "total_task_count m' = total_task_count m" "unblocked_task_count m' = unblocked_task_count m"
    "max_running_task_count m' = max_running_task_count m"
    using dr da ih by (simp_all add: m'_def)
  have "running_task_count m' \<le> max_running_task_count m'"
    using cnt(2,6) i(5,8) cR by (simp add: word_le_nat_alt)
  moreover have "agrees (line (filter (\<lambda>x. x \<noteq> t) A)) (set (filter (\<lambda>x. x \<noteq> t) A)) (R - {t})
    (usage_queues m') (blocked_usage_counts m') (unblocked_task_queue m')"
    using u(2) by (simp add: m'_def)
  moreover have "unat (total_task_count m') = unat (handled_task_count m') + length (filter (\<lambda>x. x \<noteq> t) A)"
    unfolding cnt(3,4) using i(6) len by linarith
  moreover have
    "unat (unblocked_task_count m') \<le> unat (total_task_count m') + unat (handled_task_count m') + card (R - {t})"
    unfolding cnt(3-5) using i(7) cR by linarith
  ultimately have "machine_inv m' (filter (\<lambda>x. x \<noteq> t) A) (R - {t})"
    using i(1,2,9) cnt(1,2,4) unfolding machine_inv_def by simp
  with res cnt(6) show ?thesis by blast
qed

lemma reinitialize_inv:
  "machine_inv m A R \<Longrightarrow> reinitialize m = Some m' \<Longrightarrow> A = [] \<and> R = {} \<and> machine_inv m' [] {}"
  by (auto simp: reinitialize_def machine_inv_def has_no_active_task_def agrees_def split: if_splits)

section \<open>Runs\<close>

inductive ssm_run :: "'tx scheduling_state_machine \<Rightarrow> 'tx task list \<Rightarrow> 'tx task set \<Rightarrow> bool" where
  start: "initialize mx cells = Some m \<Longrightarrow> ssm_run m [] {}"
| schedule: "ssm_run m A R \<Longrightarrow> wf_task t \<Longrightarrow> count_cell t \<notin> count_cell ` set A \<Longrightarrow>
    unat (total_task_count m) < 2 ^ 31 - 1 \<Longrightarrow> schedule_or_buffer_task m t fb = Some (m', r) \<Longrightarrow>
    ssm_run m' (A @ [t]) (R \<union> set_option r)"
| unblocked: "ssm_run m A R \<Longrightarrow> schedule_next_unblocked_task m = Some (m', r) \<Longrightarrow>
    ssm_run m' A (R \<union> set_option r)"
| deschedule: "ssm_run m A R \<Longrightarrow> t \<in> R \<Longrightarrow> deschedule_task m t = Some m' \<Longrightarrow>
    ssm_run m' (filter (\<lambda>x. x \<noteq> t) A) (R - {t})"
| reinit: "ssm_run m A R \<Longrightarrow> reinitialize m = Some m' \<Longrightarrow> ssm_run m' A R"

lemma ssm_run_inv: "ssm_run m A R \<Longrightarrow> machine_inv m A R"
proof (induction rule: ssm_run.induct)
  case (start mx cells m)
  then show ?case by (rule initialize_inv)
next
  case (schedule m A R t fb m' r)
  obtain m1 r1 where "schedule_or_buffer_task m t fb = Some (m1, r1)" "machine_inv m1 (A @ [t]) (R \<union> set_option r1)"
    using schedule_inv [OF schedule.IH schedule.hyps(2-4), of fb] by blast
  with schedule.hyps(5) show ?case by simp
next
  case (unblocked m A R m' r)
  obtain m1 r1 where "schedule_next_unblocked_task m = Some (m1, r1)" "machine_inv m1 A (R \<union> set_option r1)"
    using next_inv [OF unblocked.IH] by blast
  with unblocked.hyps(2) show ?case by simp
next
  case (deschedule m A R t m')
  from deschedule_inv [OF deschedule.IH deschedule.hyps(2)] deschedule.hyps(3) show ?case by auto
next
  case (reinit m A R m')
  from reinitialize_inv [OF reinit.IH reinit.hyps(2)] show ?case by blast
qed

lemma ready_iff:
  assumes "machine_inv m (pre @ t # post) R"
  shows "t \<in> R \<or> t \<in> set (unblocked_task_queue m) \<longleftrightarrow> (\<forall>t' \<in> set pre. \<not> task_conflicts t' t)"
  using machine_invD(3) [OF assms] waits_empty_iff [OF machine_invD(1) [OF assms]]
  by (auto simp: agrees_def)

lemma conflict_sym: "task_conflicts t t' \<longleftrightarrow> task_conflicts t' t"
  by (auto simp: task_conflicts_def conflict_at_def)

lemma two_in_order:
  assumes "distinct A" "t \<in> set A" "t' \<in> set A" "t \<noteq> t'"
  obtains pre post where "A = pre @ t' # post" "t \<in> set pre" | pre post where "A = pre @ t # post" "t' \<in> set pre"
proof -
  obtain p q where A: "A = p @ t # q" using assms(2) by (meson split_list)
  show thesis
  proof (cases "t' \<in> set p")
    case True
    with A that(2) show thesis by blast
  next
    case False
    with A assms(3,4) obtain q1 q2 where "q = q1 @ t' # q2" by (auto dest: split_list)
    with A that(1) [of "p @ t # q1" q2] show thesis by simp
  qed
qed

text \<open>The first active task is never blocked.\<close>

lemma progress:
  assumes "machine_inv m A R" "A \<noteq> []"
  shows "R \<noteq> {} \<or> unblocked_task_queue m \<noteq> []"
proof -
  obtain t post where "A = [] @ t # post" using assms(2) by (cases A) auto
  with ready_iff [of m "[]" t post R] assms(1) show ?thesis by auto
qed

lemma quiescent:
  assumes "machine_inv m [] R"
  shows "R = {}" "unblocked_task_queue m = []" "usage_queues m = (\<lambda>_. usage_queue_default)"
    "active_task_count m = 0" "running_task_count m = 0"
  using assms by (auto simp: machine_inv_def agrees_def queue_of_Nil unat_eq_zero)

lemma next_max:
  "schedule_next_unblocked_task m = Some (m', r) \<Longrightarrow> max_running_task_count m' = max_running_task_count m"
  by (auto simp: schedule_next_unblocked_task_def bind_eq_Some_conv split: if_splits list.splits)

text \<open>Clearing runs every active task, in some order, until none is left.\<close>

lemma clear_loop_run:
  assumes "ssm_run m A {}" "0 < max_running_task_count m" "unat n + length A < 2 ^ 32"
  shows "\<exists>m'. clear_loop m n = Some (m', n + of_nat (length A)) \<and> ssm_run m' [] {}"
  using assms
proof (induction "length A" arbitrary: m A n)
  case 0
  have "schedule_next_unblocked_task m = Some (m, None)"
    using quiescent(2) [of m "{}"] ssm_run_inv [of m A "{}"] 0 by (simp add: schedule_next_unblocked_task_def)
  with 0 show ?case by (subst clear_loop.simps) simp
next
  case (Suc k)
  note inv = ssm_run_inv [OF Suc.prems(1)]
  note i = machine_invD [OF inv]
  have uq: "unblocked_task_queue m \<noteq> []" using progress [OF inv] Suc.hyps(2) by (cases A) auto
  have run: "is_task_runnable m" using i(5) Suc.prems(2) by (simp add: is_task_runnable_def unat_eq_zero)
  define t where "t = hd (unblocked_task_queue m)"
  obtain m1 where m1: "schedule_next_unblocked_task m = Some (m1, Some t)" "ssm_run m1 A {t}"
    using next_inv [OF inv] uq run ssm_run.unblocked [OF Suc.prems(1)] by (fastforce simp: t_def)
  obtain m2 where m2: "deschedule_task m1 t = Some m2" "ssm_run m2 (filter (\<lambda>x. x \<noteq> t) A) {}"
    "max_running_task_count m2 = max_running_task_count m"
    using deschedule_inv [OF ssm_run_inv [OF m1(2)], of t] next_max [OF m1(1)]
      ssm_run.deschedule [OF m1(2), of t] by auto
  have tA: "t \<in> set A" using machine_invD(12) [OF ssm_run_inv [OF m1(2)]] by simp
  have len: "length A = Suc (length (filter (\<lambda>x. x \<noteq> t) A))" by (rule length_filter_other [OF i(1) tA])
  have inc: "sc_increment n = Some (n + 1)" "unat (n + 1) = Suc (unat n)"
    using sc_increment_unat [of n] Suc.prems(3) len by auto
  obtain m3 where "clear_loop m2 (n + 1) = Some (m3, n + 1 + of_nat (length (filter (\<lambda>x. x \<noteq> t) A)))"
    "ssm_run m3 [] {}"
    using Suc.hyps(1) [OF _ m2(2), of "n + 1"] Suc.hyps(2) len m2(3) Suc.prems(2,3) inc(2) by auto
  with m1(1) m2(1) inc(1) len show ?case by (subst clear_loop.simps) (simp add: ac_simps)
qed

section \<open>A concrete run\<close>

text \<open>Three tasks: a writer of address 0, then a reader of it, then a writer of address 1.\<close>

definition demo_task :: "nat \<Rightarrow> (queue_ref \<times> requested_usage) list \<Rightarrow> unit task" where
  "demo_task i ls = \<lparr>transaction = (), task_index = of_nat i,
     lock_contexts = map (\<lambda>(r, u). \<lparr>lc_usage_queue = r, lc_requested_usage = u\<rparr>) ls, count_cell = i\<rparr>"

definition demo_a :: "unit task" where "demo_a = demo_task 0 [(0, RequestedWritable)]"
definition demo_b :: "unit task" where "demo_b = demo_task 1 [(0, RequestedReadonly)]"
definition demo_c :: "unit task" where "demo_c = demo_task 2 [(1, RequestedWritable)]"

lemmas demo_tasks = demo_a_def demo_b_def demo_c_def demo_task_def

lemma demo_wf: "wf_task demo_a" "wf_task demo_b" "wf_task demo_c"
  by (simp_all add: demo_tasks wf_task_def)

lemma demo_distinct: "demo_a \<noteq> demo_b" "demo_a \<noteq> demo_c" "demo_b \<noteq> demo_c"
  by (simp_all add: demo_tasks)

lemma demo_conflicts:
  "task_conflicts demo_a demo_b" "\<not> task_conflicts demo_a demo_c" "\<not> task_conflicts demo_b demo_c"
  by (auto simp: demo_tasks task_conflicts_def conflict_at_def usage_of_def split: if_splits)

lemma demo_machine:
  "\<exists>m. ssm_run m [demo_a, demo_b, demo_c] {demo_a, demo_c} \<and> 0 < max_running_task_count m
    \<and> total_task_count m = 3"
proof -
  define m0 :: "unit scheduling_state_machine" where "m0 = \<lparr>unblocked_task_queue = [], active_task_count = 0,
    running_task_count = 0, max_running_task_count = 7, handled_task_count = 0, unblocked_task_count = 0,
    total_task_count = 0, usage_queues = (\<lambda>_. usage_queue_default), blocked_usage_counts = (\<lambda>_. 0)\<rparr>"
  note ev = schedule_or_buffer_task_def try_lock_usage_queues_def lock_context_step_def sc_increment_def
    checked_add_def has_no_blocked_usage_def try_lock_def usage_from_def push_blocked_usage_from_task_def
    is_task_runnable_def usage_queue_default_def demo_tasks m0_def
  have r0: "ssm_run m0 [] {}"
    by (rule ssm_run.start [of "Some 7" "\<lambda>_. 0"]) (simp add: initialize_def m0_def)
  obtain m1 where m1: "schedule_or_buffer_task m0 demo_a False = Some (m1, Some demo_a)" "total_task_count m1 = 1"
    by (simp add: ev)
  obtain m2 where m2: "schedule_or_buffer_task m1 demo_b False = Some (m2, None)" "total_task_count m2 = 2"
    using m1 by (auto simp: ev)
  obtain m3 where m3: "schedule_or_buffer_task m2 demo_c False = Some (m3, Some demo_c)"
    "0 < max_running_task_count m3" "total_task_count m3 = 3"
    using m1 m2 by (auto simp: ev)
  have r1: "ssm_run m1 [demo_a] {demo_a}"
    using ssm_run.schedule [OF r0 demo_wf(1) _ _ m1(1)] by (simp add: m0_def)
  have r2: "ssm_run m2 [demo_a, demo_b] {demo_a}"
    using ssm_run.schedule [OF r1 demo_wf(2) _ _ m2(1)] m1(2) by (simp add: demo_tasks)
  have "ssm_run m3 [demo_a, demo_b, demo_c] {demo_c, demo_a}"
    using ssm_run.schedule [OF r2 demo_wf(3) _ _ m3(1)] m2(2) by (simp add: demo_tasks)
  with m3(2,3) show ?thesis by (auto simp: insert_commute)
qed

section \<open>Properties\<close>

text \<open>
  C14. The scheduling discipline. In every reachable state an active task is running or waiting in
  the unblocked queue exactly when no task that was scheduled before it and is still active
  conflicts with it. So conflicting tasks run one after the other in the order they were
  scheduled, a task is never let through early, and none is left blocked without a reason.
\<close>

theorem unified_ready_iff:
  assumes "ssm_run m (pre @ t # post) R"
  shows "t \<in> R \<or> t \<in> set (unblocked_task_queue m) \<longleftrightarrow> (\<forall>t' \<in> set pre. \<not> task_conflicts t' t)"
  by (rule ready_iff [OF ssm_run_inv [OF assms]])

theorem unified_ready_iff_witness:
  "\<exists>m R. ssm_run m [demo_a, demo_b, demo_c] R \<and> demo_b \<notin> R \<and> demo_b \<notin> set (unblocked_task_queue m)"
proof -
  obtain m R where r: "ssm_run m [demo_a, demo_b, demo_c] R" using demo_machine by blast
  with unified_ready_iff [of m "[demo_a]" demo_b "[demo_c]" R] demo_conflicts(1) show ?thesis by auto
qed

text \<open>
  C17. Mutual exclusion. Two running tasks never conflict: neither writes an address the other uses.
\<close>

theorem unified_mutual_exclusion:
  assumes run: "ssm_run m A R" and t: "t \<in> R" "t' \<in> R" "t \<noteq> t'"
  shows "\<not> task_conflicts t t'"
proof -
  note inv = ssm_run_inv [OF run]
  have A: "t \<in> set A" "t' \<in> set A" using machine_invD(12) [OF inv] t by auto
  show ?thesis
  proof (rule two_in_order [OF machine_invD(1) [OF inv] A t(3)])
    fix pre post assume "A = pre @ t' # post" "t \<in> set pre"
    with ready_iff [of m pre t' post R] inv t(2) show ?thesis by auto
  next
    fix pre post assume "A = pre @ t # post" "t' \<in> set pre"
    with ready_iff [of m pre t post R] inv t(1) show ?thesis by (auto simp: conflict_sym [of t t'])
  qed
qed

theorem unified_mutual_exclusion_witness:
  "\<exists>m. ssm_run m [demo_a, demo_b, demo_c] {demo_a, demo_c} \<and> \<not> task_conflicts demo_a demo_c"
proof -
  obtain m where r: "ssm_run m [demo_a, demo_b, demo_c] {demo_a, demo_c}" using demo_machine by blast
  with unified_mutual_exclusion [OF r, of demo_a demo_c] demo_distinct show ?thesis by blast
qed

text \<open>
  C18. Scheduling. A well-formed task that is not active yet is accepted without a panic, up to
  \<open>2 ^ 31 - 1\<close> tasks between reinitializations; it is handed back to run exactly when it conflicts
  with no active task, a slot is free and buffering was not forced.
\<close>

theorem unified_schedule:
  assumes run: "ssm_run m A R" and t: "wf_task t" "count_cell t \<notin> count_cell ` set A"
    and "unat (total_task_count m) < 2 ^ 31 - 1"
  shows "\<exists>m' r. schedule_or_buffer_task m t fb = Some (m', r) \<and> ssm_run m' (A @ [t]) (R \<union> set_option r) \<and>
    r = (if (\<forall>t' \<in> set A. \<not> task_conflicts t' t) \<and> is_task_runnable m \<and> \<not> fb then Some t else None)"
  using schedule_inv [OF ssm_run_inv [OF run] assms(2-4), of fb] ssm_run.schedule [OF run assms(2-4)]
  by blast

theorem unified_schedule_witness:
  "\<exists>m m'. ssm_run m [demo_a, demo_b, demo_c] {demo_a, demo_c} \<and>
    schedule_or_buffer_task m (demo_task 3 [(1, RequestedReadonly)]) False = Some (m', None)"
proof -
  obtain m where r: "ssm_run m [demo_a, demo_b, demo_c] {demo_a, demo_c}" "total_task_count m = 3"
    using demo_machine by blast
  let ?t = "demo_task 3 [(1, RequestedReadonly)]"
  have wf: "wf_task ?t" "count_cell ?t \<notin> count_cell ` set [demo_a, demo_b, demo_c]"
    by (auto simp: demo_tasks wf_task_def)
  have "task_conflicts demo_c ?t"
    by (auto simp: demo_tasks task_conflicts_def conflict_at_def usage_of_def)
  with unified_schedule [OF r(1) wf, of False] r show ?thesis by auto
qed

text \<open>
  C16. Descheduling. Returning a running task never hits one of the panics of the usage queues or
  of the counters, whatever the order of completions.
\<close>

theorem unified_deschedule:
  assumes run: "ssm_run m A R" and t: "t \<in> R"
  shows "\<exists>m'. deschedule_task m t = Some m' \<and> ssm_run m' (filter (\<lambda>x. x \<noteq> t) A) (R - {t})"
  using deschedule_inv [OF ssm_run_inv [OF run] t] ssm_run.deschedule [OF run t] by blast

theorem unified_deschedule_witness:
  "\<exists>m m'. ssm_run m [demo_a, demo_b, demo_c] {demo_a, demo_c} \<and> deschedule_task m demo_a = Some m' \<and>
    ssm_run m' [demo_b, demo_c] {demo_c}"
proof -
  obtain m where r: "ssm_run m [demo_a, demo_b, demo_c] {demo_a, demo_c}" using demo_machine by blast
  from unified_deschedule [OF r, of demo_a] r demo_distinct show ?thesis by auto
qed

text \<open>
  C15. Liveness. With no task running and at least one slot, \<^verbatim>\<open>clear_and_reinitialize\<close> ends without a
  panic and reports exactly the number of active tasks: every one of them became unblocked and
  was run, however they blocked each other. Afterwards the machine is as initialized and every
  usage queue is as it was created.
\<close>

theorem unified_clear:
  assumes run: "ssm_run m A {}" and "0 < max_running_task_count m"
  shows "\<exists>m'. clear_and_reinitialize m = Some (m', of_nat (length A)) \<and> ssm_run m' [] {} \<and>
    usage_queues m' = (\<lambda>_. usage_queue_default) \<and> total_task_count m' = 0"
proof -
  note inv = ssm_run_inv [OF run]
  obtain m1 where m1: "clear_loop m 0 = Some (m1, of_nat (length A))" "ssm_run m1 [] {}"
    using clear_loop_run [OF run assms(2), of 0] machine_invD(10) [OF inv] by auto
  note q = quiescent [OF ssm_run_inv [OF m1(2)]]
  obtain m' where m': "reinitialize m1 = Some m'" "usage_queues m' = usage_queues m1" "total_task_count m' = 0"
    using q by (auto simp: reinitialize_def has_no_active_task_def)
  have "unat (of_nat (length A) :: u32) = length A" using machine_invD(10) [OF inv] by (simp add: unat_of_nat)
  then have "clear_and_reinitialize m = Some (m', of_nat (length A))"
    unfolding clear_and_reinitialize_def m1(1) by (simp only: m'(1) bind.bind_lunit prod.case)
  moreover have "ssm_run m' [] {}" using m1(2) m'(1) by (rule ssm_run.reinit)
  ultimately show ?thesis using m'(2,3) q(3) by auto
qed

theorem unified_clear_witness:
  "\<exists>m m' n. ssm_run m [demo_b] {} \<and> clear_and_reinitialize m = Some (m', 1) \<and>
    usage_queues m' = (\<lambda>_. usage_queue_default) \<and> n = total_task_count m' \<and> n = 0"
proof -
  obtain m where r: "ssm_run m [demo_a, demo_b, demo_c] {demo_a, demo_c}" "0 < max_running_task_count m"
    using demo_machine by blast
  obtain m1 where m1: "ssm_run m1 [demo_b, demo_c] {demo_c}" "0 < max_running_task_count m1"
    using deschedule_inv [OF ssm_run_inv [OF r(1)], of demo_a] ssm_run.deschedule [OF r(1), of demo_a]
      demo_distinct r(2) by auto
  obtain m2 where m2: "ssm_run m2 [demo_b] {}" "0 < max_running_task_count m2"
    using deschedule_inv [OF ssm_run_inv [OF m1(1)], of demo_c] ssm_run.deschedule [OF m1(1), of demo_c]
      demo_distinct m1(2) by auto
  from unified_clear [OF m2] m2(1) show ?thesis by auto
qed

text \<open>
  C19. Progress and bounds. While a task is active, some task is running or can be taken from the
  unblocked queue; the number of running tasks is what the counter says and never exceeds the
  maximum. Once no task is active nothing is running or queued, every usage queue is in the state
  it was created in, and \<^verbatim>\<open>reinitialize\<close> does not panic.
\<close>

theorem unified_progress:
  assumes run: "ssm_run m A R"
  shows "(A \<noteq> [] \<longrightarrow> R \<noteq> {} \<or> has_unblocked_task m) \<and>
    card R = unat (running_task_count m) \<and> card R \<le> unat (max_running_task_count m) \<and>
    (has_no_active_task m \<longrightarrow> R = {} \<and> \<not> has_unblocked_task m \<and>
       usage_queues m = (\<lambda>_. usage_queue_default) \<and> reinitialize m \<noteq> None)"
proof (intro conjI impI)
  note inv = ssm_run_inv [OF run]
  show "R \<noteq> {} \<or> has_unblocked_task m" if "A \<noteq> []"
    using progress [OF inv that] by (simp add: has_unblocked_task_def)
  show "card R = unat (running_task_count m)" "card R \<le> unat (max_running_task_count m)"
    using machine_invD(5,8) [OF inv] by (simp_all add: word_le_nat_alt)
  assume "has_no_active_task m"
  then have "A = []" using machine_invD(4) [OF inv] by (simp add: has_no_active_task_def)
  note q = quiescent [OF inv [unfolded this]]
  then show "R = {}" "\<not> has_unblocked_task m" "usage_queues m = (\<lambda>_. usage_queue_default)"
    "reinitialize m \<noteq> None"
    by (simp_all add: has_unblocked_task_def reinitialize_def has_no_active_task_def)
qed

theorem unified_progress_witness:
  "\<exists>m. ssm_run m [demo_a, demo_b, demo_c] {demo_a, demo_c} \<and> running_task_count m = 2"
proof -
  obtain m where r: "ssm_run m [demo_a, demo_b, demo_c] {demo_a, demo_c}" using demo_machine by blast
  with unified_progress [OF r] demo_distinct show ?thesis by (auto simp: word_unat_eq_iff)
qed

text \<open>
  Task creation. For a transaction without duplicate accounts, and a loader that keeps one
  queue per address, the created task asks for each account once, for writing exactly where the
  transaction is writable; so two tasks conflict exactly when one writes an account of the other.
\<close>

theorem create_task_conflicts:
  assumes "inj loader" and "distinct (keys tx)" "distinct (keys tx')"
  shows "task_conflicts (create_task keys wr loader tx i cell) (create_task keys wr loader tx' i' cell') \<longleftrightarrow>
    (\<exists>j < length (keys tx). \<exists>j' < length (keys tx'). keys tx ! j = keys tx' ! j' \<and> (wr tx j \<or> wr tx' j'))"
proof -
  define U where "U tx j = (if wr tx j then RequestedWritable else RequestedReadonly)" for tx j
  have U: "U tx j = RequestedWritable \<longleftrightarrow> wr tx j" for tx j by (simp add: U_def)
  have u: "usage_of (create_task keys wr loader tx i cell) r = Some u \<longleftrightarrow>
    (\<exists>j < length (keys tx). r = loader (keys tx ! j) \<and> u = U tx j)"
    if "distinct (keys tx)" for tx i cell r u
  proof -
    have "map fst (map (\<lambda>c. (lc_usage_queue c, lc_requested_usage c))
      (lock_contexts (create_task keys wr loader tx i cell))) = map loader (keys tx)"
      by (rule nth_equalityI) (simp_all add: create_task_def case_prod_beta' nth_enumerate_eq)
    then have "distinct (map fst (map (\<lambda>c. (lc_usage_queue c, lc_requested_usage c))
      (lock_contexts (create_task keys wr loader tx i cell))))"
      using that assms(1) by (simp only: distinct_map) (blast intro: inj_on_subset)
    moreover have "set (enumerate 0 (keys tx)) = (\<lambda>j. (j, keys tx ! j)) ` {..<length (keys tx)}"
      by (force simp: in_set_enumerate_eq)
    ultimately show ?thesis
      unfolding usage_of_def by (subst map_of_eq_Some_iff) (auto simp: create_task_def image_iff U_def)
  qed
  let ?C = "\<lambda>j j'. j < length (keys tx) \<and> j' < length (keys tx') \<and> loader (keys tx ! j) = loader (keys tx' ! j') \<and>
    (U tx j = RequestedWritable \<or> U tx' j' = RequestedWritable)"
  have "task_conflicts (create_task keys wr loader tx i cell) (create_task keys wr loader tx' i' cell') \<longleftrightarrow>
    (\<exists>j j'. ?C j j')"
    unfolding task_conflicts_def conflict_at_def u [OF assms(2)] u [OF assms(3)] by metis
  also have "\<dots> \<longleftrightarrow> (\<exists>j < length (keys tx). \<exists>j' < length (keys tx'). keys tx ! j = keys tx' ! j' \<and> (wr tx j \<or> wr tx' j'))"
    using assms(1) by (auto simp: inj_eq U)
  finally show ?thesis .
qed

theorem create_task_conflicts_witness:
  "task_conflicts (create_task (map fst) (\<lambda>tx j. snd (tx ! j)) unat [(5, True), (6, False)] 0 0)
     (create_task (map fst) (\<lambda>tx j. snd (tx ! j)) unat [(7, True), (5, False)] 1 1)"
proof -
  have "inj (unat :: pubkey \<Rightarrow> nat)" by (auto simp: inj_def word_unat_eq_iff)
  then show ?thesis
    by (subst create_task_conflicts) (simp_all, rule exI [of _ 0], simp, rule exI [of _ 1], simp)
qed

end
