(* ===== verification/System_Interface.thy ===== *)
theory System_Interface
  imports Prelude
begin

text \<open>
  The instructions of the system program as the sources take them apart: the patterns of
  \<^verbatim>\<open>src/programs/system/src/system_processor.rs\<close> and of \<^verbatim>\<open>src/cost-model/src/cost_model.rs\<close>. The
  wire format belongs to an external crate, so decoding is a parameter wherever it is used.
\<close>

datatype system_instruction =
    CreateAccount (ca_lamports: u64) (ca_space: u64) (ca_owner: pubkey)
  | Assign pubkey
  | Transfer u64
  | CreateAccountWithSeed pubkey string u64 u64 pubkey
  | AdvanceNonceAccount
  | WithdrawNonceAccount u64
  | InitializeNonceAccount pubkey
  | AuthorizeNonceAccount pubkey
  | Allocate u64
  | AllocateWithSeed pubkey string u64 pubkey
  | AssignWithSeed pubkey string pubkey
  | TransferWithSeed u64 string pubkey
  | UpgradeNonceAccount

end
