(* ===== verification/Cost_Model.thy ===== *)
theory Cost_Model
  imports System_Interface
begin

text \<open>
  The cost model of \<^verbatim>\<open>src/cost-model/src/\<close> (\<^verbatim>\<open>block_cost_limits.rs\<close>, \<^verbatim>\<open>transaction_cost.rs\<close>,
  \<^verbatim>\<open>cost_model.rs\<close>): what a transaction is charged, in compute units, before and after execution.

  A transaction is the record of what the traits \<^verbatim>\<open>SVMMessage\<close> and \<^verbatim>\<open>StaticMeta\<close> tell about it.
  The record \<open>cost_env\<close> holds what other crates provide: the decoder of system instructions, the
  price of loaded memory, the limits on account data and the two features that matter.
\<close>

section \<open>Block cost limits\<close>

definition COMPUTE_UNIT_TO_US_RATIO :: u64 where "COMPUTE_UNIT_TO_US_RATIO = 30"
definition SIGNATURE_COST :: u64 where "SIGNATURE_COST = COMPUTE_UNIT_TO_US_RATIO * 24"
definition SECP256K1_VERIFY_COST :: u64 where "SECP256K1_VERIFY_COST = COMPUTE_UNIT_TO_US_RATIO * 223"
definition ED25519_VERIFY_COST :: u64 where "ED25519_VERIFY_COST = COMPUTE_UNIT_TO_US_RATIO * 76"
definition ED25519_VERIFY_STRICT_COST :: u64 where "ED25519_VERIFY_STRICT_COST = COMPUTE_UNIT_TO_US_RATIO * 80"
definition SECP256R1_VERIFY_COST :: u64 where "SECP256R1_VERIFY_COST = COMPUTE_UNIT_TO_US_RATIO * 160"
definition WRITE_LOCK_UNITS :: u64 where "WRITE_LOCK_UNITS = COMPUTE_UNIT_TO_US_RATIO * 10"
definition INSTRUCTION_DATA_BYTES_COST :: u64 where
  "INSTRUCTION_DATA_BYTES_COST = 140 div COMPUTE_UNIT_TO_US_RATIO"
definition MAX_BLOCK_UNITS_SIMD_0207 :: u64 where "MAX_BLOCK_UNITS_SIMD_0207 = 50000000"
definition MAX_BLOCK_UNITS_SIMD_0256 :: u64 where "MAX_BLOCK_UNITS_SIMD_0256 = 60000000"
definition MAX_BLOCK_UNITS :: u64 where "MAX_BLOCK_UNITS = MAX_BLOCK_UNITS_SIMD_0207"
definition MAX_WRITABLE_ACCOUNT_UNITS :: u64 where "MAX_WRITABLE_ACCOUNT_UNITS = 12000000"
definition MAX_VOTE_UNITS :: u64 where "MAX_VOTE_UNITS = 36000000"
definition MAX_BLOCK_ACCOUNTS_DATA_SIZE_DELTA :: u64 where
  "MAX_BLOCK_ACCOUNTS_DATA_SIZE_DELTA = 100000000"

definition simd_0256_block_limits :: "u64 \<times> u64 \<times> u64" where
  "simd_0256_block_limits = (MAX_WRITABLE_ACCOUNT_UNITS, MAX_BLOCK_UNITS_SIMD_0256, MAX_VOTE_UNITS)"

lemmas cost_constants = COMPUTE_UNIT_TO_US_RATIO_def SIGNATURE_COST_def SECP256K1_VERIFY_COST_def
  ED25519_VERIFY_COST_def ED25519_VERIFY_STRICT_COST_def SECP256R1_VERIFY_COST_def
  WRITE_LOCK_UNITS_def INSTRUCTION_DATA_BYTES_COST_def MAX_BLOCK_UNITS_SIMD_0207_def
  MAX_BLOCK_UNITS_SIMD_0256_def MAX_BLOCK_UNITS_def MAX_WRITABLE_ACCOUNT_UNITS_def
  MAX_VOTE_UNITS_def MAX_BLOCK_ACCOUNTS_DATA_SIZE_DELTA_def

section \<open>Transactions and their cost\<close>

record signature_details =
  num_transaction_signatures :: u64
  num_secp256k1_instruction_signatures :: u64
  num_ed25519_instruction_signatures :: u64
  num_secp256r1_instruction_signatures :: u64

text \<open>\<open>compute_budget\<close> is the sanitized compute unit limit and loaded-bytes limit, if sanitizing succeeds.\<close>

record transaction =
  account_keys :: "pubkey list"
  writable_flags :: "bool list"
  is_simple_vote_transaction :: bool
  signature_details :: signature_details
  instruction_data_len :: u16
  num_write_locks :: u64
  program_instructions :: "(pubkey \<times> u8 list) list"
  compute_budget :: "(u32 \<times> u32) option"

definition is_writable :: "transaction \<Rightarrow> nat \<Rightarrow> bool" where
  "is_writable tx i \<longleftrightarrow> i < length (writable_flags tx) \<and> writable_flags tx ! i"

record usage_cost_details =
  u_transaction :: transaction
  u_signature_cost :: u64
  u_write_lock_cost :: u64
  u_data_bytes_cost :: u16
  u_programs_execution_cost :: u64
  u_loaded_accounts_data_size_cost :: u64
  u_allocated_accounts_data_size :: u64

datatype transaction_cost = SimpleVote transaction | Transaction usage_cost_details

definition SIMPLE_VOTE_USAGE_COST :: u64 where "SIMPLE_VOTE_USAGE_COST = 3428"

text \<open>\<^verbatim>\<open>DEFAULT_COMPUTE_UNITS\<close> of the vote processor.\<close>

definition VOTE_DEFAULT_COMPUTE_UNITS :: u64 where "VOTE_DEFAULT_COMPUTE_UNITS = 2100"

definition usage_sum :: "usage_cost_details \<Rightarrow> u64" where
  "usage_sum u = saturating_add (saturating_add (saturating_add (saturating_add
     (u_signature_cost u) (u_write_lock_cost u)) (ucast (u_data_bytes_cost u)))
     (u_programs_execution_cost u)) (u_loaded_accounts_data_size_cost u)"

definition cost_sum :: "transaction_cost \<Rightarrow> u64" where
  "cost_sum c = (case c of SimpleVote _ \<Rightarrow> SIMPLE_VOTE_USAGE_COST | Transaction u \<Rightarrow> usage_sum u)"

definition programs_execution_cost :: "transaction_cost \<Rightarrow> u64" where
  "programs_execution_cost c = (case c of SimpleVote _ \<Rightarrow> VOTE_DEFAULT_COMPUTE_UNITS
     | Transaction u \<Rightarrow> u_programs_execution_cost u)"

definition is_simple_vote :: "transaction_cost \<Rightarrow> bool" where
  "is_simple_vote c = (case c of SimpleVote _ \<Rightarrow> True | Transaction _ \<Rightarrow> False)"

definition data_bytes_cost :: "transaction_cost \<Rightarrow> u16" where
  "data_bytes_cost c = (case c of SimpleVote _ \<Rightarrow> 0 | Transaction u \<Rightarrow> u_data_bytes_cost u)"

definition allocated_accounts_data_size :: "transaction_cost \<Rightarrow> u64" where
  "allocated_accounts_data_size c = (case c of SimpleVote _ \<Rightarrow> 0
     | Transaction u \<Rightarrow> u_allocated_accounts_data_size u)"

definition loaded_accounts_data_size_cost :: "transaction_cost \<Rightarrow> u64" where
  "loaded_accounts_data_size_cost c = (case c of SimpleVote _ \<Rightarrow> 8
     | Transaction u \<Rightarrow> u_loaded_accounts_data_size_cost u)"

definition signature_cost :: "transaction_cost \<Rightarrow> u64" where
  "signature_cost c = (case c of SimpleVote _ \<Rightarrow> SIGNATURE_COST | Transaction u \<Rightarrow> u_signature_cost u)"

definition write_lock_cost :: "transaction_cost \<Rightarrow> u64" where
  "write_lock_cost c = (case c of SimpleVote _ \<Rightarrow> saturating_mul WRITE_LOCK_UNITS 2
     | Transaction u \<Rightarrow> u_write_lock_cost u)"

definition cost_transaction :: "transaction_cost \<Rightarrow> transaction" where
  "cost_transaction c = (case c of SimpleVote tx \<Rightarrow> tx | Transaction u \<Rightarrow> u_transaction u)"

definition writable_accounts :: "transaction_cost \<Rightarrow> pubkey list" where
  "writable_accounts c = (let tx = cost_transaction c in
     map snd (filter (\<lambda>(i, key). is_writable tx i) (enumerate 0 (account_keys tx))))"

definition cost_num_transaction_signatures :: "transaction_cost \<Rightarrow> u64" where
  "cost_num_transaction_signatures c = (case c of SimpleVote _ \<Rightarrow> 1
     | Transaction u \<Rightarrow> num_transaction_signatures (signature_details (u_transaction u)))"

definition cost_num_secp256k1_instruction_signatures :: "transaction_cost \<Rightarrow> u64" where
  "cost_num_secp256k1_instruction_signatures c = (case c of SimpleVote _ \<Rightarrow> 0
     | Transaction u \<Rightarrow> num_secp256k1_instruction_signatures (signature_details (u_transaction u)))"

definition cost_num_ed25519_instruction_signatures :: "transaction_cost \<Rightarrow> u64" where
  "cost_num_ed25519_instruction_signatures c = (case c of SimpleVote _ \<Rightarrow> 0
     | Transaction u \<Rightarrow> num_ed25519_instruction_signatures (signature_details (u_transaction u)))"

definition cost_num_secp256r1_instruction_signatures :: "transaction_cost \<Rightarrow> u64" where
  "cost_num_secp256r1_instruction_signatures c = (case c of SimpleVote _ \<Rightarrow> 0
     | Transaction u \<Rightarrow> num_secp256r1_instruction_signatures (signature_details (u_transaction u)))"

section \<open>Estimating the cost\<close>

record cost_env =
  system_program_id :: pubkey
  decode_system_instruction :: "u8 list \<Rightarrow> system_instruction option"
  calculate_memory_usage_cost :: "u32 \<Rightarrow> u64 \<Rightarrow> u64"
  default_heap_cost :: u64
  max_permitted_data_length :: u64
  max_permitted_allocations_per_transaction :: u64
  ed25519_precompile_verify_strict :: bool
  enable_secp256r1_precompile :: bool

datatype system_program_account_allocation = AllocNone | AllocSome u64 | AllocFailed

definition get_signature_cost :: "cost_env \<Rightarrow> transaction \<Rightarrow> u64" where
  "get_signature_cost env tx = (let d = signature_details tx;
     ed25519_verify_cost = (if ed25519_precompile_verify_strict env then ED25519_VERIFY_STRICT_COST
       else ED25519_VERIFY_COST);
     secp256r1_verify_cost = (if enable_secp256r1_precompile env then SECP256R1_VERIFY_COST else 0)
   in saturating_add (saturating_add (saturating_add
        (saturating_mul (num_transaction_signatures d) SIGNATURE_COST)
        (saturating_mul (num_secp256k1_instruction_signatures d) SECP256K1_VERIFY_COST))
        (saturating_mul (num_ed25519_instruction_signatures d) ed25519_verify_cost))
        (saturating_mul (num_secp256r1_instruction_signatures d) secp256r1_verify_cost))"

definition get_write_lock_cost :: "u64 \<Rightarrow> u64" where
  "get_write_lock_cost n = saturating_mul WRITE_LOCK_UNITS n"

definition calculate_loaded_accounts_data_size_cost :: "cost_env \<Rightarrow> u32 \<Rightarrow> u64" where
  "calculate_loaded_accounts_data_size_cost env bytes =
     calculate_memory_usage_cost env bytes (default_heap_cost env)"

definition get_estimated_execution_cost :: "cost_env \<Rightarrow> transaction \<Rightarrow> u64 \<times> u64" where
  "get_estimated_execution_cost env tx = (case compute_budget tx of
     Some (compute_unit_limit, loaded_accounts_bytes) \<Rightarrow>
       (ucast compute_unit_limit, calculate_loaded_accounts_data_size_cost env loaded_accounts_bytes)
   | None \<Rightarrow> (0, 0))"

definition get_instructions_data_cost :: "transaction \<Rightarrow> u16" where
  "get_instructions_data_cost tx = instruction_data_len tx div ucast INSTRUCTION_DATA_BYTES_COST"

definition get_transaction_cost :: "cost_env \<Rightarrow> transaction \<Rightarrow> u64 \<times> u64 \<times> u16" where
  "get_transaction_cost env tx = (let data = get_instructions_data_cost tx;
     (exec, loaded) = get_estimated_execution_cost env tx in (exec, loaded, data))"

definition account_data_size_on_deserialized_system_instruction ::
  "cost_env \<Rightarrow> system_instruction \<Rightarrow> system_program_account_allocation"
where
  "account_data_size_on_deserialized_system_instruction env i =
     (let alloc = (\<lambda>space. if space > max_permitted_data_length env then AllocFailed else AllocSome space)
      in case i of
        CreateAccount _ space _ \<Rightarrow> alloc space
      | CreateAccountWithSeed _ _ _ space _ \<Rightarrow> alloc space
      | Allocate space \<Rightarrow> alloc space
      | AllocateWithSeed _ _ space _ \<Rightarrow> alloc space
      | _ \<Rightarrow> AllocNone)"

definition account_data_size_on_instruction ::
  "cost_env \<Rightarrow> pubkey \<Rightarrow> u8 list \<Rightarrow> system_program_account_allocation"
where
  "account_data_size_on_instruction env program_id data =
     (if program_id = system_program_id env then
        (case decode_system_instruction env data of
           Some i \<Rightarrow> account_data_size_on_deserialized_system_instruction env i
         | None \<Rightarrow> AllocFailed)
      else AllocNone)"

fun allocation_loop :: "cost_env \<Rightarrow> u64 \<Rightarrow> (pubkey \<times> u8 list) list \<Rightarrow> u64" where
  "allocation_loop env attempted [] = min (max_permitted_allocations_per_transaction env) attempted"
| "allocation_loop env attempted ((program_id, data) # is) =
     (case account_data_size_on_instruction env program_id data of
        AllocFailed \<Rightarrow> 0
      | AllocNone \<Rightarrow> allocation_loop env attempted is
      | AllocSome n \<Rightarrow> allocation_loop env (saturating_add attempted n) is)"

definition calculate_allocated_accounts_data_size :: "cost_env \<Rightarrow> (pubkey \<times> u8 list) list \<Rightarrow> u64" where
  "calculate_allocated_accounts_data_size env is = allocation_loop env 0 is"

definition calculate_non_vote_transaction_cost ::
  "cost_env \<Rightarrow> transaction \<Rightarrow> (pubkey \<times> u8 list) list \<Rightarrow> u64 \<Rightarrow> u64 \<Rightarrow> u64 \<Rightarrow> u16 \<Rightarrow> transaction_cost"
where
  "calculate_non_vote_transaction_cost env tx instrs write_locks exec_cost loaded_cost bytes_cost =
     Transaction \<lparr>u_transaction = tx, u_signature_cost = get_signature_cost env tx,
       u_write_lock_cost = get_write_lock_cost write_locks, u_data_bytes_cost = bytes_cost,
       u_programs_execution_cost = exec_cost, u_loaded_accounts_data_size_cost = loaded_cost,
       u_allocated_accounts_data_size = calculate_allocated_accounts_data_size env instrs\<rparr>"

definition calculate_cost :: "cost_env \<Rightarrow> transaction \<Rightarrow> transaction_cost" where
  "calculate_cost env tx = (if is_simple_vote_transaction tx then SimpleVote tx
     else let (exec_cost, loaded_cost, bytes_cost) = get_transaction_cost env tx in
       calculate_non_vote_transaction_cost env tx (program_instructions tx) (num_write_locks tx)
         exec_cost loaded_cost bytes_cost)"

definition calculate_cost_for_executed_transaction ::
  "cost_env \<Rightarrow> transaction \<Rightarrow> u64 \<Rightarrow> u32 \<Rightarrow> transaction_cost"
where
  "calculate_cost_for_executed_transaction env tx actual_exec actual_bytes =
     (if is_simple_vote_transaction tx then SimpleVote tx
      else calculate_non_vote_transaction_cost env tx (program_instructions tx) (num_write_locks tx)
        actual_exec (calculate_loaded_accounts_data_size_cost env actual_bytes)
        (get_instructions_data_cost tx))"

definition estimate_cost ::
  "cost_env \<Rightarrow> transaction \<Rightarrow> (pubkey \<times> u8 list) list \<Rightarrow> u64 \<Rightarrow> transaction_cost"
where
  "estimate_cost env tx instrs write_locks = (if is_simple_vote_transaction tx then SimpleVote tx
     else let (exec_cost, loaded_cost, bytes_cost) = get_transaction_cost env tx in
       calculate_non_vote_transaction_cost env tx instrs write_locks exec_cost loaded_cost bytes_cost)"

section \<open>What the estimate adds up to\<close>

lemma unat_usage_sum:
  "unat (usage_sum u) = min (unat (u_signature_cost u) + unat (u_write_lock_cost u) +
     unat (u_data_bytes_cost u) + unat (u_programs_execution_cost u) +
     unat (u_loaded_accounts_data_size_cost u)) (2 ^ 64 - 1)"
  by (simp add: usage_sum_def unat_saturating_add unat_ucast_up min_def)

text \<open>
  What the charge for allocated bytes is meant to be, said of the decoded instructions alone: the space
  a system instruction asks for, whether an instruction is bound to fail, and the bytes it asks for.
\<close>

fun space_requested :: "system_instruction \<Rightarrow> u64 option" where
  "space_requested (CreateAccount lamports space owner) = Some space"
| "space_requested (CreateAccountWithSeed base seed lamports space owner) = Some space"
| "space_requested (Allocate space) = Some space"
| "space_requested (AllocateWithSeed base seed space owner) = Some space"
| "space_requested _ = None"

definition bound_to_fail :: "cost_env \<Rightarrow> pubkey \<times> u8 list \<Rightarrow> bool" where
  "bound_to_fail env i \<longleftrightarrow> fst i = system_program_id env \<and>
     (decode_system_instruction env (snd i) = None \<or>
      (\<exists>instr space. decode_system_instruction env (snd i) = Some instr \<and>
         space_requested instr = Some space \<and> space > max_permitted_data_length env))"

definition bytes_requested :: "cost_env \<Rightarrow> pubkey \<times> u8 list \<Rightarrow> nat" where
  "bytes_requested env i = (if fst i = system_program_id env
     then (case decode_system_instruction env (snd i) \<bind> space_requested of None \<Rightarrow> 0 | Some space \<Rightarrow> unat space)
     else 0)"

lemma account_data_size_cases:
  "bound_to_fail env (p, d) \<longleftrightarrow> account_data_size_on_instruction env p d = AllocFailed"
  "account_data_size_on_instruction env p d = AllocNone \<Longrightarrow> bytes_requested env (p, d) = 0"
  "account_data_size_on_instruction env p d = AllocSome n \<Longrightarrow> bytes_requested env (p, d) = unat n"
  by (auto simp: account_data_size_on_instruction_def bound_to_fail_def bytes_requested_def
      account_data_size_on_deserialized_system_instruction_def Let_def
      split: option.splits system_instruction.splits if_splits)

lemma allocation_loop_spec:
  "unat (allocation_loop env a is) =
    (if list_ex (bound_to_fail env) is then 0
     else min (unat (max_permitted_allocations_per_transaction env))
       (min (unat a + sum_list (map (bytes_requested env) is)) (2 ^ 64 - 1)))"
proof (induction env a "is" rule: allocation_loop.induct)
  case (1 env a)
  have "unat a \<le> 2 ^ 64 - 1" using unat_less [of a] by simp
  then show ?case by (simp add: min_def word_le_nat_alt)
next
  case (2 env a p d "is")
  then show ?case
    by (cases "account_data_size_on_instruction env p d")
      (auto simp: account_data_size_cases unat_saturating_add min_def)
qed

section \<open>Properties\<close>

text \<open>
  The cost of a transaction is the saturated total of its five parts, for simple votes as well:
  the fixed \<^verbatim>\<open>SIMPLE_VOTE_USAGE_COST\<close> is exactly what the accessors of a simple vote add up to
  (one signature, two write locks, no data, the default units of the vote program, one page).
\<close>

theorem cost_sum_is_total:
  "unat (cost_sum c) = min (unat (signature_cost c) + unat (write_lock_cost c) + unat (data_bytes_cost c) +
     unat (programs_execution_cost c) + unat (loaded_accounts_data_size_cost c)) (2 ^ 64 - 1)"
proof (cases c)
  case (SimpleVote tx)
  then show ?thesis
    by (simp add: cost_sum_def signature_cost_def write_lock_cost_def data_bytes_cost_def
        programs_execution_cost_def loaded_accounts_data_size_cost_def SIMPLE_VOTE_USAGE_COST_def
        VOTE_DEFAULT_COMPUTE_UNITS_def unat_saturating_mul cost_constants)
next
  case (Transaction u)
  then show ?thesis
    by (simp add: cost_sum_def signature_cost_def write_lock_cost_def data_bytes_cost_def
        programs_execution_cost_def loaded_accounts_data_size_cost_def unat_usage_sum)
qed

text \<open>
  C36. The bytes a transaction is charged for allocating are none when one of its system
  instructions is bound to fail (it does not decode, or asks for more than an account may hold),
  since the transaction then fails as a whole; otherwise they are the total of the spaces that its
  account creations and allocations ask for, capped by what one transaction may allocate.
\<close>

theorem allocated_size_is_capped_total:
  "unat (calculate_allocated_accounts_data_size env is) =
    (if list_ex (bound_to_fail env) is then 0
     else min (unat (max_permitted_allocations_per_transaction env))
       (min (sum_list (map (bytes_requested env) is)) (2 ^ 64 - 1)))"
  using allocation_loop_spec [of env 0 "is"] by (simp only: calculate_allocated_accounts_data_size_def unsigned_0 add_0)

end
