(* ===== verification/Cost_Tracker.thy ===== *)
theory Cost_Tracker
  imports Cost_Model
begin

text \<open>
  The cost tracker of a block (\<^verbatim>\<open>src/cost-model/src/cost_tracker.rs\<close>): it admits transactions while
  the block, vote, per-account and account-data limits allow, takes a transaction out again when it
  is not committed, and corrects its charge once it has been executed. The reporting of metrics is
  not modelled.
\<close>

section \<open>The tracker\<close>

datatype cost_tracker_error =
    WouldExceedBlockMaxLimit
  | WouldExceedVoteMaxLimit
  | WouldExceedAccountMaxLimit
  | WouldExceedAccountDataBlockLimit
  | WouldExceedAccountDataTotalLimit

record updated_costs =
  updated_block_cost :: u64
  updated_costliest_account_cost :: u64

record cost_tracker =
  account_cost_limit :: u64
  block_cost_limit :: u64
  vote_cost_limit :: u64
  cost_by_writable_accounts :: "pubkey \<rightharpoonup> u64"
  block_cost :: u64
  vote_cost :: u64
  transaction_count :: u64
  allocated_size :: u64
  transaction_signature_count :: u64
  secp256k1_instruction_signature_count :: u64
  ed25519_instruction_signature_count :: u64
  in_flight_transaction_count :: usize
  secp256r1_instruction_signature_count :: u64

definition cost_tracker_default :: cost_tracker where
  "cost_tracker_default = \<lparr>account_cost_limit = MAX_WRITABLE_ACCOUNT_UNITS,
     block_cost_limit = MAX_BLOCK_UNITS, vote_cost_limit = MAX_VOTE_UNITS,
     cost_by_writable_accounts = Map.empty, block_cost = 0, vote_cost = 0, transaction_count = 0,
     allocated_size = 0, transaction_signature_count = 0,
     secp256k1_instruction_signature_count = 0, ed25519_instruction_signature_count = 0,
     in_flight_transaction_count = 0, secp256r1_instruction_signature_count = 0\<rparr>"

definition set_limits :: "cost_tracker \<Rightarrow> u64 \<Rightarrow> u64 \<Rightarrow> u64 \<Rightarrow> cost_tracker" where
  "set_limits t account_limit block_limit vote_limit = t\<lparr>account_cost_limit := account_limit,
     block_cost_limit := block_limit, vote_cost_limit := vote_limit\<rparr>"

definition new_from_parent_limits :: "cost_tracker \<Rightarrow> cost_tracker" where
  "new_from_parent_limits t = set_limits cost_tracker_default (account_cost_limit t)
     (block_cost_limit t) (vote_cost_limit t)"

definition reset :: "cost_tracker \<Rightarrow> cost_tracker" where
  "reset t = t\<lparr>cost_by_writable_accounts := Map.empty, block_cost := 0, vote_cost := 0,
     transaction_count := 0, allocated_size := 0, transaction_signature_count := 0,
     secp256k1_instruction_signature_count := 0, ed25519_instruction_signature_count := 0,
     secp256r1_instruction_signature_count := 0, in_flight_transaction_count := 0\<rparr>"

definition add_transactions_in_flight :: "cost_tracker \<Rightarrow> usize \<Rightarrow> cost_tracker" where
  "add_transactions_in_flight t n =
     t\<lparr>in_flight_transaction_count := saturating_add (in_flight_transaction_count t) n\<rparr>"

definition sub_transactions_in_flight :: "cost_tracker \<Rightarrow> usize \<Rightarrow> cost_tracker" where
  "sub_transactions_in_flight t n =
     t\<lparr>in_flight_transaction_count := saturating_sub (in_flight_transaction_count t) n\<rparr>"

definition account_cost :: "(pubkey \<rightharpoonup> u64) \<Rightarrow> pubkey \<Rightarrow> u64" where
  "account_cost m a = (case m a of None \<Rightarrow> 0 | Some c \<Rightarrow> c)"

text \<open>The loop of \<^verbatim>\<open>would_fit\<close> over the writable accounts.\<close>

fun accounts_fit :: "cost_tracker \<Rightarrow> u64 \<Rightarrow> pubkey list \<Rightarrow> cost_tracker_error + unit" where
  "accounts_fit t c [] = Inr ()"
| "accounts_fit t c (a # as) = (case cost_by_writable_accounts t a of
     Some chained_cost \<Rightarrow>
       if saturating_add chained_cost c > account_cost_limit t then Inl WouldExceedAccountMaxLimit
       else accounts_fit t c as
   | None \<Rightarrow> accounts_fit t c as)"

definition would_fit :: "cost_tracker \<Rightarrow> transaction_cost \<Rightarrow> cost_tracker_error + unit" where
  "would_fit t tx_cost = (let c = cost_sum tx_cost in
     bindr (require (\<not> (is_simple_vote tx_cost \<and> saturating_add (vote_cost t) c > vote_cost_limit t))
       WouldExceedVoteMaxLimit) (\<lambda>_.
     bindr (require (\<not> saturating_add (block_cost t) c > block_cost_limit t)
       WouldExceedBlockMaxLimit) (\<lambda>_.
     bindr (require (\<not> c > account_cost_limit t) WouldExceedAccountMaxLimit) (\<lambda>_.
     bindr (require (\<not> saturating_add (allocated_size t) (allocated_accounts_data_size tx_cost)
         > MAX_BLOCK_ACCOUNTS_DATA_SIZE_DELTA) WouldExceedAccountDataBlockLimit) (\<lambda>_.
     accounts_fit t c (writable_accounts tx_cost))))))"

fun add_to_accounts :: "u64 \<Rightarrow> (pubkey \<rightharpoonup> u64) \<Rightarrow> u64 \<Rightarrow> pubkey list \<Rightarrow> (pubkey \<rightharpoonup> u64) \<times> u64" where
  "add_to_accounts adj m costliest [] = (m, costliest)"
| "add_to_accounts adj m costliest (a # as) = (let c = saturating_add (account_cost m a) adj in
     add_to_accounts adj (m(a \<mapsto> c)) (max costliest c) as)"

definition add_transaction_execution_cost ::
  "cost_tracker \<Rightarrow> transaction_cost \<Rightarrow> u64 \<Rightarrow> cost_tracker \<times> u64"
where
  "add_transaction_execution_cost t tx_cost adj =
     (let (m, costliest) = add_to_accounts adj (cost_by_writable_accounts t) 0 (writable_accounts tx_cost) in
      (t\<lparr>cost_by_writable_accounts := m, block_cost := saturating_add (block_cost t) adj,
         vote_cost := (if is_simple_vote tx_cost then saturating_add (vote_cost t) adj else vote_cost t)\<rparr>,
       costliest))"

fun sub_from_accounts :: "u64 \<Rightarrow> (pubkey \<rightharpoonup> u64) \<Rightarrow> pubkey list \<Rightarrow> (pubkey \<rightharpoonup> u64)" where
  "sub_from_accounts adj m [] = m"
| "sub_from_accounts adj m (a # as) =
     sub_from_accounts adj (m(a \<mapsto> saturating_sub (account_cost m a) adj)) as"

definition sub_transaction_execution_cost :: "cost_tracker \<Rightarrow> transaction_cost \<Rightarrow> u64 \<Rightarrow> cost_tracker" where
  "sub_transaction_execution_cost t tx_cost adj =
     t\<lparr>cost_by_writable_accounts := sub_from_accounts adj (cost_by_writable_accounts t) (writable_accounts tx_cost),
       block_cost := saturating_sub (block_cost t) adj,
       vote_cost := (if is_simple_vote tx_cost then saturating_sub (vote_cost t) adj else vote_cost t)\<rparr>"

definition add_transaction_cost :: "cost_tracker \<Rightarrow> transaction_cost \<Rightarrow> cost_tracker \<times> u64" where
  "add_transaction_cost t c = add_transaction_execution_cost
     (t\<lparr>allocated_size := saturating_add (allocated_size t) (allocated_accounts_data_size c),
        transaction_count := saturating_add (transaction_count t) 1,
        transaction_signature_count :=
          saturating_add (transaction_signature_count t) (cost_num_transaction_signatures c),
        secp256k1_instruction_signature_count := saturating_add
          (secp256k1_instruction_signature_count t) (cost_num_secp256k1_instruction_signatures c),
        ed25519_instruction_signature_count := saturating_add
          (ed25519_instruction_signature_count t) (cost_num_ed25519_instruction_signatures c),
        secp256r1_instruction_signature_count := saturating_add
          (secp256r1_instruction_signature_count t) (cost_num_secp256r1_instruction_signatures c)\<rparr>)
     c (cost_sum c)"

definition remove_transaction_cost :: "cost_tracker \<Rightarrow> transaction_cost \<Rightarrow> cost_tracker" where
  "remove_transaction_cost t c = (let t = sub_transaction_execution_cost t c (cost_sum c) in
     t\<lparr>allocated_size := saturating_sub (allocated_size t) (allocated_accounts_data_size c),
       transaction_count := saturating_sub (transaction_count t) 1,
       transaction_signature_count :=
         saturating_sub (transaction_signature_count t) (cost_num_transaction_signatures c),
       secp256k1_instruction_signature_count := saturating_sub
         (secp256k1_instruction_signature_count t) (cost_num_secp256k1_instruction_signatures c),
       ed25519_instruction_signature_count := saturating_sub
         (ed25519_instruction_signature_count t) (cost_num_ed25519_instruction_signatures c),
       secp256r1_instruction_signature_count := saturating_sub
         (secp256r1_instruction_signature_count t) (cost_num_secp256r1_instruction_signatures c)\<rparr>)"

definition try_add :: "cost_tracker \<Rightarrow> transaction_cost \<Rightarrow> cost_tracker \<times> (cost_tracker_error + updated_costs)"
where
  "try_add t c = (case would_fit t c of
     Inl e \<Rightarrow> (t, Inl e)
   | Inr _ \<Rightarrow> (let (t', costliest) = add_transaction_cost t c in
       (t', Inr \<lparr>updated_block_cost = block_cost t', updated_costliest_account_cost = costliest\<rparr>)))"

definition update_execution_cost :: "cost_tracker \<Rightarrow> transaction_cost \<Rightarrow> u64 \<Rightarrow> u64 \<Rightarrow> cost_tracker" where
  "update_execution_cost t c actual_execution_units actual_loaded_cost =
     (let actual = saturating_add actual_execution_units actual_loaded_cost;
          estimated = saturating_add (programs_execution_cost c) (loaded_accounts_data_size_cost c) in
      if actual = estimated then t
      else if actual > estimated then fst (add_transaction_execution_cost t c (actual - estimated))
      else sub_transaction_execution_cost t c (estimated - actual))"

definition remove :: "cost_tracker \<Rightarrow> transaction_cost \<Rightarrow> cost_tracker" where
  "remove t c = remove_transaction_cost t c"

section \<open>What the tracker stands for\<close>

text \<open>
  A charge: the writable accounts, whether it is a vote, the compute units charged and the bytes
  allocated. A tracker stands for the multiset of charges of the transactions in the block.
\<close>

record charge =
  ch_accounts :: "pubkey set"
  ch_vote :: bool
  ch_units :: nat
  ch_bytes :: nat

definition charge_of :: "transaction_cost \<Rightarrow> charge" where
  "charge_of c = \<lparr>ch_accounts = set (writable_accounts c), ch_vote = is_simple_vote c,
     ch_units = unat (cost_sum c), ch_bytes = unat (allocated_accounts_data_size c)\<rparr>"

definition units :: "charge multiset \<Rightarrow> nat" where
  "units M = \<Sum>\<^sub># (image_mset ch_units M)"

definition bytes :: "charge multiset \<Rightarrow> nat" where
  "bytes M = \<Sum>\<^sub># (image_mset ch_bytes M)"

abbreviation votes :: "charge multiset \<Rightarrow> charge multiset" where
  "votes M \<equiv> filter_mset ch_vote M"

abbreviation touching :: "pubkey \<Rightarrow> charge multiset \<Rightarrow> charge multiset" where
  "touching a M \<equiv> filter_mset (\<lambda>c. a \<in> ch_accounts c) M"

lemma units_simps [simp]:
  "units {#} = 0" "units (add_mset c M) = ch_units c + units M"
  "bytes {#} = 0" "bytes (add_mset c M) = ch_bytes c + bytes M"
  by (simp_all add: units_def bytes_def)

lemma units_filter_le: "units (filter_mset P M) \<le> units M"
  by (induction M) auto

definition tracks_units :: "cost_tracker \<Rightarrow> charge multiset \<Rightarrow> bool" where
  "tracks_units t M \<longleftrightarrow> unat (block_cost t) = units M \<and> unat (vote_cost t) = units (votes M) \<and>
     (\<forall>a. unat (account_cost (cost_by_writable_accounts t) a) = units (touching a M))"

definition tracks :: "cost_tracker \<Rightarrow> charge multiset \<Rightarrow> bool" where
  "tracks t M \<longleftrightarrow> tracks_units t M \<and> unat (allocated_size t) = bytes M \<and>
     unat (transaction_count t) = size M"

lemma tracksD:
  assumes "tracks t M"
  shows "unat (block_cost t) = units M" "unat (vote_cost t) = units (votes M)"
    "unat (account_cost (cost_by_writable_accounts t) a) = units (touching a M)"
    "unat (allocated_size t) = bytes M" "unat (transaction_count t) = size M"
  using assms by (simp_all add: tracks_def tracks_units_def)

lemma tracks_fresh: "tracks (new_from_parent_limits p) {#}" "tracks cost_tracker_default {#}"
  "tracks (reset t) {#}"
  by (simp_all add: tracks_def tracks_units_def new_from_parent_limits_def set_limits_def
      cost_tracker_default_def reset_def account_cost_def)

section \<open>The loops over the writable accounts\<close>

lemma account_cost_upd [simp]: "account_cost (m(a \<mapsto> c)) b = (if b = a then c else account_cost m b)"
  by (simp add: account_cost_def)

lemma add_to_accounts_cost:
  "distinct as \<Longrightarrow> account_cost (fst (add_to_accounts adj m c as)) a =
     (if a \<in> set as then saturating_add (account_cost m a) adj else account_cost m a)"
  by (induction as arbitrary: m c) (auto simp: Let_def simp del: fun_upd_apply)

lemma add_to_accounts_costliest:
  "distinct as \<Longrightarrow> snd (add_to_accounts adj m c as) =
     Max (insert c ((\<lambda>a. account_cost (fst (add_to_accounts adj m c as)) a) ` set as))"
proof (induction as arbitrary: m c)
  case (Cons a as)
  let ?c = "saturating_add (account_cost m a) adj" and ?m = "m(a \<mapsto> saturating_add (account_cost m a) adj)"
  have "account_cost (fst (add_to_accounts adj ?m (max c ?c) as)) a = ?c"
    using Cons.prems by (simp add: add_to_accounts_cost del: fun_upd_apply)
  moreover have "Max (insert (max c ?c) A) = Max (insert c (insert ?c A))" if "finite A" for A :: "u64 set"
    using that by (cases "A = {}") (simp_all add: max.assoc)
  ultimately show ?case using Cons by (simp add: Let_def del: fun_upd_apply)
qed simp

lemma sub_from_accounts_cost:
  "distinct as \<Longrightarrow> account_cost (sub_from_accounts adj m as) a =
     (if a \<in> set as then saturating_sub (account_cost m a) adj else account_cost m a)"
  by (induction as arbitrary: m) (auto simp del: fun_upd_apply)

lemma saturating_add_0: "saturating_add 0 c = c"
  by (simp add: saturating_add_def)

lemma accounts_fit_eq:
  "c \<le> account_cost_limit t \<Longrightarrow> accounts_fit t c as =
     (if \<exists>a \<in> set as. saturating_add (account_cost (cost_by_writable_accounts t) a) c > account_cost_limit t
      then Inl WouldExceedAccountMaxLimit else Inr ())"
  by (induction as) (auto simp: account_cost_def saturating_add_0 not_less split: option.splits)


definition limits :: "cost_tracker \<Rightarrow> u64 \<times> u64 \<times> u64" where
  "limits t = (account_cost_limit t, block_cost_limit t, vote_cost_limit t)"

section \<open>Charging and discharging\<close>

lemma tracks_units_zero:
  "tracks_units t M \<Longrightarrow> ch_units c = 0 \<Longrightarrow> tracks_units t (add_mset c M)"
  by (simp add: tracks_units_def)

abbreviation charge_for :: "transaction_cost \<Rightarrow> charge \<Rightarrow> bool" where
  "charge_for c ch \<equiv> ch_accounts ch = set (writable_accounts c) \<and> ch_vote ch = is_simple_vote c"

lemma saturating_add_exact:
  "unat x + unat y < 2 ^ 64 \<Longrightarrow> unat (saturating_add x y) = unat x + unat y" for x y :: u64
  by (simp add: unat_saturating_add)

lemma tracks_units_add:
  assumes t: "tracks_units t (add_mset ch M)" and ch: "charge_for c ch" and d: "distinct (writable_accounts c)"
    and n: "ch_units ch + units M + unat adj < 2 ^ 64"
  shows "tracks_units (fst (add_transaction_execution_cost t c adj))
    (add_mset (ch\<lparr>ch_units := ch_units ch + unat adj\<rparr>) M)"
proof -
  let ?t = "fst (add_transaction_execution_cost t c adj)"
  note [simp] = add_transaction_execution_cost_def case_prod_beta Let_def add_to_accounts_cost [OF d]
  have v: "unat (vote_cost t) = (if is_simple_vote c then ch_units ch else 0) + units (votes M)"
    and a: "unat (account_cost (cost_by_writable_accounts t) a) =
      (if a \<in> set (writable_accounts c) then ch_units ch else 0) + units (touching a M)" for a
    using t ch by (auto simp: tracks_units_def)
  have "unat (block_cost ?t) = ch_units ch + unat adj + units M"
    using t n by (simp add: saturating_add_exact tracks_units_def)
  moreover have "unat (vote_cost ?t) =
      (if is_simple_vote c then ch_units ch + unat adj else 0) + units (votes M)"
    using v n units_filter_le [of ch_vote M] by (simp add: saturating_add_exact)
  moreover have "unat (account_cost (cost_by_writable_accounts ?t) a) =
      (if a \<in> set (writable_accounts c) then ch_units ch + unat adj else 0) + units (touching a M)" for a
    using a [of a] n units_filter_le [of "\<lambda>c. a \<in> ch_accounts c" M] by (simp add: saturating_add_exact)
  ultimately show ?thesis using ch by (simp add: tracks_units_def)
qed

lemma tracks_units_sub:
  assumes t: "tracks_units t (add_mset ch M)" and ch: "charge_for c ch" and d: "distinct (writable_accounts c)"
    and n: "unat adj \<le> ch_units ch"
  shows "tracks_units (sub_transaction_execution_cost t c adj)
    (add_mset (ch\<lparr>ch_units := ch_units ch - unat adj\<rparr>) M)"
  using t ch n by (auto simp: tracks_units_def sub_transaction_execution_cost_def
      sub_from_accounts_cost [OF d] unat_saturating_sub)

lemma charge_of_simps [simp]:
  "ch_accounts (charge_of c) = set (writable_accounts c)" "ch_vote (charge_of c) = is_simple_vote c"
  "ch_units (charge_of c) = unat (cost_sum c)" "ch_bytes (charge_of c) = unat (allocated_accounts_data_size c)"
  by (simp_all add: charge_of_def)

lemma charge_of_restore: "(charge_of c)\<lparr>ch_units := unat (cost_sum c)\<rparr> = charge_of c"
  by (simp add: charge_of_def)

lemma tracks_units_cong:
  "block_cost t = block_cost t' \<Longrightarrow> vote_cost t = vote_cost t' \<Longrightarrow>
    cost_by_writable_accounts t = cost_by_writable_accounts t' \<Longrightarrow> tracks_units t M = tracks_units t' M"
  by (simp add: tracks_units_def)

lemma add_exec_frame [simp]:
  "account_cost_limit (fst (add_transaction_execution_cost t c adj)) = account_cost_limit t"
  "block_cost_limit (fst (add_transaction_execution_cost t c adj)) = block_cost_limit t"
  "vote_cost_limit (fst (add_transaction_execution_cost t c adj)) = vote_cost_limit t"
  "allocated_size (fst (add_transaction_execution_cost t c adj)) = allocated_size t"
  "transaction_count (fst (add_transaction_execution_cost t c adj)) = transaction_count t"
  "transaction_signature_count (fst (add_transaction_execution_cost t c adj)) = transaction_signature_count t"
  "secp256k1_instruction_signature_count (fst (add_transaction_execution_cost t c adj)) = secp256k1_instruction_signature_count t"
  "ed25519_instruction_signature_count (fst (add_transaction_execution_cost t c adj)) = ed25519_instruction_signature_count t"
  "in_flight_transaction_count (fst (add_transaction_execution_cost t c adj)) = in_flight_transaction_count t"
  "secp256r1_instruction_signature_count (fst (add_transaction_execution_cost t c adj)) = secp256r1_instruction_signature_count t"
  by (simp_all add: add_transaction_execution_cost_def case_prod_beta Let_def)

lemma sub_exec_frame [simp]:
  "account_cost_limit (sub_transaction_execution_cost t c adj) = account_cost_limit t"
  "block_cost_limit (sub_transaction_execution_cost t c adj) = block_cost_limit t"
  "vote_cost_limit (sub_transaction_execution_cost t c adj) = vote_cost_limit t"
  "allocated_size (sub_transaction_execution_cost t c adj) = allocated_size t"
  "transaction_count (sub_transaction_execution_cost t c adj) = transaction_count t"
  "transaction_signature_count (sub_transaction_execution_cost t c adj) = transaction_signature_count t"
  "secp256k1_instruction_signature_count (sub_transaction_execution_cost t c adj) = secp256k1_instruction_signature_count t"
  "ed25519_instruction_signature_count (sub_transaction_execution_cost t c adj) = ed25519_instruction_signature_count t"
  "in_flight_transaction_count (sub_transaction_execution_cost t c adj) = in_flight_transaction_count t"
  "secp256r1_instruction_signature_count (sub_transaction_execution_cost t c adj) = secp256r1_instruction_signature_count t"
  by (simp_all add: sub_transaction_execution_cost_def)

lemma tracks_add:
  assumes t: "tracks t M" and d: "distinct (writable_accounts c)"
    and n: "units M + unat (cost_sum c) < 2 ^ 64"
    and m: "bytes M + unat (allocated_accounts_data_size c) < 2 ^ 64" and k: "size M + 1 < 2 ^ 64"
  shows "tracks (fst (add_transaction_cost t c)) (add_mset (charge_of c) M)"
proof -
  let ?z = "(charge_of c)\<lparr>ch_units := 0\<rparr>"
  obtain t0 where t0: "add_transaction_cost t c = add_transaction_execution_cost t0 c (cost_sum c)"
    "block_cost t0 = block_cost t" "vote_cost t0 = vote_cost t"
    "cost_by_writable_accounts t0 = cost_by_writable_accounts t"
    "allocated_size t0 = saturating_add (allocated_size t) (allocated_accounts_data_size c)"
    "transaction_count t0 = saturating_add (transaction_count t) 1"
    by (simp add: add_transaction_cost_def)
  have "tracks_units t0 M" using t t0 by (simp add: tracks_def tracks_units_def)
  then have "tracks_units t0 (add_mset ?z M)" by (simp add: tracks_units_zero)
  from tracks_units_add [OF this _ d, of "cost_sum c"] n
  have "tracks_units (fst (add_transaction_cost t c)) (add_mset (charge_of c) M)"
    by (simp add: t0 charge_of_restore)
  then show ?thesis using t m k by (simp add: tracks_def t0 saturating_add_exact)
qed

lemma remove_add_fields:
  fixes t c defines "r \<equiv> remove (fst (add_transaction_cost t c)) c"
  shows "limits r = limits t" "in_flight_transaction_count r = in_flight_transaction_count t"
    "transaction_signature_count r = saturating_sub (saturating_add (transaction_signature_count t)
       (cost_num_transaction_signatures c)) (cost_num_transaction_signatures c)"
    "secp256k1_instruction_signature_count r = saturating_sub (saturating_add (secp256k1_instruction_signature_count t)
       (cost_num_secp256k1_instruction_signatures c)) (cost_num_secp256k1_instruction_signatures c)"
    "ed25519_instruction_signature_count r = saturating_sub (saturating_add (ed25519_instruction_signature_count t)
       (cost_num_ed25519_instruction_signatures c)) (cost_num_ed25519_instruction_signatures c)"
    "secp256r1_instruction_signature_count r = saturating_sub (saturating_add (secp256r1_instruction_signature_count t)
       (cost_num_secp256r1_instruction_signatures c)) (cost_num_secp256r1_instruction_signatures c)"
  by (simp_all add: r_def limits_def remove_def remove_transaction_cost_def Let_def add_transaction_cost_def)

lemma tracks_remove:
  assumes t: "tracks t (add_mset (charge_of c) M)" and d: "distinct (writable_accounts c)"
  shows "tracks (remove t c) M"
proof -
  have "tracks_units (sub_transaction_execution_cost t c (cost_sum c)) (add_mset ((charge_of c)\<lparr>ch_units := 0\<rparr>) M)"
    using tracks_units_sub [of t "charge_of c" M c "cost_sum c"] t d by (simp add: tracks_def)
  then have "tracks_units (sub_transaction_execution_cost t c (cost_sum c)) M"
    by (simp add: tracks_units_def)
  then have "tracks_units (remove t c) M"
    by (simp add: tracks_units_def remove_def remove_transaction_cost_def Let_def)
  then show ?thesis
    using t by (simp add: tracks_def remove_def remove_transaction_cost_def Let_def unat_saturating_sub)
qed

text \<open>What is estimated for loading and executing, and what the correction makes of a charge.\<close>

definition estimated_units :: "transaction_cost \<Rightarrow> nat" where
  "estimated_units c = unat (saturating_add (programs_execution_cost c) (loaded_accounts_data_size_cost c))"

definition corrected :: "transaction_cost \<Rightarrow> u64 \<Rightarrow> u64 \<Rightarrow> charge" where
  "corrected c exec loaded = (charge_of c)\<lparr>ch_units :=
     unat (cost_sum c) + unat (saturating_add exec loaded) - estimated_units c\<rparr>"

lemma corrected_simps [simp]:
  "ch_accounts (corrected c e l) = set (writable_accounts c)" "ch_vote (corrected c e l) = is_simple_vote c"
  "ch_units (corrected c e l) = unat (cost_sum c) + unat (saturating_add e l) - estimated_units c"
  "ch_bytes (corrected c e l) = unat (allocated_accounts_data_size c)"
  by (simp_all add: corrected_def)

lemma estimated_le_sum: "estimated_units c \<le> unat (cost_sum c)"
proof (cases c)
  case (SimpleVote tx)
  then show ?thesis
    by (simp add: estimated_units_def programs_execution_cost_def loaded_accounts_data_size_cost_def
        cost_sum_def VOTE_DEFAULT_COMPUTE_UNITS_def SIMPLE_VOTE_USAGE_COST_def saturating_add_def)
next
  case (Transaction u)
  then show ?thesis
    by (simp add: estimated_units_def programs_execution_cost_def loaded_accounts_data_size_cost_def
        cost_sum_def unat_usage_sum unat_saturating_add min_def)
qed

lemma update_execution_cost_cases:
  obtains (eq) "unat (saturating_add e l) = estimated_units c" "update_execution_cost t c e l = t"
  | (more) adj where "unat (saturating_add e l) = estimated_units c + unat adj"
      "update_execution_cost t c e l = fst (add_transaction_execution_cost t c adj)"
  | (less) adj where "estimated_units c = unat (saturating_add e l) + unat adj"
      "update_execution_cost t c e l = sub_transaction_execution_cost t c adj"
proof -
  let ?a = "saturating_add e l"
    and ?e = "saturating_add (programs_execution_cost c) (loaded_accounts_data_size_cost c)"
  consider "?a = ?e" | "?a > ?e" | "?a < ?e" by fastforce
  then show thesis
  proof cases
    case 1
    then show ?thesis by (intro eq) (simp_all add: update_execution_cost_def estimated_units_def)
  next
    case 2
    then show ?thesis
      by (intro more [of "?a - ?e"])
        (auto simp: update_execution_cost_def estimated_units_def unat_sub Let_def word_less_nat_alt word_le_nat_alt)
  next
    case 3
    then show ?thesis
      by (intro less [of "?e - ?a"])
        (auto simp: update_execution_cost_def estimated_units_def unat_sub Let_def word_less_nat_alt word_le_nat_alt)
  qed
qed

lemma tracks_update:
  assumes t: "tracks t (add_mset (charge_of c) M)" and d: "distinct (writable_accounts c)"
    and n: "units (add_mset (corrected c e l) M) < 2 ^ 64"
  shows "tracks (update_execution_cost t c e l) (add_mset (corrected c e l) M)"
proof -
  have tu: "tracks_units t (add_mset (charge_of c) M)" using t by (simp add: tracks_def)
  note le = estimated_le_sum [of c]
  show ?thesis
  proof (cases rule: update_execution_cost_cases [of e l c t])
    case eq
    then have *: "corrected c e l = charge_of c" by (simp add: corrected_def charge_of_restore)
    show ?thesis unfolding eq(2) * by (rule t)
  next
    case (more adj)
    then have *: "corrected c e l = (charge_of c)\<lparr>ch_units := ch_units (charge_of c) + unat adj\<rparr>"
      by (simp add: corrected_def)
    have "tracks_units (update_execution_cost t c e l) (add_mset (corrected c e l) M)"
      unfolding more(2) * using n by (intro tracks_units_add [OF tu _ d]) (simp_all add: *)
    with t show ?thesis by (simp add: tracks_def more(2))
  next
    case (less adj)
    then have *: "corrected c e l = (charge_of c)\<lparr>ch_units := ch_units (charge_of c) - unat adj\<rparr>"
      using le by (simp add: corrected_def)
    have "tracks_units (update_execution_cost t c e l) (add_mset (corrected c e l) M)"
      unfolding less(2) * using le less(1) by (intro tracks_units_sub [OF tu _ d]) simp_all
    with t show ?thesis by (simp add: tracks_def less(2))
  qed
qed

section \<open>Admission\<close>

text \<open>The first limit, in the order of \<^verbatim>\<open>would_fit\<close>, that a transaction on top of the charges would exceed.\<close>

definition exceeded :: "cost_tracker \<Rightarrow> charge multiset \<Rightarrow> transaction_cost \<Rightarrow> cost_tracker_error option" where
  "exceeded t M c = (let n = unat (cost_sum c) in
     if is_simple_vote c \<and> unat (vote_cost_limit t) < units (votes M) + n then Some WouldExceedVoteMaxLimit
     else if unat (block_cost_limit t) < units M + n then Some WouldExceedBlockMaxLimit
     else if unat (account_cost_limit t) < n then Some WouldExceedAccountMaxLimit
     else if unat MAX_BLOCK_ACCOUNTS_DATA_SIZE_DELTA < bytes M + unat (allocated_accounts_data_size c)
     then Some WouldExceedAccountDataBlockLimit
     else if \<exists>a \<in> set (writable_accounts c). unat (account_cost_limit t) < units (touching a M) + n
     then Some WouldExceedAccountMaxLimit else None)"

definition real_limits :: "cost_tracker \<Rightarrow> bool" where
  "real_limits t \<longleftrightarrow> account_cost_limit t < - 1 \<and> block_cost_limit t < - 1 \<and> vote_cost_limit t < - 1"

lemma saturating_add_gt:
  "l < - 1 \<Longrightarrow> l < saturating_add x y \<longleftrightarrow> unat l < unat x + unat y" for x y l :: u64
  by (auto simp: word_less_nat_alt unat_saturating_add unat_minus_one')

lemma would_fit_exceeded:
  assumes t: "tracks t M" and l: "real_limits t"
  shows "would_fit t c = (case exceeded t M c of Some e \<Rightarrow> Inl e | None \<Rightarrow> Inr ())"
proof -
  note T = tracksD [OF t]
  have v: "saturating_add (vote_cost t) (cost_sum c) > vote_cost_limit t \<longleftrightarrow>
      unat (vote_cost_limit t) < units (votes M) + unat (cost_sum c)"
    and b: "saturating_add (block_cost t) (cost_sum c) > block_cost_limit t \<longleftrightarrow>
      unat (block_cost_limit t) < units M + unat (cost_sum c)"
    and s: "saturating_add (allocated_size t) (allocated_accounts_data_size c) > MAX_BLOCK_ACCOUNTS_DATA_SIZE_DELTA
      \<longleftrightarrow> unat MAX_BLOCK_ACCOUNTS_DATA_SIZE_DELTA < bytes M + unat (allocated_accounts_data_size c)"
    and a: "saturating_add (account_cost (cost_by_writable_accounts t) x) (cost_sum c) > account_cost_limit t \<longleftrightarrow>
      unat (account_cost_limit t) < units (touching x M) + unat (cost_sum c)" for x
    using l by (simp_all add: saturating_add_gt real_limits_def T MAX_BLOCK_ACCOUNTS_DATA_SIZE_DELTA_def)
  have x: "cost_sum c > account_cost_limit t \<longleftrightarrow> unat (account_cost_limit t) < unat (cost_sum c)"
    by (simp add: word_less_nat_alt)
  show ?thesis
  proof (cases "cost_sum c > account_cost_limit t")
    case True
    then show ?thesis unfolding would_fit_def exceeded_def Let_def v b s x by (simp add: require_def)
  next
    case False
    then have *: "accounts_fit t (cost_sum c) (writable_accounts c) =
      (if \<exists>a \<in> set (writable_accounts c). unat (account_cost_limit t) < units (touching a M) + unat (cost_sum c)
       then Inl WouldExceedAccountMaxLimit else Inr ())"
      by (simp add: accounts_fit_eq a)
    show ?thesis unfolding would_fit_def exceeded_def Let_def v b s x * by (simp add: require_def)
  qed
qed

lemma exceeded_None:
  assumes "exceeded t M c = None"
  shows "units M + unat (cost_sum c) \<le> unat (block_cost_limit t)"
    "is_simple_vote c \<Longrightarrow> units (votes M) + unat (cost_sum c) \<le> unat (vote_cost_limit t)"
    "bytes M + unat (allocated_accounts_data_size c) \<le> unat MAX_BLOCK_ACCOUNTS_DATA_SIZE_DELTA"
    "a \<in> set (writable_accounts c) \<Longrightarrow> units (touching a M) + unat (cost_sum c) \<le> unat (account_cost_limit t)"
  using assms by (auto simp: exceeded_def Let_def not_less split: if_splits)

lemma try_add_cases:
  assumes t: "tracks t M" and l: "real_limits t" and d: "distinct (writable_accounts c)"
    and k: "size M + 1 < 2 ^ 64"
  shows "exceeded t M c = Some e \<Longrightarrow> try_add t c = (t, Inl e)"
    and "exceeded t M c = None \<Longrightarrow> \<exists>t' u. try_add t c = (t', Inr u) \<and> t' = fst (add_transaction_cost t c) \<and>
      updated_block_cost u = block_cost t' \<and> updated_costliest_account_cost u = snd (add_transaction_cost t c) \<and>
      tracks t' (add_mset (charge_of c) M)"
proof -
  show "exceeded t M c = Some e \<Longrightarrow> try_add t c = (t, Inl e)"
    by (simp add: try_add_def would_fit_exceeded [OF t l])
next
  assume x: "exceeded t M c = None"
  have "units M + unat (cost_sum c) < 2 ^ 64" "bytes M + unat (allocated_accounts_data_size c) < 2 ^ 64"
    using exceeded_None(1,3) [OF x] unat_less [of "block_cost_limit t"]
      unat_less [of MAX_BLOCK_ACCOUNTS_DATA_SIZE_DELTA] by simp_all
  then have "tracks (fst (add_transaction_cost t c)) (add_mset (charge_of c) M)"
    using tracks_add [OF t d] k by simp
  then show "\<exists>t' u. try_add t c = (t', Inr u) \<and> t' = fst (add_transaction_cost t c) \<and>
      updated_block_cost u = block_cost t' \<and> updated_costliest_account_cost u = snd (add_transaction_cost t c) \<and>
      tracks t' (add_mset (charge_of c) M)"
    using x by (simp add: try_add_def would_fit_exceeded [OF t l] case_prod_beta)
qed

lemma limits_kept [simp]:
  "limits (fst (try_add t c)) = limits t" "limits (remove t c) = limits t"
  "limits (update_execution_cost t c e l) = limits t" "limits (new_from_parent_limits t) = limits t"
  "limits (reset t) = limits t"
  by (simp_all add: limits_def try_add_def case_prod_beta add_transaction_cost_def
      add_transaction_execution_cost_def Let_def remove_def remove_transaction_cost_def
      sub_transaction_execution_cost_def update_execution_cost_def new_from_parent_limits_def
      set_limits_def reset_def split: sum.split)

lemma limits_cong:
  "limits t = limits t' \<Longrightarrow> account_cost_limit t = account_cost_limit t'"
  "limits t = limits t' \<Longrightarrow> block_cost_limit t = block_cost_limit t'"
  "limits t = limits t' \<Longrightarrow> vote_cost_limit t = vote_cost_limit t'"
  "limits t = limits t' \<Longrightarrow> real_limits t = real_limits t'"
  by (simp_all add: limits_def real_limits_def)

section \<open>The life of a block\<close>

text \<open>
  The states the tracker of a block goes through: transactions are admitted, taken out again, or
  corrected to an actual cost that is at most the estimate.
\<close>

inductive block_run :: "cost_tracker \<Rightarrow> cost_tracker \<Rightarrow> charge multiset \<Rightarrow> bool" for p where
  fresh: "block_run p (new_from_parent_limits p) {#}"
| added: "block_run p (fst (try_add t c)) (add_mset (charge_of c) M)"
    if "block_run p t M" "distinct (writable_accounts c)" "size M + 1 < 2 ^ 64"
      "try_add t c = (t', Inr u)"
| removed: "block_run p (remove t c) M"
    if "block_run p t (add_mset (charge_of c) M)" "distinct (writable_accounts c)"
| executed: "block_run p (update_execution_cost t c e l) (add_mset (corrected c e l) M)"
    if "block_run p t (add_mset (charge_of c) M)" "distinct (writable_accounts c)"
      "unat (saturating_add e l) \<le> estimated_units c"

definition within_limits :: "cost_tracker \<Rightarrow> charge multiset \<Rightarrow> bool" where
  "within_limits t M \<longleftrightarrow> units M \<le> unat (block_cost_limit t) \<and> units (votes M) \<le> unat (vote_cost_limit t) \<and>
     (\<forall>a. units (touching a M) \<le> unat (account_cost_limit t)) \<and>
     bytes M \<le> unat MAX_BLOCK_ACCOUNTS_DATA_SIZE_DELTA"

lemma within_limits_add:
  "within_limits t M \<Longrightarrow> exceeded t M c = None \<Longrightarrow> within_limits t (add_mset (charge_of c) M)"
  using exceeded_None [of t M c] by (auto simp: within_limits_def add.commute)

lemma within_limits_mono:
  assumes "within_limits t (add_mset x M)" "ch_accounts y = ch_accounts x" "ch_vote y = ch_vote x"
    "ch_units y \<le> ch_units x" "ch_bytes y \<le> ch_bytes x"
  shows "within_limits t (add_mset y M)"
proof -
  have "units (touching a (add_mset y M)) \<le> units (touching a (add_mset x M))" for a
    using assms(2-5) by simp
  moreover have "units (votes (add_mset y M)) \<le> units (votes (add_mset x M))" using assms(2-5) by simp
  moreover have "units (add_mset y M) \<le> units (add_mset x M)" "bytes (add_mset y M) \<le> bytes (add_mset x M)"
    using assms(2-5) by simp_all
  ultimately show ?thesis using assms(1) unfolding within_limits_def by (meson order_trans)
qed

lemma within_limits_drop:
  assumes "within_limits t (add_mset x M)" shows "within_limits t M"
proof -
  let ?z = "x\<lparr>ch_units := 0, ch_bytes := 0\<rparr>"
  have "within_limits t (add_mset ?z M)" by (rule within_limits_mono [OF assms]) simp_all
  then show ?thesis
    unfolding within_limits_def by (simp split: if_splits) blast+
qed

lemma within_limits_cong: "limits t = limits t' \<Longrightarrow> within_limits t M = within_limits t' M"
  by (simp add: within_limits_def limits_def)

lemma block_run_invariant:
  "block_run p t M \<Longrightarrow> real_limits p \<Longrightarrow> limits t = limits p \<and> tracks t M \<and> within_limits p M"
proof (induction rule: block_run.induct)
  case fresh
  then show ?case by (simp add: tracks_fresh within_limits_def)
next
  case (added t M c t' u)
  then have t: "tracks t M" "limits t = limits p" "within_limits p M" by auto
  have l: "real_limits t" using limits_cong(4) [OF t(2)] added.prems by simp
  have x: "exceeded t M c = None"
    using try_add_cases(1) [OF t(1) l added.hyps(2,3)] added.hyps(4) by (cases "exceeded t M c") auto
  have "within_limits p (add_mset (charge_of c) M)"
    using within_limits_add [OF _ x] t(3) within_limits_cong [OF t(2)] by simp
  with try_add_cases(2) [OF t(1) l added.hyps(2,3) x] t(2) show ?case by auto
next
  case (removed t c M)
  then show ?case using tracks_remove [of t c M] within_limits_drop [of p "charge_of c" M] by simp
next
  case (executed t c M e l)
  then have w: "within_limits p (add_mset (corrected c e l) M)"
    using within_limits_mono [of p "charge_of c" M "corrected c e l"] by simp
  then have "units (add_mset (corrected c e l) M) < 2 ^ 64"
    using unat_less [of "block_cost_limit p"] by (simp add: within_limits_def)
  with executed w tracks_update show ?case by simp
qed

section \<open>An example block\<close>

definition ex_transaction :: transaction where
  "ex_transaction = \<lparr>account_keys = [1, 2], writable_flags = [True, False], is_simple_vote_transaction = False,
     signature_details = \<lparr>num_transaction_signatures = 1, num_secp256k1_instruction_signatures = 0,
       num_ed25519_instruction_signatures = 0, num_secp256r1_instruction_signatures = 0\<rparr>,
     instruction_data_len = 8, num_write_locks = 1, program_instructions = [(3, [])],
     compute_budget = Some (1000, 64)\<rparr>"

definition ex_env :: cost_env where
  "ex_env = \<lparr>system_program_id = 0, decode_system_instruction = (\<lambda>_. None),
     calculate_memory_usage_cost = (\<lambda>bytes heap. ucast bytes + heap), default_heap_cost = 8,
     max_permitted_data_length = 100, max_permitted_allocations_per_transaction = 200,
     ed25519_precompile_verify_strict = True, enable_secp256r1_precompile = True\<rparr>"

definition ex_cost :: transaction_cost where
  "ex_cost = calculate_cost ex_env ex_transaction"

definition ex_tracker :: cost_tracker where
  "ex_tracker = fst (try_add cost_tracker_default ex_cost)"

lemma ex_cost_eq: "ex_cost = Transaction \<lparr>u_transaction = ex_transaction, u_signature_cost = 720,
    u_write_lock_cost = 300, u_data_bytes_cost = 2, u_programs_execution_cost = 1000,
    u_loaded_accounts_data_size_cost = 72, u_allocated_accounts_data_size = 0\<rparr>"
  by (simp add: ex_cost_def calculate_cost_def ex_transaction_def ex_env_def get_transaction_cost_def
      get_instructions_data_cost_def get_estimated_execution_cost_def cost_constants
      calculate_loaded_accounts_data_size_cost_def calculate_non_vote_transaction_cost_def
      get_signature_cost_def get_write_lock_cost_def saturating_mul_def saturating_add_def
      calculate_allocated_accounts_data_size_def account_data_size_on_instruction_def Let_def)

lemma ex_cost_facts:
  "cost_sum ex_cost = 2094" "writable_accounts ex_cost = [1]" "\<not> is_simple_vote ex_cost"
  "allocated_accounts_data_size ex_cost = 0"
  by (simp_all add: ex_cost_eq cost_sum_def usage_sum_def saturating_add_def writable_accounts_def
      cost_transaction_def ex_transaction_def is_writable_def is_simple_vote_def
      allocated_accounts_data_size_def)

lemma ex_limits: "real_limits cost_tracker_default"
  by (simp add: real_limits_def cost_tracker_default_def cost_constants)

lemma ex_admitted: "exceeded cost_tracker_default {#} ex_cost = None"
  by (simp add: exceeded_def ex_cost_facts cost_tracker_default_def cost_constants)

lemma ex_try_add: "\<exists>u. try_add cost_tracker_default ex_cost = (ex_tracker, Inr u)"
  and ex_tracks: "tracks ex_tracker {#charge_of ex_cost#}"
  using try_add_cases(2) [OF tracks_fresh(2) ex_limits _ _ ex_admitted]
  by (auto simp: ex_tracker_def ex_cost_facts)

lemma ex_run: "block_run cost_tracker_default ex_tracker {#charge_of ex_cost#}"
proof -
  have "new_from_parent_limits cost_tracker_default = cost_tracker_default"
    by (simp add: new_from_parent_limits_def set_limits_def cost_tracker_default_def)
  with block_run.fresh [of cost_tracker_default]
  have "block_run cost_tracker_default cost_tracker_default {#}" by simp
  then show ?thesis using ex_try_add block_run.added [of cost_tracker_default cost_tracker_default "{#}" ex_cost]
    by (auto simp: ex_cost_facts ex_tracker_def)
qed

section \<open>Properties\<close>

text \<open>
  C32. The cost limits of a block hold at every moment of its life. Starting from a tracker that
  takes over its parent's limits (none of them the largest 64-bit number), after any sequence of
  \<^verbatim>\<open>try_add\<close>, \<^verbatim>\<open>remove\<close> and \<^verbatim>\<open>update_execution_cost\<close> calls that correct costs downwards, the tracked
  numbers are exactly the totals of the transactions in the block, and the block cost, the vote
  cost, the cost of every account and the allocated bytes are within the limits.
\<close>

theorem block_limits_hold:
  assumes "block_run p t M" "real_limits p"
  shows "tracks t M \<and> block_cost t \<le> block_cost_limit p \<and> vote_cost t \<le> vote_cost_limit p \<and>
    account_cost (cost_by_writable_accounts t) a \<le> account_cost_limit p \<and>
    allocated_size t \<le> MAX_BLOCK_ACCOUNTS_DATA_SIZE_DELTA"
  using block_run_invariant [OF assms] tracksD [of t M]
  by (auto simp: within_limits_def word_le_nat_alt)

theorem block_limits_hold_witness:
  "block_run cost_tracker_default ex_tracker {#charge_of ex_cost#} \<and> real_limits cost_tracker_default \<and>
   block_cost ex_tracker \<le> block_cost_limit cost_tracker_default"
  using block_limits_hold [OF ex_run ex_limits] ex_run ex_limits by blast

text \<open>
  C33. \<^verbatim>\<open>try_add\<close> decides exactly by the limits, and in the order of the code: a transaction is
  refused with the error of the first limit it would exceed on top of what the block holds, and
  the tracker is then unchanged. Otherwise it is admitted, the tracker holds the block with the
  transaction added and the same limits, and the returned costs are the new block cost and the
  highest cost among the accounts the transaction writes.
\<close>

theorem try_add_decides:
  assumes t: "tracks t M" and l: "real_limits t" and d: "distinct (writable_accounts c)"
    and k: "size M + 1 < 2 ^ 64"
  shows "case exceeded t M c of
      Some e \<Rightarrow> try_add t c = (t, Inl e)
    | None \<Rightarrow> \<exists>t' u. try_add t c = (t', Inr u) \<and> tracks t' (add_mset (charge_of c) M) \<and> limits t' = limits t \<and>
        unat (updated_block_cost u) = units M + unat (cost_sum c) \<and>
        updated_costliest_account_cost u =
          Max (insert 0 (account_cost (cost_by_writable_accounts t') ` set (writable_accounts c)))"
proof (cases "exceeded t M c")
  case None
  from try_add_cases(2) [OF t l d k None] obtain t' u where
    *: "try_add t c = (t', Inr u)" "t' = fst (add_transaction_cost t c)" "updated_block_cost u = block_cost t'"
      "updated_costliest_account_cost u = snd (add_transaction_cost t c)" "tracks t' (add_mset (charge_of c) M)"
    by auto
  have "snd (add_transaction_cost t c) =
      Max (insert 0 (account_cost (cost_by_writable_accounts t') ` set (writable_accounts c)))"
    using add_to_accounts_costliest [OF d, of "cost_sum c" "cost_by_writable_accounts t" 0]
    by (simp add: *(2) add_transaction_cost_def add_transaction_execution_cost_def case_prod_beta Let_def)
  moreover have "limits t' = limits t" using limits_kept(1) [of t c] *(1) by simp
  ultimately show ?thesis using None * tracksD(1) [OF *(5)] by simp
qed (simp add: try_add_cases(1) [OF t l d k])

theorem try_add_decides_witness:
  "tracks cost_tracker_default {#} \<and> real_limits cost_tracker_default \<and> distinct (writable_accounts ex_cost) \<and>
   size ({#} :: charge multiset) + 1 < 2 ^ 64 \<and>
   (\<exists>t' u. try_add cost_tracker_default ex_cost = (t', Inr u) \<and> unat (updated_block_cost u) = 2094)"
  using try_add_decides [OF tracks_fresh(2) ex_limits, of ex_cost] tracks_fresh(2) ex_limits
  by (auto simp: ex_cost_facts ex_admitted)

text \<open>
  C35. Taking a transaction out undoes adding it: after a successful \<^verbatim>\<open>try_add\<close> (limits and counters
  below the largest 64-bit number), \<^verbatim>\<open>remove\<close> brings every field of the tracker back, and every account
  to the cost it had; the map may keep an explicit zero for an account it did not know before.
\<close>

theorem remove_undoes_try_add:
  assumes "try_add t c = (t', Inr u)" "real_limits t" "tracks t M" "size M + 1 < 2 ^ 64"
    "distinct (writable_accounts c)"
    "unat (transaction_signature_count t) + unat (cost_num_transaction_signatures c) < 2 ^ 64"
    "unat (secp256k1_instruction_signature_count t) + unat (cost_num_secp256k1_instruction_signatures c) < 2 ^ 64"
    "unat (ed25519_instruction_signature_count t) + unat (cost_num_ed25519_instruction_signatures c) < 2 ^ 64"
    "unat (secp256r1_instruction_signature_count t) + unat (cost_num_secp256r1_instruction_signatures c) < 2 ^ 64"
  shows "\<exists>m. remove t' c = t\<lparr>cost_by_writable_accounts := m\<rparr> \<and>
    (\<forall>a. account_cost m a = account_cost (cost_by_writable_accounts t) a)"
proof -
  have x: "exceeded t M c = None"
    using try_add_cases(1) [OF assms(3,2,5,4)] assms(1) by (cases "exceeded t M c") auto
  from try_add_cases(2) [OF assms(3,2,5,4) x] assms(1)
  have t': "t' = fst (add_transaction_cost t c)" and tr: "tracks t' (add_mset (charge_of c) M)" by auto
  have undo: "saturating_sub (saturating_add x y) y = x" if "unat x + unat y < 2 ^ 64" for x y :: u64
    using that by (simp add: word_unat_eq_iff unat_saturating_sub unat_saturating_add)
  have rm: "tracks (remove t' c) M" by (rule tracks_remove [OF tr assms(5)])
  have tot: "block_cost (remove t' c) = block_cost t" "vote_cost (remove t' c) = vote_cost t"
    "allocated_size (remove t' c) = allocated_size t" "transaction_count (remove t' c) = transaction_count t"
    and acc: "account_cost (cost_by_writable_accounts (remove t' c)) a = account_cost (cost_by_writable_accounts t) a" for a
    using tracksD [OF rm] tracksD [OF assms(3)] by (simp_all add: word_unat_eq_iff)
  have "remove t' c = t\<lparr>cost_by_writable_accounts := cost_by_writable_accounts (remove t' c)\<rparr>"
    using remove_add_fields(1) [of t c] unfolding limits_def
    by (intro cost_tracker.equality)
      (simp_all add: tot, simp_all add: t' remove_add_fields(2-) assms(6-9) [THEN undo])
  with acc show ?thesis by blast
qed

theorem remove_undoes_try_add_witness:
  "\<exists>u m. try_add cost_tracker_default ex_cost = (ex_tracker, Inr u) \<and> tracks cost_tracker_default {#} \<and>
     remove ex_tracker ex_cost = cost_tracker_default\<lparr>cost_by_writable_accounts := m\<rparr> \<and>
     (\<forall>a. account_cost m a = 0)"
proof -
  obtain u where u: "try_add cost_tracker_default ex_cost = (ex_tracker, Inr u)" using ex_try_add by blast
  have z: "account_cost (cost_by_writable_accounts cost_tracker_default) a = 0" for a
    by (simp add: cost_tracker_default_def account_cost_def)
  have n: "cost_num_transaction_signatures ex_cost = 1" "cost_num_secp256k1_instruction_signatures ex_cost = 0"
    "cost_num_ed25519_instruction_signatures ex_cost = 0" "cost_num_secp256r1_instruction_signatures ex_cost = 0"
    by (simp_all add: ex_cost_eq ex_transaction_def cost_num_transaction_signatures_def
        cost_num_secp256k1_instruction_signatures_def cost_num_ed25519_instruction_signatures_def
        cost_num_secp256r1_instruction_signatures_def)
  have "\<exists>m. remove ex_tracker ex_cost = cost_tracker_default\<lparr>cost_by_writable_accounts := m\<rparr> \<and>
      (\<forall>a. account_cost m a = account_cost (cost_by_writable_accounts cost_tracker_default) a)"
    by (rule remove_undoes_try_add [OF u ex_limits tracks_fresh(2)])
      (simp_all add: ex_cost_facts n, simp_all add: cost_tracker_default_def)
  then show ?thesis using u tracks_fresh(2) z by auto
qed



end
