(* ===== verification/Bytes.thy ===== *)
theory Bytes
  imports Prelude
begin

text \<open>
  Byte strings: the little-endian codecs of the integers (\<^verbatim>\<open>to_le_bytes\<close>, \<^verbatim>\<open>from_le_bytes\<close>) and of
  public keys, fixed-size fields of a buffer, and the check of \<^verbatim>\<open>str::from_utf8\<close>. A public key is the
  number its 32 bytes spell, so that a key and its bytes determine each other.
\<close>

section \<open>Little-endian numbers\<close>

fun nat_of_le :: "u8 list \<Rightarrow> nat" where
  "nat_of_le [] = 0"
| "nat_of_le (b # bs) = unat b + 256 * nat_of_le bs"

fun le_of_nat :: "nat \<Rightarrow> nat \<Rightarrow> u8 list" where
  "le_of_nat 0 n = []"
| "le_of_nat (Suc k) n = of_nat n # le_of_nat k (n div 256)"

definition to_le_bytes :: "'a::len word \<Rightarrow> u8 list" where
  "to_le_bytes w = le_of_nat (LENGTH('a) div 8) (unat w)"

definition from_le_bytes :: "u8 list \<Rightarrow> 'a::len word" where
  "from_le_bytes bs = of_nat (nat_of_le bs)"

lemma length_le_of_nat [simp]: "length (le_of_nat k n) = k"
  by (induction k arbitrary: n) auto

lemma length_to_le_bytes [simp]: "length (to_le_bytes w) = LENGTH('a) div 8" for w :: "'a::len word"
  by (simp add: to_le_bytes_def)

lemma nat_of_le_lt: "nat_of_le bs < 256 ^ length bs"
proof (induction bs)
  case (Cons b bs)
  have "unat b < 256" using unat_less [of b] by simp
  with Cons show ?case by simp
qed simp

lemma nat_of_le_of_nat: "nat_of_le (le_of_nat k n) = n mod 256 ^ k"
proof (induction k arbitrary: n)
  case (Suc k)
  have "unat (of_nat n :: u8) = n mod 256" by (simp add: unat_of_nat)
  then show ?case using Suc mod_mult2_eq [of n 256 "256 ^ k"] by simp
qed simp

lemma le_of_nat_of_le: "le_of_nat (length bs) (nat_of_le bs) = bs"
proof (induction bs)
  case (Cons b bs)
  have b: "unat b < 256" using unat_less [of b] by simp
  have "(of_nat (unat b + 256 * nat_of_le bs) :: u8) = b"
    by (rule word_unat_eq_iff [THEN iffD2]) (use b in \<open>simp add: unat_of_nat del: of_nat_add of_nat_mult\<close>)
  moreover have "(unat b + 256 * nat_of_le bs) div 256 = nat_of_le bs" using b by simp
  ultimately show ?case using Cons by simp
qed simp

lemma from_le_to_le:
  assumes "LENGTH('a) mod 8 = 0"
  shows "from_le_bytes (to_le_bytes w) = (w :: 'a::len word)"
proof -
  have "(256 :: nat) ^ (LENGTH('a) div 8) = 2 ^ (8 * (LENGTH('a) div 8))" by (simp add: power_mult)
  also have "8 * (LENGTH('a) div 8) = LENGTH('a)" using assms by auto
  finally show ?thesis using unat_less [of w]
    by (simp add: from_le_bytes_def to_le_bytes_def nat_of_le_of_nat)
qed

lemma to_le_from_le:
  assumes "8 * length bs = LENGTH('a)"
  shows "to_le_bytes (from_le_bytes bs :: 'a::len word) = bs"
proof -
  have "(256 :: nat) ^ length bs = 2 ^ LENGTH('a)" by (simp add: power_mult flip: assms)
  with nat_of_le_lt [of bs] have "unat (of_nat (nat_of_le bs) :: 'a word) = nat_of_le bs"
    by (simp add: unat_of_nat)
  moreover have "LENGTH('a) div 8 = length bs" using assms by simp
  ultimately show ?thesis by (simp add: from_le_bytes_def to_le_bytes_def le_of_nat_of_le)
qed

lemma from_le_to_le_u64 [simp]: "from_le_bytes (to_le_bytes w) = (w :: u64)"
  and from_le_to_le_u32 [simp]: "from_le_bytes (to_le_bytes w2) = (w2 :: u32)"
  and from_le_to_le_u16 [simp]: "from_le_bytes (to_le_bytes w3) = (w3 :: u16)"
  and from_le_to_le_key [simp]: "from_le_bytes (to_le_bytes key) = (key :: pubkey)"
  by (rule from_le_to_le; simp)+

lemma length_le_u64 [simp]: "length (to_le_bytes (w :: u64)) = 8"
  and length_le_u32 [simp]: "length (to_le_bytes (w2 :: u32)) = 4"
  and length_le_u16 [simp]: "length (to_le_bytes (w3 :: u16)) = 2"
  and length_le_key [simp]: "length (to_le_bytes (key :: pubkey)) = 32"
  by simp_all

section \<open>Fields of a buffer\<close>

text \<open>The bytes from \<open>i\<close> of length \<open>n\<close>, and the buffer with the bytes from \<open>i\<close> on overwritten.\<close>

definition field :: "nat \<Rightarrow> nat \<Rightarrow> u8 list \<Rightarrow> u8 list" where
  "field i n bs = take n (drop i bs)"

definition put :: "nat \<Rightarrow> u8 list \<Rightarrow> u8 list \<Rightarrow> u8 list" where
  "put i xs bs = take i bs @ xs @ drop (i + length xs) bs"

lemma length_field [simp]: "i + n \<le> length bs \<Longrightarrow> length (field i n bs) = n"
  by (simp add: field_def)

lemma length_put [simp]: "i + length xs \<le> length bs \<Longrightarrow> length (put i xs bs) = length bs"
  by (simp add: put_def)

lemma field_put_same: "i + length xs \<le> length bs \<Longrightarrow> n = length xs \<Longrightarrow> field i n (put i xs bs) = xs"
  by (simp add: field_def put_def)

lemma field_put_before: "j + n \<le> i \<Longrightarrow> i + length xs \<le> length bs \<Longrightarrow> field j n (put i xs bs) = field j n bs"
  by (auto simp: field_def put_def drop_take min_def)

lemma field_put_after: "i + length xs \<le> j \<Longrightarrow> i + length xs \<le> length bs \<Longrightarrow> field j n (put i xs bs) = field j n bs"
  by (simp add: field_def put_def)

lemma field_field: "i + n \<le> m \<Longrightarrow> field i n (field j m bs) = field (j + i) n bs"
  by (simp add: field_def drop_take add.commute min_def)

section \<open>UTF-8\<close>

text \<open>The well-formed byte sequences of \<^verbatim>\<open>str::from_utf8\<close>.\<close>

definition between :: "u8 \<Rightarrow> u8 \<Rightarrow> u8 \<Rightarrow> bool" where
  "between lo hi b \<longleftrightarrow> lo \<le> b \<and> b \<le> hi"

fun valid_utf8 :: "u8 list \<Rightarrow> bool" where
  "valid_utf8 [] = True"
| "valid_utf8 (b # bs) =
    (if b < 0x80 then valid_utf8 bs
     else if between 0xC2 0xDF b then
       (case bs of c # r \<Rightarrow> between 0x80 0xBF c \<and> valid_utf8 r | _ \<Rightarrow> False)
     else if between 0xE0 0xEF b then
       (case bs of c # d # r \<Rightarrow>
          between (if b = 0xE0 then 0xA0 else 0x80) (if b = 0xED then 0x9F else 0xBF) c \<and>
          between 0x80 0xBF d \<and> valid_utf8 r
        | _ \<Rightarrow> False)
     else if between 0xF0 0xF4 b then
       (case bs of c # d # e # r \<Rightarrow>
          between (if b = 0xF0 then 0x90 else 0x80) (if b = 0xF4 then 0x8F else 0xBF) c \<and>
          between 0x80 0xBF d \<and> between 0x80 0xBF e \<and> valid_utf8 r
        | _ \<Rightarrow> False)
     else False)"

end
