(* ===== verification/Token_State.thy ===== *)
theory Token_State
  imports Bytes
begin

text \<open>
  Errors and stored data of the SPL Token program (\<^verbatim>\<open>src/spl-token/program/src/error.rs\<close> and
  \<^verbatim>\<open>state.rs\<close>): mints, token accounts and multisignature accounts, the bytes they are stored as, and
  the readers that look at single fields of the bytes. The fixed-size array references of the code
  panic on a buffer that is too short; a panic is \<open>Inl Panic\<close> here, an error is \<open>Inl (Err e)\<close>.
\<close>

section \<open>Errors\<close>

datatype token_error =
    NotRentExempt | InsufficientFunds | InvalidMint | MintMismatch | OwnerMismatch
  | FixedSupply | AlreadyInUse | InvalidNumberOfProvidedSigners | InvalidNumberOfRequiredSigners
  | UninitializedState | NativeNotSupported | NonNativeHasBalance | InvalidInstruction | InvalidState
  | Overflow | AuthorityTypeNotSupported | MintCannotFreeze | AccountFrozen | MintDecimalsMismatch
  | NonNativeNotSupported

datatype program_error =
    Custom u32 | InvalidArgument | InvalidAccountData | IncorrectProgramId
  | MissingRequiredSignature | UninitializedAccount | NotEnoughAccountKeys | OtherProgramError u64

datatype failure = Err program_error | Panic

fun token_error_code :: "token_error \<Rightarrow> u32" where
  "token_error_code NotRentExempt = 0"
| "token_error_code InsufficientFunds = 1"
| "token_error_code InvalidMint = 2"
| "token_error_code MintMismatch = 3"
| "token_error_code OwnerMismatch = 4"
| "token_error_code FixedSupply = 5"
| "token_error_code AlreadyInUse = 6"
| "token_error_code InvalidNumberOfProvidedSigners = 7"
| "token_error_code InvalidNumberOfRequiredSigners = 8"
| "token_error_code UninitializedState = 9"
| "token_error_code NativeNotSupported = 10"
| "token_error_code NonNativeHasBalance = 11"
| "token_error_code InvalidInstruction = 12"
| "token_error_code InvalidState = 13"
| "token_error_code Overflow = 14"
| "token_error_code AuthorityTypeNotSupported = 15"
| "token_error_code MintCannotFreeze = 16"
| "token_error_code AccountFrozen = 17"
| "token_error_code MintDecimalsMismatch = 18"
| "token_error_code NonNativeNotSupported = 19"

definition token_error_from :: "token_error \<Rightarrow> program_error" where
  "token_error_from e = Custom (token_error_code e)"

definition token_error_try_from :: "u32 \<Rightarrow> program_error + token_error" where
  "token_error_try_from n =
    (if n = 0 then Inr NotRentExempt
     else if n = 1 then Inr InsufficientFunds
     else if n = 2 then Inr InvalidMint
     else if n = 3 then Inr MintMismatch
     else if n = 4 then Inr OwnerMismatch
     else if n = 5 then Inr FixedSupply
     else if n = 6 then Inr AlreadyInUse
     else if n = 7 then Inr InvalidNumberOfProvidedSigners
     else if n = 8 then Inr InvalidNumberOfRequiredSigners
     else if n = 9 then Inr UninitializedState
     else if n = 10 then Inr NativeNotSupported
     else if n = 11 then Inr NonNativeHasBalance
     else if n = 12 then Inr InvalidInstruction
     else if n = 13 then Inr InvalidState
     else if n = 14 then Inr Overflow
     else if n = 15 then Inr AuthorityTypeNotSupported
     else if n = 16 then Inr MintCannotFreeze
     else if n = 17 then Inr AccountFrozen
     else if n = 18 then Inr MintDecimalsMismatch
     else if n = 19 then Inr NonNativeNotSupported
     else Inl InvalidArgument)"

abbreviation terr :: "token_error \<Rightarrow> failure" where
  "terr e \<equiv> Err (token_error_from e)"

lemma token_error_try_from_code: "token_error_try_from (token_error_code e) = Inr e"
  by (cases e) (simp_all add: token_error_try_from_def)

lemma token_error_from_inject [simp]: "token_error_from e = token_error_from e' \<longleftrightarrow> e = e'"
  by (metis token_error_from_def program_error.inject(1) token_error_try_from_code sum.inject(2))

lemma token_error_from_distinct [simp]:
  "token_error_from e \<noteq> InvalidArgument" "token_error_from e \<noteq> InvalidAccountData"
  "token_error_from e \<noteq> IncorrectProgramId" "token_error_from e \<noteq> MissingRequiredSignature"
  "token_error_from e \<noteq> UninitializedAccount" "token_error_from e \<noteq> NotEnoughAccountKeys"
  by (simp_all add: token_error_from_def)

section \<open>Optional fields\<close>

definition pack_coption_key :: "pubkey option \<Rightarrow> u8 list \<Rightarrow> u8 list" where
  "pack_coption_key src dst = (case src of
     Some key \<Rightarrow> [1, 0, 0, 0] @ to_le_bytes key
   | None \<Rightarrow> [0, 0, 0, 0] @ drop 4 dst)"

definition unpack_coption_key :: "u8 list \<Rightarrow> failure + pubkey option" where
  "unpack_coption_key src =
     (if take 4 src = [0, 0, 0, 0] then Inr None
      else if take 4 src = [1, 0, 0, 0] then Inr (Some (from_le_bytes (drop 4 src)))
      else Inl (Err InvalidAccountData))"

definition pack_coption_u64 :: "u64 option \<Rightarrow> u8 list \<Rightarrow> u8 list" where
  "pack_coption_u64 src dst = (case src of
     Some amount \<Rightarrow> [1, 0, 0, 0] @ to_le_bytes amount
   | None \<Rightarrow> [0, 0, 0, 0] @ drop 4 dst)"

definition unpack_coption_u64 :: "u8 list \<Rightarrow> failure + u64 option" where
  "unpack_coption_u64 src =
     (if take 4 src = [0, 0, 0, 0] then Inr None
      else if take 4 src = [1, 0, 0, 0] then Inr (Some (from_le_bytes (drop 4 src)))
      else Inl (Err InvalidAccountData))"

lemma pack_coption_length [simp]:
  "length dst = 36 \<Longrightarrow> length (pack_coption_key k dst) = 36"
  "length dst = 12 \<Longrightarrow> length (pack_coption_u64 a dst) = 12"
  by (auto simp: pack_coption_key_def pack_coption_u64_def split: option.split)

lemma unpack_pack_coption [simp]:
  "unpack_coption_key (pack_coption_key k dst) = Inr k"
  "unpack_coption_u64 (pack_coption_u64 a dst) = Inr a"
  by (auto simp: pack_coption_key_def pack_coption_u64_def unpack_coption_key_def
      unpack_coption_u64_def split: option.split)

text \<open>A flag byte, 0 or 1.\<close>

definition unpack_bool :: "u8 \<Rightarrow> failure + bool" where
  "unpack_bool b = (if b = 0 then Inr False else if b = 1 then Inr True else Inl (Err InvalidAccountData))"

definition byte_of_bool :: "bool \<Rightarrow> u8" where
  "byte_of_bool b = (if b then 1 else 0)"

lemma unpack_bool_of_byte [simp]: "unpack_bool (byte_of_bool b) = Inr b"
  by (simp add: unpack_bool_def byte_of_bool_def)

section \<open>Mints\<close>

record mint =
  mint_authority :: "pubkey option"
  mint_supply :: u64
  decimals :: u8
  mint_is_initialized :: bool
  freeze_authority :: "pubkey option"

definition MINT_LEN :: nat where "MINT_LEN = 82"

definition mint_unpack_from_slice :: "u8 list \<Rightarrow> failure + mint" where
  "mint_unpack_from_slice src =
     bindr (require (82 \<le> length src) Panic) (\<lambda>_.
     bindr (unpack_coption_key (field 0 36 src)) (\<lambda>mint_authority.
     bindr (unpack_bool (src ! 45)) (\<lambda>is_initialized.
     bindr (unpack_coption_key (field 46 36 src)) (\<lambda>freeze_authority.
     Inr \<lparr>mint_authority = mint_authority, mint_supply = from_le_bytes (field 36 8 src),
       decimals = src ! 44, mint_is_initialized = is_initialized,
       freeze_authority = freeze_authority\<rparr>))))"

definition mint_pack_into_slice :: "mint \<Rightarrow> u8 list \<Rightarrow> failure + u8 list" where
  "mint_pack_into_slice m dst =
     bindr (require (82 \<le> length dst) Panic) (\<lambda>_.
     let dst = put 0 (pack_coption_key (mint_authority m) (field 0 36 dst)) dst;
         dst = put 36 (to_le_bytes (mint_supply m)) dst;
         dst = put 44 [decimals m] dst;
         dst = put 45 [byte_of_bool (mint_is_initialized m)] dst
     in Inr (put 46 (pack_coption_key (freeze_authority m) (field 46 36 dst)) dst))"

section \<open>Token accounts\<close>

datatype account_state = Uninitialized | Initialized | Frozen

definition account_state_try_from_primitive :: "u8 \<Rightarrow> account_state option" where
  "account_state_try_from_primitive b =
     (if b = 0 then Some Uninitialized else if b = 1 then Some Initialized
      else if b = 2 then Some Frozen else None)"

definition byte_of_account_state :: "account_state \<Rightarrow> u8" where
  "byte_of_account_state s = (case s of Uninitialized \<Rightarrow> 0 | Initialized \<Rightarrow> 1 | Frozen \<Rightarrow> 2)"

lemma account_state_round_trip [simp]:
  "account_state_try_from_primitive (byte_of_account_state s) = Some s"
  by (cases s) (simp_all add: account_state_try_from_primitive_def byte_of_account_state_def)

record token_account =
  acc_mint :: pubkey
  acc_owner :: pubkey
  amount :: u64
  delegate :: "pubkey option"
  state :: account_state
  native_reserve :: "u64 option"
  delegated_amount :: u64
  close_authority :: "pubkey option"

definition ACCOUNT_LEN :: nat where "ACCOUNT_LEN = 165"

definition is_frozen :: "token_account \<Rightarrow> bool" where
  "is_frozen a \<longleftrightarrow> state a = Frozen"

definition is_native :: "token_account \<Rightarrow> bool" where
  "is_native a \<longleftrightarrow> native_reserve a \<noteq> None"

definition account_is_initialized :: "token_account \<Rightarrow> bool" where
  "account_is_initialized a \<longleftrightarrow> state a \<noteq> Uninitialized"

definition account_unpack_from_slice :: "u8 list \<Rightarrow> failure + token_account" where
  "account_unpack_from_slice src =
     bindr (require (165 \<le> length src) Panic) (\<lambda>_.
     bindr (unpack_coption_key (field 72 36 src)) (\<lambda>delegate.
     bindr (ok_or (account_state_try_from_primitive (src ! 108)) (Err InvalidAccountData)) (\<lambda>state.
     bindr (unpack_coption_u64 (field 109 12 src)) (\<lambda>native_reserve.
     bindr (unpack_coption_key (field 129 36 src)) (\<lambda>close_authority.
     Inr \<lparr>acc_mint = from_le_bytes (field 0 32 src), acc_owner = from_le_bytes (field 32 32 src),
       amount = from_le_bytes (field 64 8 src), delegate = delegate, state = state,
       native_reserve = native_reserve, delegated_amount = from_le_bytes (field 121 8 src),
       close_authority = close_authority\<rparr>)))))"

definition account_pack_into_slice :: "token_account \<Rightarrow> u8 list \<Rightarrow> failure + u8 list" where
  "account_pack_into_slice a dst =
     bindr (require (165 \<le> length dst) Panic) (\<lambda>_.
     let dst = put 0 (to_le_bytes (acc_mint a)) dst;
         dst = put 32 (to_le_bytes (acc_owner a)) dst;
         dst = put 64 (to_le_bytes (amount a)) dst;
         dst = put 72 (pack_coption_key (delegate a) (field 72 36 dst)) dst;
         dst = put 108 [byte_of_account_state (state a)] dst;
         dst = put 109 (pack_coption_u64 (native_reserve a) (field 109 12 dst)) dst;
         dst = put 121 (to_le_bytes (delegated_amount a)) dst
     in Inr (put 129 (pack_coption_key (close_authority a) (field 129 36 dst)) dst))"

section \<open>Multisignature accounts\<close>

definition MAX_SIGNERS :: nat where "MAX_SIGNERS = 11"
definition MIN_SIGNERS :: nat where "MIN_SIGNERS = 1"
definition MULTISIG_LEN :: nat where "MULTISIG_LEN = 355"

text \<open>\<open>signers\<close> is an array: its length is \<^const>\<open>MAX_SIGNERS\<close>.\<close>

record multisig =
  ms_m :: u8
  ms_n :: u8
  ms_is_initialized :: bool
  signers :: "pubkey list"

definition multisig_unpack_from_slice :: "u8 list \<Rightarrow> failure + multisig" where
  "multisig_unpack_from_slice src =
     bindr (require (355 \<le> length src) Panic) (\<lambda>_.
     bindr (unpack_bool (src ! 2)) (\<lambda>is_initialized.
     Inr \<lparr>ms_m = src ! 0, ms_n = src ! 1, ms_is_initialized = is_initialized,
       signers = map (\<lambda>i. from_le_bytes (field (3 + 32 * i) 32 src)) [0..<MAX_SIGNERS]\<rparr>))"

definition multisig_pack_into_slice :: "multisig \<Rightarrow> u8 list \<Rightarrow> failure + u8 list" where
  "multisig_pack_into_slice ms dst =
     bindr (require (355 \<le> length dst) Panic) (\<lambda>_.
     let dst = put 0 [ms_m ms] dst;
         dst = put 1 [ms_n ms] dst;
         dst = put 2 [byte_of_bool (ms_is_initialized ms)] dst
     in Inr (fold (\<lambda>(i, key) dst. put (3 + 32 * i) (to_le_bytes key) dst) (enumerate 0 (signers ms)) dst))"

section \<open>Reading single fields\<close>

definition SPL_TOKEN_ACCOUNT_MINT_OFFSET :: nat where "SPL_TOKEN_ACCOUNT_MINT_OFFSET = 0"
definition SPL_TOKEN_ACCOUNT_OWNER_OFFSET :: nat where "SPL_TOKEN_ACCOUNT_OWNER_OFFSET = 32"
definition ACCOUNT_INITIALIZED_INDEX :: nat where "ACCOUNT_INITIALIZED_INDEX = 108"

definition is_initialized_account :: "u8 list \<Rightarrow> bool" where
  "is_initialized_account data \<longleftrightarrow>
     (case idx data ACCOUNT_INITIALIZED_INDEX of None \<Rightarrow> 0 | Some b \<Rightarrow> b) \<noteq> 0"

definition valid_account_data :: "u8 list \<Rightarrow> bool" where
  "valid_account_data data \<longleftrightarrow> length data = ACCOUNT_LEN \<and> is_initialized_account data"

text \<open>The outer option is the panic of the slice.\<close>

definition unpack_pubkey_unchecked :: "u8 list \<Rightarrow> nat \<Rightarrow> pubkey option" where
  "unpack_pubkey_unchecked data offset =
     (if offset + 32 \<le> length data then Some (from_le_bytes (field offset 32 data)) else None)"

definition unpack_account_owner_unchecked :: "u8 list \<Rightarrow> pubkey option" where
  "unpack_account_owner_unchecked data = unpack_pubkey_unchecked data SPL_TOKEN_ACCOUNT_OWNER_OFFSET"

definition unpack_account_mint_unchecked :: "u8 list \<Rightarrow> pubkey option" where
  "unpack_account_mint_unchecked data = unpack_pubkey_unchecked data SPL_TOKEN_ACCOUNT_MINT_OFFSET"

definition unpack_account_owner :: "u8 list \<Rightarrow> pubkey option option" where
  "unpack_account_owner data =
     (if valid_account_data data then map_option Some (unpack_account_owner_unchecked data) else Some None)"

definition unpack_account_mint :: "u8 list \<Rightarrow> pubkey option option" where
  "unpack_account_mint data =
     (if valid_account_data data then map_option Some (unpack_account_mint_unchecked data) else Some None)"

section \<open>What is packed unpacks again\<close>

lemma nth_put:
  "i + length xs \<le> length bs \<Longrightarrow> Suc j \<le> length bs \<Longrightarrow> put i xs bs ! j =
    (if i \<le> j \<and> j < i + length xs then xs ! (j - i) else bs ! j)"
  by (auto simp: put_def nth_append min_def)

lemma mint_unpack_pack:
  assumes "82 \<le> length dst"
  shows "\<exists>dst'. mint_pack_into_slice m dst = Inr dst' \<and> length dst' = length dst \<and>
    mint_unpack_from_slice dst' = Inr m"
  using assms by (simp add: mint_pack_into_slice_def mint_unpack_from_slice_def Let_def
      field_put_same field_put_before field_put_after nth_put)

lemma account_unpack_pack:
  assumes "165 \<le> length dst"
  shows "\<exists>dst'. account_pack_into_slice a dst = Inr dst' \<and> length dst' = length dst \<and>
    account_unpack_from_slice dst' = Inr a"
  using assms by (simp add: account_pack_into_slice_def account_unpack_from_slice_def Let_def
      field_put_same field_put_before field_put_after nth_put)

abbreviation put_keys :: "nat \<Rightarrow> pubkey list \<Rightarrow> u8 list \<Rightarrow> u8 list" where
  "put_keys k keys dst \<equiv> fold (\<lambda>(i, key) dst. put (3 + 32 * i) (to_le_bytes key) dst) (enumerate k keys) dst"

lemma put_keys_spec:
  "3 + 32 * (k + length keys) \<le> length dst \<Longrightarrow>
    length (put_keys k keys dst) = length dst \<and>
    (\<forall>j < 3 + 32 * k. put_keys k keys dst ! j = dst ! j) \<and>
    (\<forall>i < k. field (3 + 32 * i) 32 (put_keys k keys dst) = field (3 + 32 * i) 32 dst) \<and>
    (\<forall>i < length keys. field (3 + 32 * (k + i)) 32 (put_keys k keys dst) = to_le_bytes (keys ! i))"
proof (induction keys arbitrary: k dst)
  case (Cons key keys)
  let ?d = "put (3 + 32 * k) (to_le_bytes key) dst"
  have len: "3 + 32 * (Suc k + length keys) \<le> length ?d" using Cons.prems by simp
  note IH = Cons.IH [OF len]
  have "field (3 + 32 * (k + i)) 32 (put_keys k (key # keys) dst) = to_le_bytes ((key # keys) ! i)"
    if "i < length (key # keys)" for i
  proof (cases i)
    case 0
    have "field (3 + 32 * k) 32 (put_keys (Suc k) keys ?d) = field (3 + 32 * k) 32 ?d"
      using IH by simp
    then show ?thesis using 0 Cons.prems by (simp add: field_put_same)
  next
    case (Suc i')
    then show ?thesis using IH that by simp
  qed
  moreover have "put_keys k (key # keys) dst ! j = dst ! j" if "j < 3 + 32 * k" for j
    using IH Cons.prems that by (simp add: nth_put)
  moreover have "field (3 + 32 * i) 32 (put_keys k (key # keys) dst) = field (3 + 32 * i) 32 dst"
    if "i < k" for i
    using IH Cons.prems that by (simp add: field_put_before)
  ultimately show ?case using IH Cons.prems by simp
qed simp

lemma multisig_unpack_pack:
  assumes "355 \<le> length dst" "length (signers ms) = MAX_SIGNERS"
  shows "\<exists>dst'. multisig_pack_into_slice ms dst = Inr dst' \<and> length dst' = length dst \<and>
    multisig_unpack_from_slice dst' = Inr ms"
proof -
  let ?d = "put 2 [byte_of_bool (ms_is_initialized ms)] (put 1 [ms_n ms] (put 0 [ms_m ms] dst))"
  have n: "length (signers ms) = 11" using assms(2) by (simp add: MAX_SIGNERS_def)
  have "3 + 32 * (0 + length (signers ms)) \<le> length ?d" using assms(1) n by simp
  note k = put_keys_spec [OF this]
  have "map (\<lambda>i. from_le_bytes (field (3 + 32 * i) 32 (put_keys 0 (signers ms) ?d))) [0..<11] = signers ms"
    using k n by (intro nth_equalityI) simp_all
  moreover have "put_keys 0 (signers ms) ?d ! j = ?d ! j" if "j < 3" for j using k that by simp
  moreover have "?d ! 0 = ms_m ms" "?d ! Suc 0 = ms_n ms" "?d ! 2 = byte_of_bool (ms_is_initialized ms)"
    using assms(1) by (simp_all add: nth_put)
  ultimately show ?thesis using k assms(1)
    by (simp add: multisig_pack_into_slice_def multisig_unpack_from_slice_def Let_def MAX_SIGNERS_def)
qed

section \<open>Properties\<close>

text \<open>
  C38. Mints, token accounts and multisignature accounts survive storage: packing one into a buffer of
  at least its size never panics, keeps the size of the buffer and unpacks to the very same record,
  whatever the buffer held before.
\<close>

theorem token_state_round_trip:
  assumes "MINT_LEN \<le> length d1" "ACCOUNT_LEN \<le> length d2" "MULTISIG_LEN \<le> length d3"
    "length (signers ms) = MAX_SIGNERS"
  shows "\<exists>d1' d2' d3'. mint_pack_into_slice m d1 = Inr d1' \<and> account_pack_into_slice a d2 = Inr d2' \<and>
    multisig_pack_into_slice ms d3 = Inr d3' \<and> length d1' = length d1 \<and> length d2' = length d2 \<and>
    length d3' = length d3 \<and> mint_unpack_from_slice d1' = Inr m \<and> account_unpack_from_slice d2' = Inr a \<and>
    multisig_unpack_from_slice d3' = Inr ms"
  using mint_unpack_pack [of d1 m] account_unpack_pack [of d2 a] multisig_unpack_pack [of d3 ms] assms
  by (auto simp: MINT_LEN_def ACCOUNT_LEN_def MULTISIG_LEN_def)

definition ex_mint :: mint where
  "ex_mint = \<lparr>mint_authority = Some 7, mint_supply = 100, decimals = 2, mint_is_initialized = True,
     freeze_authority = None\<rparr>"

definition ex_account :: token_account where
  "ex_account = \<lparr>acc_mint = 1, acc_owner = 8, amount = 60, delegate = None, state = Initialized,
     native_reserve = None, delegated_amount = 0, close_authority = Some 9\<rparr>"

definition ex_multisig :: multisig where
  "ex_multisig = \<lparr>ms_m = 2, ms_n = 3, ms_is_initialized = True, signers = [4, 5, 6] @ replicate 8 0\<rparr>"

theorem token_state_round_trip_witness:
  "\<exists>d1' d2' d3'. mint_pack_into_slice ex_mint (replicate 82 0) = Inr d1' \<and>
    account_pack_into_slice ex_account (replicate 165 0) = Inr d2' \<and>
    multisig_pack_into_slice ex_multisig (replicate 355 0) = Inr d3' \<and>
    length (signers ex_multisig) = MAX_SIGNERS \<and>
    mint_unpack_from_slice d1' = Inr ex_mint \<and> account_unpack_from_slice d2' = Inr ex_account \<and>
    multisig_unpack_from_slice d3' = Inr ex_multisig"
  using token_state_round_trip [of "replicate 82 0" "replicate 165 0" "replicate 355 0" ex_multisig
      ex_mint ex_account]
  by (auto simp: MINT_LEN_def ACCOUNT_LEN_def MULTISIG_LEN_def MAX_SIGNERS_def ex_multisig_def)

text \<open>
  The readers of single fields agree with unpacking the whole account: on the bytes of a token
  account they return its owner and its mint when the account is initialized and nothing otherwise,
  and on no bytes whatsoever do they panic.
\<close>

theorem field_readers_agree:
  "unpack_account_owner data \<noteq> None \<and> unpack_account_mint data \<noteq> None \<and>
   (length data = ACCOUNT_LEN \<and> account_unpack_from_slice data = Inr a \<longrightarrow>
      unpack_account_owner data = Some (if account_is_initialized a then Some (acc_owner a) else None) \<and>
      unpack_account_mint data = Some (if account_is_initialized a then Some (acc_mint a) else None))"
  by (auto simp: unpack_account_owner_def unpack_account_mint_def unpack_account_owner_unchecked_def
      unpack_account_mint_unchecked_def unpack_pubkey_unchecked_def valid_account_data_def
      ACCOUNT_LEN_def SPL_TOKEN_ACCOUNT_OWNER_OFFSET_def SPL_TOKEN_ACCOUNT_MINT_OFFSET_def
      account_unpack_from_slice_def result_simps is_initialized_account_def ACCOUNT_INITIALIZED_INDEX_def
      idx_def account_is_initialized_def account_state_try_from_primitive_def split: if_splits)

theorem field_readers_agree_witness:
  "\<exists>data. length data = ACCOUNT_LEN \<and> account_unpack_from_slice data = Inr ex_account \<and>
    unpack_account_owner data = Some (Some 8)"
proof -
  obtain d where d: "length d = 165" "account_unpack_from_slice d = Inr ex_account"
    using account_unpack_pack [of "replicate 165 0" ex_account] by auto
  with field_readers_agree [of d ex_account] show ?thesis
    by (intro exI [of _ d]) (simp add: ACCOUNT_LEN_def account_is_initialized_def ex_account_def)
qed

end
