(* ===== verification/Token_Instruction.thy ===== *)
theory Token_Instruction
  imports Token_State
begin

text \<open>
  Instructions of the SPL Token program (\<^verbatim>\<open>src/spl-token/program/src/instruction.rs\<close>): the
  instructions, their bytes, and the functions clients build them with. A string is the list of its
  UTF-8 bytes. The ids of the token program and of the rent sysvar are parameters.
\<close>

section \<open>Instructions\<close>

datatype authority_type = MintTokens | FreezeAccountAuthority | AccountOwner | CloseAccountAuthority

datatype token_instruction =
    InitializeMint u8 pubkey "pubkey option"
  | InitializeAccount
  | InitializeMultisig u8
  | Transfer u64
  | Approve u64
  | Revoke
  | SetAuthority authority_type "pubkey option"
  | MintTo u64
  | Burn u64
  | CloseAccount
  | FreezeAccount
  | ThawAccount
  | TransferChecked u64 u8
  | ApproveChecked u64 u8
  | MintToChecked u64 u8
  | BurnChecked u64 u8
  | InitializeAccount2 pubkey
  | SyncNative
  | InitializeAccount3 pubkey
  | InitializeMultisig2 u8
  | InitializeMint2 u8 pubkey "pubkey option"
  | GetAccountDataSize
  | InitializeImmutableOwner
  | AmountToUiAmount u64
  | UiAmountToAmount "u8 list"

abbreviation invalid_instruction :: "failure + 'a" where
  "invalid_instruction \<equiv> Inl (terr InvalidInstruction)"

fun authority_type_into :: "authority_type \<Rightarrow> u8" where
  "authority_type_into MintTokens = 0"
| "authority_type_into FreezeAccountAuthority = 1"
| "authority_type_into AccountOwner = 2"
| "authority_type_into CloseAccountAuthority = 3"

definition authority_type_from :: "u8 \<Rightarrow> failure + authority_type" where
  "authority_type_from index =
    (if index = 0 then Inr MintTokens
     else if index = 1 then Inr FreezeAccountAuthority
     else if index = 2 then Inr AccountOwner
     else if index = 3 then Inr CloseAccountAuthority
     else invalid_instruction)"

section \<open>Reading the parts of an instruction\<close>

definition unpack_pubkey :: "u8 list \<Rightarrow> failure + pubkey \<times> u8 list" where
  "unpack_pubkey input =
    (if 32 \<le> length input then Inr (from_le_bytes (take 32 input), drop 32 input) else invalid_instruction)"

definition unpack_pubkey_option :: "u8 list \<Rightarrow> failure + pubkey option \<times> u8 list" where
  "unpack_pubkey_option input = (case input of
     [] \<Rightarrow> invalid_instruction
   | b # rest \<Rightarrow>
       if b = 0 then Inr (None, rest)
       else if b = 1 \<and> 32 \<le> length rest then Inr (Some (from_le_bytes (take 32 rest)), drop 32 rest)
       else invalid_instruction)"

definition pack_pubkey_option :: "pubkey option \<Rightarrow> u8 list" where
  "pack_pubkey_option k = (case k of Some key \<Rightarrow> 1 # to_le_bytes key | None \<Rightarrow> [0])"

definition unpack_u64 :: "u8 list \<Rightarrow> failure + u64 \<times> u8 list" where
  "unpack_u64 input =
    (if 8 \<le> length input then Inr (from_le_bytes (take 8 input), drop 8 input) else invalid_instruction)"

definition split_first :: "u8 list \<Rightarrow> failure + u8 \<times> u8 list" where
  "split_first input = (case input of [] \<Rightarrow> invalid_instruction | b # rest \<Rightarrow> Inr (b, rest))"

definition unpack_amount_decimals :: "u8 list \<Rightarrow> failure + u64 \<times> u8 \<times> u8 list" where
  "unpack_amount_decimals input =
     bindr (unpack_u64 input) (\<lambda>(amount, rest).
     bindr (split_first rest) (\<lambda>(decimals, rest).
     Inr (amount, decimals, rest)))"

definition unpack_mint_fields :: "u8 list \<Rightarrow> failure + u8 \<times> pubkey \<times> pubkey option" where
  "unpack_mint_fields rest =
     bindr (split_first rest) (\<lambda>(decimals, rest).
     bindr (unpack_pubkey rest) (\<lambda>(mint_authority, rest).
     bindr (unpack_pubkey_option rest) (\<lambda>(freeze_authority, _).
     Inr (decimals, mint_authority, freeze_authority))))"

definition unpack :: "u8 list \<Rightarrow> failure + token_instruction" where
  "unpack input = bindr (split_first input) (\<lambda>(tag, rest).
     if tag = 0 then bindr (unpack_mint_fields rest) (\<lambda>(d, m, f). Inr (InitializeMint d m f))
     else if tag = 1 then Inr InitializeAccount
     else if tag = 2 then bindr (split_first rest) (\<lambda>(m, _). Inr (InitializeMultisig m))
     else if tag \<in> {3, 4, 7, 8} then
       bindr (unpack_u64 rest) (\<lambda>(amount, _).
       if tag = 3 then Inr (Transfer amount)
       else if tag = 4 then Inr (Approve amount)
       else if tag = 7 then Inr (MintTo amount)
       else if tag = 8 then Inr (Burn amount)
       else Inl Panic)
     else if tag = 5 then Inr Revoke
     else if tag = 6 then
       bindr (split_first rest) (\<lambda>(t, rest).
       bindr (authority_type_from t) (\<lambda>authority_type.
       bindr (unpack_pubkey_option rest) (\<lambda>(new_authority, _).
       Inr (SetAuthority authority_type new_authority))))
     else if tag = 9 then Inr CloseAccount
     else if tag = 10 then Inr FreezeAccount
     else if tag = 11 then Inr ThawAccount
     else if tag = 12 then bindr (unpack_amount_decimals rest) (\<lambda>(a, d, _). Inr (TransferChecked a d))
     else if tag = 13 then bindr (unpack_amount_decimals rest) (\<lambda>(a, d, _). Inr (ApproveChecked a d))
     else if tag = 14 then bindr (unpack_amount_decimals rest) (\<lambda>(a, d, _). Inr (MintToChecked a d))
     else if tag = 15 then bindr (unpack_amount_decimals rest) (\<lambda>(a, d, _). Inr (BurnChecked a d))
     else if tag = 16 then bindr (unpack_pubkey rest) (\<lambda>(owner, _). Inr (InitializeAccount2 owner))
     else if tag = 17 then Inr SyncNative
     else if tag = 18 then bindr (unpack_pubkey rest) (\<lambda>(owner, _). Inr (InitializeAccount3 owner))
     else if tag = 19 then bindr (split_first rest) (\<lambda>(m, _). Inr (InitializeMultisig2 m))
     else if tag = 20 then bindr (unpack_mint_fields rest) (\<lambda>(d, m, f). Inr (InitializeMint2 d m f))
     else if tag = 21 then Inr GetAccountDataSize
     else if tag = 22 then Inr InitializeImmutableOwner
     else if tag = 23 then bindr (unpack_u64 rest) (\<lambda>(amount, _). Inr (AmountToUiAmount amount))
     else if tag = 24 then (if valid_utf8 rest then Inr (UiAmountToAmount rest) else invalid_instruction)
     else invalid_instruction)"

fun pack :: "token_instruction \<Rightarrow> u8 list" where
  "pack (InitializeMint d m f) = [0, d] @ to_le_bytes m @ pack_pubkey_option f"
| "pack InitializeAccount = [1]"
| "pack (InitializeMultisig m) = [2, m]"
| "pack (Transfer n) = 3 # to_le_bytes n"
| "pack (Approve n) = 4 # to_le_bytes n"
| "pack (MintTo n) = 7 # to_le_bytes n"
| "pack (Burn n) = 8 # to_le_bytes n"
| "pack Revoke = [5]"
| "pack (SetAuthority t k) = [6, authority_type_into t] @ pack_pubkey_option k"
| "pack CloseAccount = [9]"
| "pack FreezeAccount = [10]"
| "pack ThawAccount = [11]"
| "pack (TransferChecked n d) = 12 # to_le_bytes n @ [d]"
| "pack (ApproveChecked n d) = 13 # to_le_bytes n @ [d]"
| "pack (MintToChecked n d) = 14 # to_le_bytes n @ [d]"
| "pack (BurnChecked n d) = 15 # to_le_bytes n @ [d]"
| "pack (InitializeAccount2 owner) = 16 # to_le_bytes owner"
| "pack SyncNative = [17]"
| "pack (InitializeAccount3 owner) = 18 # to_le_bytes owner"
| "pack (InitializeMultisig2 m) = [19, m]"
| "pack (InitializeMint2 d m f) = [20, d] @ to_le_bytes m @ pack_pubkey_option f"
| "pack GetAccountDataSize = [21]"
| "pack InitializeImmutableOwner = [22]"
| "pack (AmountToUiAmount n) = 23 # to_le_bytes n"
| "pack (UiAmountToAmount s) = 24 # s"

section \<open>Building instructions\<close>

record account_meta =
  meta_pubkey :: pubkey
  meta_is_signer :: bool
  meta_is_writable :: bool

record instruction =
  ins_program_id :: pubkey
  ins_accounts :: "account_meta list"
  ins_data :: "u8 list"

record token_ids =
  token_id :: pubkey
  rent_id :: pubkey

abbreviation meta :: "pubkey \<Rightarrow> bool \<Rightarrow> account_meta" where
  "meta key signer \<equiv> \<lparr>meta_pubkey = key, meta_is_signer = signer, meta_is_writable = True\<rparr>"

abbreviation meta_readonly :: "pubkey \<Rightarrow> bool \<Rightarrow> account_meta" where
  "meta_readonly key signer \<equiv> \<lparr>meta_pubkey = key, meta_is_signer = signer, meta_is_writable = False\<rparr>"

text \<open>The authority, which signs itself unless signers are given, followed by the signers.\<close>

definition authority_metas :: "pubkey \<Rightarrow> pubkey list \<Rightarrow> account_meta list" where
  "authority_metas authority signer_pubkeys =
     meta_readonly authority (signer_pubkeys = []) # map (\<lambda>k. meta_readonly k True) signer_pubkeys"

definition check_program_account :: "token_ids \<Rightarrow> pubkey \<Rightarrow> failure + unit" where
  "check_program_account ids program_id =
     (if program_id \<noteq> token_id ids then Inl (Err IncorrectProgramId) else Inr ())"

definition is_valid_signer_index :: "nat \<Rightarrow> bool" where
  "is_valid_signer_index index \<longleftrightarrow> MIN_SIGNERS \<le> index \<and> index \<le> MAX_SIGNERS"

definition build :: "token_ids \<Rightarrow> pubkey \<Rightarrow> account_meta list \<Rightarrow> token_instruction \<Rightarrow> failure + instruction" where
  "build ids program_id accounts i = bindr (check_program_account ids program_id) (\<lambda>_.
     Inr \<lparr>ins_program_id = program_id, ins_accounts = accounts, ins_data = pack i\<rparr>)"

definition initialize_mint :: "token_ids \<Rightarrow> pubkey \<Rightarrow> pubkey \<Rightarrow> pubkey \<Rightarrow> pubkey option \<Rightarrow> u8 \<Rightarrow> failure + instruction" where
  "initialize_mint ids program_id mint_key mint_authority_key freeze_authority_key d =
     build ids program_id ([meta mint_key False, meta_readonly (rent_id ids) False]) (InitializeMint d mint_authority_key freeze_authority_key)"

definition initialize_mint2 :: "token_ids \<Rightarrow> pubkey \<Rightarrow> pubkey \<Rightarrow> pubkey \<Rightarrow> pubkey option \<Rightarrow> u8 \<Rightarrow> failure + instruction" where
  "initialize_mint2 ids program_id mint_key mint_authority_key freeze_authority_key d =
     build ids program_id ([meta mint_key False]) (InitializeMint2 d mint_authority_key freeze_authority_key)"

definition initialize_account :: "token_ids \<Rightarrow> pubkey \<Rightarrow> pubkey \<Rightarrow> pubkey \<Rightarrow> pubkey \<Rightarrow> failure + instruction" where
  "initialize_account ids program_id account mint_key owner =
     build ids program_id ([meta account False, meta_readonly mint_key False, meta_readonly owner False,
        meta_readonly (rent_id ids) False]) (InitializeAccount)"

definition initialize_account2 :: "token_ids \<Rightarrow> pubkey \<Rightarrow> pubkey \<Rightarrow> pubkey \<Rightarrow> pubkey \<Rightarrow> failure + instruction" where
  "initialize_account2 ids program_id account mint_key owner =
     build ids program_id ([meta account False, meta_readonly mint_key False, meta_readonly (rent_id ids) False]) (InitializeAccount2 owner)"

definition initialize_account3 :: "token_ids \<Rightarrow> pubkey \<Rightarrow> pubkey \<Rightarrow> pubkey \<Rightarrow> pubkey \<Rightarrow> failure + instruction" where
  "initialize_account3 ids program_id account mint_key owner =
     build ids program_id ([meta account False, meta_readonly mint_key False]) (InitializeAccount3 owner)"

definition initialize_multisig :: "token_ids \<Rightarrow> pubkey \<Rightarrow> pubkey \<Rightarrow> pubkey list \<Rightarrow> u8 \<Rightarrow> failure + instruction" where
  "initialize_multisig ids program_id account signer_pubkeys m =
     bindr (check_program_account ids program_id) (\<lambda>_.
     bindr (require (is_valid_signer_index (unat m) \<and> is_valid_signer_index (length signer_pubkeys) \<and>
       unat m \<le> length signer_pubkeys) (Err MissingRequiredSignature)) (\<lambda>_.
     build ids program_id (meta account False # meta_readonly (rent_id ids) False # map (\<lambda>k. meta_readonly k False) signer_pubkeys)
       (InitializeMultisig m)))"

definition initialize_multisig2 :: "token_ids \<Rightarrow> pubkey \<Rightarrow> pubkey \<Rightarrow> pubkey list \<Rightarrow> u8 \<Rightarrow> failure + instruction" where
  "initialize_multisig2 ids program_id account signer_pubkeys m =
     bindr (check_program_account ids program_id) (\<lambda>_.
     bindr (require (is_valid_signer_index (unat m) \<and> is_valid_signer_index (length signer_pubkeys) \<and>
       unat m \<le> length signer_pubkeys) (Err MissingRequiredSignature)) (\<lambda>_.
     build ids program_id (meta account False # map (\<lambda>k. meta_readonly k False) signer_pubkeys)
       (InitializeMultisig2 m)))"

definition transfer :: "token_ids \<Rightarrow> pubkey \<Rightarrow> pubkey \<Rightarrow> pubkey \<Rightarrow> pubkey \<Rightarrow> pubkey list \<Rightarrow> u64 \<Rightarrow> failure + instruction" where
  "transfer ids program_id source destination authority signer_pubkeys amt =
     build ids program_id ([meta source False, meta destination False] @ authority_metas authority signer_pubkeys) (Transfer amt)"

definition approve :: "token_ids \<Rightarrow> pubkey \<Rightarrow> pubkey \<Rightarrow> pubkey \<Rightarrow> pubkey \<Rightarrow> pubkey list \<Rightarrow> u64 \<Rightarrow> failure + instruction" where
  "approve ids program_id source delegate_key owner signer_pubkeys amt =
     build ids program_id ([meta source False, meta_readonly delegate_key False] @ authority_metas owner signer_pubkeys) (Approve amt)"

definition revoke :: "token_ids \<Rightarrow> pubkey \<Rightarrow> pubkey \<Rightarrow> pubkey \<Rightarrow> pubkey list \<Rightarrow> failure + instruction" where
  "revoke ids program_id source owner signer_pubkeys =
     build ids program_id (meta source False # authority_metas owner signer_pubkeys) (Revoke)"

definition set_authority :: "token_ids \<Rightarrow> pubkey \<Rightarrow> pubkey \<Rightarrow> pubkey option \<Rightarrow> authority_type \<Rightarrow> pubkey \<Rightarrow> pubkey list \<Rightarrow> failure + instruction" where
  "set_authority ids program_id owned new_authority_key authority owner signer_pubkeys =
     build ids program_id (meta owned False # authority_metas owner signer_pubkeys) (SetAuthority authority new_authority_key)"

definition mint_to :: "token_ids \<Rightarrow> pubkey \<Rightarrow> pubkey \<Rightarrow> pubkey \<Rightarrow> pubkey \<Rightarrow> pubkey list \<Rightarrow> u64 \<Rightarrow> failure + instruction" where
  "mint_to ids program_id mint_key account owner signer_pubkeys amt =
     build ids program_id ([meta mint_key False, meta account False] @ authority_metas owner signer_pubkeys) (MintTo amt)"

definition burn :: "token_ids \<Rightarrow> pubkey \<Rightarrow> pubkey \<Rightarrow> pubkey \<Rightarrow> pubkey \<Rightarrow> pubkey list \<Rightarrow> u64 \<Rightarrow> failure + instruction" where
  "burn ids program_id account mint_key authority signer_pubkeys amt =
     build ids program_id ([meta account False, meta mint_key False] @ authority_metas authority signer_pubkeys) (Burn amt)"

definition close_account :: "token_ids \<Rightarrow> pubkey \<Rightarrow> pubkey \<Rightarrow> pubkey \<Rightarrow> pubkey \<Rightarrow> pubkey list \<Rightarrow> failure + instruction" where
  "close_account ids program_id account destination owner signer_pubkeys =
     build ids program_id ([meta account False, meta destination False] @ authority_metas owner signer_pubkeys) (CloseAccount)"

definition freeze_account :: "token_ids \<Rightarrow> pubkey \<Rightarrow> pubkey \<Rightarrow> pubkey \<Rightarrow> pubkey \<Rightarrow> pubkey list \<Rightarrow> failure + instruction" where
  "freeze_account ids program_id account mint_key owner signer_pubkeys =
     build ids program_id ([meta account False, meta_readonly mint_key False] @ authority_metas owner signer_pubkeys) (FreezeAccount)"

definition thaw_account :: "token_ids \<Rightarrow> pubkey \<Rightarrow> pubkey \<Rightarrow> pubkey \<Rightarrow> pubkey \<Rightarrow> pubkey list \<Rightarrow> failure + instruction" where
  "thaw_account ids program_id account mint_key owner signer_pubkeys =
     build ids program_id ([meta account False, meta_readonly mint_key False] @ authority_metas owner signer_pubkeys) (ThawAccount)"

definition transfer_checked :: "token_ids \<Rightarrow> pubkey \<Rightarrow> pubkey \<Rightarrow> pubkey \<Rightarrow> pubkey \<Rightarrow> pubkey \<Rightarrow> pubkey list \<Rightarrow> u64 \<Rightarrow> u8 \<Rightarrow> failure + instruction" where
  "transfer_checked ids program_id source mint_key destination authority signer_pubkeys amt d =
     build ids program_id ([meta source False, meta_readonly mint_key False, meta destination False] @
        authority_metas authority signer_pubkeys) (TransferChecked amt d)"

definition approve_checked :: "token_ids \<Rightarrow> pubkey \<Rightarrow> pubkey \<Rightarrow> pubkey \<Rightarrow> pubkey \<Rightarrow> pubkey \<Rightarrow> pubkey list \<Rightarrow> u64 \<Rightarrow> u8 \<Rightarrow> failure + instruction" where
  "approve_checked ids program_id source mint_key delegate_key owner signer_pubkeys amt d =
     build ids program_id ([meta source False, meta_readonly mint_key False, meta_readonly delegate_key False] @
        authority_metas owner signer_pubkeys) (ApproveChecked amt d)"

definition mint_to_checked :: "token_ids \<Rightarrow> pubkey \<Rightarrow> pubkey \<Rightarrow> pubkey \<Rightarrow> pubkey \<Rightarrow> pubkey list \<Rightarrow> u64 \<Rightarrow> u8 \<Rightarrow> failure + instruction" where
  "mint_to_checked ids program_id mint_key account owner signer_pubkeys amt d =
     build ids program_id ([meta mint_key False, meta account False] @ authority_metas owner signer_pubkeys) (MintToChecked amt d)"

definition burn_checked :: "token_ids \<Rightarrow> pubkey \<Rightarrow> pubkey \<Rightarrow> pubkey \<Rightarrow> pubkey \<Rightarrow> pubkey list \<Rightarrow> u64 \<Rightarrow> u8 \<Rightarrow> failure + instruction" where
  "burn_checked ids program_id account mint_key authority signer_pubkeys amt d =
     build ids program_id ([meta account False, meta mint_key False] @ authority_metas authority signer_pubkeys) (BurnChecked amt d)"

definition sync_native :: "token_ids \<Rightarrow> pubkey \<Rightarrow> pubkey \<Rightarrow> failure + instruction" where
  "sync_native ids program_id account =
     build ids program_id ([meta account False]) (SyncNative)"

definition get_account_data_size :: "token_ids \<Rightarrow> pubkey \<Rightarrow> pubkey \<Rightarrow> failure + instruction" where
  "get_account_data_size ids program_id mint_key =
     build ids program_id ([meta_readonly mint_key False]) (GetAccountDataSize)"

definition initialize_immutable_owner :: "token_ids \<Rightarrow> pubkey \<Rightarrow> pubkey \<Rightarrow> failure + instruction" where
  "initialize_immutable_owner ids program_id account =
     build ids program_id ([meta account False]) (InitializeImmutableOwner)"

definition amount_to_ui_amount :: "token_ids \<Rightarrow> pubkey \<Rightarrow> pubkey \<Rightarrow> u64 \<Rightarrow> failure + instruction" where
  "amount_to_ui_amount ids program_id mint_key amt =
     build ids program_id ([meta_readonly mint_key False]) (AmountToUiAmount amt)"

definition ui_amount_to_amount :: "token_ids \<Rightarrow> pubkey \<Rightarrow> pubkey \<Rightarrow> u8 list \<Rightarrow> failure + instruction" where
  "ui_amount_to_amount ids program_id mint_key s =
     build ids program_id ([meta_readonly mint_key False]) (UiAmountToAmount s)"

section \<open>Bytes of an instruction\<close>

lemma unpack_parts [simp]:
  "unpack_u64 (to_le_bytes a @ rest) = Inr (a, rest)"
  "unpack_pubkey (to_le_bytes k @ rest) = Inr (k, rest)"
  "unpack_pubkey_option (pack_pubkey_option ok @ rest) = Inr (ok, rest)"
  "split_first (b # rest) = Inr (b, rest)"
  by (auto simp: unpack_u64_def unpack_pubkey_def unpack_pubkey_option_def pack_pubkey_option_def
      split_first_def split: option.split)

lemma unpack_last [simp]:
  "unpack_u64 (to_le_bytes a) = Inr (a, [])" "unpack_pubkey (to_le_bytes k) = Inr (k, [])"
  "unpack_pubkey_option (pack_pubkey_option ok) = Inr (ok, [])"
  using unpack_parts(1) [of a "[]"] unpack_parts(2) [of k "[]"] unpack_parts(3) [of ok "[]"]
  by (simp_all del: unpack_parts)

lemma authority_type_from_into [simp]: "authority_type_from (authority_type_into t) = Inr t"
  by (cases t) (simp_all add: authority_type_from_def)

lemma part_errors:
  "unpack_u64 bs = Inl f \<Longrightarrow> f = terr InvalidInstruction"
  "unpack_pubkey bs = Inl f \<Longrightarrow> f = terr InvalidInstruction"
  "unpack_pubkey_option bs = Inl f \<Longrightarrow> f = terr InvalidInstruction"
  "split_first bs = Inl f \<Longrightarrow> f = terr InvalidInstruction"
  "authority_type_from b = Inl f \<Longrightarrow> f = terr InvalidInstruction"
  by (auto simp: unpack_u64_def unpack_pubkey_def unpack_pubkey_option_def split_first_def
      authority_type_from_def split: if_splits list.splits)

fun text_ok :: "token_instruction \<Rightarrow> bool" where
  "text_ok (UiAmountToAmount s) = valid_utf8 s"
| "text_ok _ = True"

lemma unpack_pack: "text_ok i \<Longrightarrow> unpack (pack i) = Inr i"
  by (cases i) (simp_all add: unpack_def unpack_mint_fields_def unpack_amount_decimals_def)

lemma unpack_text_ok: "unpack bs = Inr i \<Longrightarrow> text_ok i"
  by (cases i) (auto simp: unpack_def result_simps split: if_splits)

section \<open>Properties\<close>

text \<open>
  C39. The bytes of an instruction decode to that instruction (a text argument being UTF-8, as every
  Rust string is), and decoding arbitrary bytes never panics: it yields an instruction or fails with
  \<^verbatim>\<open>InvalidInstruction\<close> and no other error.
\<close>

theorem instruction_round_trip:
  "(text_ok i \<longrightarrow> unpack (pack i) = Inr i) \<and> (\<forall>f. unpack bs = Inl f \<longrightarrow> f = terr InvalidInstruction)"
  by (auto simp: unpack_pack)
    (auto simp: unpack_def result_simps unpack_mint_fields_def unpack_amount_decimals_def
      dest!: part_errors split: if_splits)

theorem instruction_round_trip_witness:
  "text_ok (SetAuthority CloseAccountAuthority (Some 5)) \<and>
   unpack (pack (SetAuthority CloseAccountAuthority (Some 5))) = Inr (SetAuthority CloseAccountAuthority (Some 5)) \<and>
   unpack [25] = Inl (terr InvalidInstruction)"
  using instruction_round_trip [of "SetAuthority CloseAccountAuthority (Some 5)" "[25]"]
  by (simp add: unpack_def)

end
