(* ===== verification/Token_Ui.thy ===== *)
theory Token_Ui
  imports Token_State
begin

text \<open>
  Token amounts as decimal text (\<^verbatim>\<open>src/spl-token/program/src/lib.rs\<close>): printing an amount with the
  decimals of its mint, and reading one back. A string is the list of its bytes. The conversions
  through floating point numbers of the same file are not modelled.
\<close>

section \<open>Strings\<close>

text \<open>\<^verbatim>\<open>to_string\<close> of an unsigned number, and the padded \<^verbatim>\<open>format!("{:01$}", n, width)\<close>.\<close>

fun dec :: "nat \<Rightarrow> u8 list" where
  "dec n = (if n < 10 then [48 + of_nat n] else dec (n div 10) @ [48 + of_nat (n mod 10)])"

declare dec.simps [simp del]

definition pad_zeros :: "nat \<Rightarrow> u8 list \<Rightarrow> u8 list" where
  "pad_zeros width s = replicate (width - length s) 48 @ s"

definition trim_end_matches :: "u8 \<Rightarrow> u8 list \<Rightarrow> u8 list" where
  "trim_end_matches c s = rev (dropWhile (\<lambda>x. x = c) (rev s))"

fun split_on :: "u8 \<Rightarrow> u8 list \<Rightarrow> u8 list list" where
  "split_on c [] = [[]]"
| "split_on c (x # xs) = (if x = c then [] # split_on c xs
     else (case split_on c xs of p # ps \<Rightarrow> (x # p) # ps | [] \<Rightarrow> [[x]]))"

text \<open>\<^verbatim>\<open>str::parse::<u64>\<close>.\<close>

fun parse_digits :: "u64 \<Rightarrow> u8 list \<Rightarrow> u64 option" where
  "parse_digits acc [] = Some acc"
| "parse_digits acc (c # cs) =
    (if 48 \<le> c \<and> c \<le> 57 then
       do { m \<leftarrow> checked_mul acc 10; a \<leftarrow> checked_add m (ucast (c - 48)); parse_digits a cs }
     else None)"

definition parse_u64 :: "u8 list \<Rightarrow> u64 option" where
  "parse_u64 s = (if s = [] \<or> s = [43] \<or> s = [45] then None
     else if hd s = 43 then parse_digits 0 (tl s) else parse_digits 0 s)"

section \<open>Printing and reading amounts\<close>

definition amount_to_ui_amount_string :: "u64 \<Rightarrow> u8 \<Rightarrow> u8 list" where
  "amount_to_ui_amount_string n dcm = (let d = unat dcm in
     if 0 < d then
       let s = pad_zeros (d + 1) (dec (unat n))
       in take (length s - d) s @ [46] @ drop (length s - d) s
     else dec (unat n))"

definition amount_to_ui_amount_string_trimmed :: "u64 \<Rightarrow> u8 \<Rightarrow> u8 list" where
  "amount_to_ui_amount_string_trimmed n dcm = (let s = amount_to_ui_amount_string n dcm in
     if 0 < dcm then trim_end_matches 46 (trim_end_matches 48 s) else s)"

definition try_ui_amount_into_amount :: "u8 list \<Rightarrow> u8 \<Rightarrow> failure + u64" where
  "try_ui_amount_into_amount ui_amount dcm =
     (let d = unat dcm;
          parts = split_on 46 ui_amount;
          amount_str = hd parts;
          after_decimal = trim_end_matches 48 (if 2 \<le> length parts then parts ! 1 else []) in
      if amount_str = [] \<and> after_decimal = [] \<or> 3 \<le> length parts \<or> d < length after_decimal
      then Inl (Err InvalidArgument)
      else ok_or (parse_u64 (amount_str @ after_decimal @ replicate (d - length after_decimal) 48))
        (Err InvalidArgument))"

section \<open>Digits\<close>

definition is_digit :: "u8 \<Rightarrow> bool" where
  "is_digit c \<longleftrightarrow> 48 \<le> c \<and> c \<le> 57"

definition digits :: "u8 list \<Rightarrow> bool" where
  "digits s \<longleftrightarrow> list_all is_digit s"

definition value_from :: "nat \<Rightarrow> u8 list \<Rightarrow> nat" where
  "value_from acc s = foldl (\<lambda>v c. v * 10 + unat (c - 48)) acc s"

lemma value_from_simps [simp]:
  "value_from acc [] = acc" "value_from acc (c # cs) = value_from (acc * 10 + unat (c - 48)) cs"
  "value_from acc (xs @ ys) = value_from (value_from acc xs) ys"
  by (simp_all add: value_from_def)

lemma value_from_ge: "acc \<le> value_from acc s"
proof (induction s arbitrary: acc)
  case (Cons c s)
  have "acc \<le> acc * 10 + unat (c - 48)" by simp
  also have "\<dots> \<le> value_from (acc * 10 + unat (c - 48)) s" by (rule Cons)
  finally show ?case by simp
qed simp

lemma value_from_zeros [simp]: "value_from 0 (replicate k 48) = 0"
  by (induction k) auto

lemma digits_simps [simp]:
  "digits []" "digits (c # s) \<longleftrightarrow> is_digit c \<and> digits s" "digits (xs @ ys) \<longleftrightarrow> digits xs \<and> digits ys"
  "digits (replicate k 48)"
  by (auto simp: digits_def is_digit_def list_all_iff)

lemma digit_of_nat:
  assumes "n < 10"
  shows "is_digit (48 + of_nat n)" "unat (48 + of_nat n - 48 :: u8) = n"
proof -
  have n: "unat (of_nat n :: u8) = n" using assms by (simp add: unat_of_nat)
  then have "unat (48 + of_nat n :: u8) = 48 + n"
    using assms unat_add_lt [of "48 :: u8" "of_nat n"] by simp
  then show "is_digit (48 + of_nat n)" using assms by (simp add: is_digit_def word_le_nat_alt)
  show "unat (48 + of_nat n - 48 :: u8) = n" using n by simp
qed

lemma dec_digits: "digits (dec n)" "value_from 0 (dec n) = n" "dec n \<noteq> []"
proof (induction n rule: dec.induct)
  case (1 n)
  { case 1 show ?case using "1.IH"(1) digit_of_nat(1) [of n] digit_of_nat(1) [of "n mod 10"]
      by (subst dec.simps) simp
  next
    case 2 show ?case using "1.IH"(2) digit_of_nat(2) [of n] digit_of_nat(2) [of "n mod 10"]
      by (subst dec.simps) simp
  next
    case 3 show ?case by (subst dec.simps) simp }
qed

lemma parse_digits_value:
  "digits s \<Longrightarrow> value_from (unat acc) s < 2 ^ 64 \<Longrightarrow> parse_digits acc s = Some (of_nat (value_from (unat acc) s))"
proof (induction s arbitrary: acc)
  case (Cons c s)
  let ?v = "unat acc * 10 + unat (c - 48)"
  have v: "?v < 2 ^ 64" using le_less_trans [OF value_from_ge] Cons.prems(2) by simp
  have m: "checked_mul acc 10 = Some (acc * 10)" "unat (acc * 10) = unat acc * 10"
    using v unat_mult_lt [of acc 10] by (simp_all add: checked_mul_def)
  have a: "checked_add (acc * 10) (ucast (c - 48)) = Some (acc * 10 + ucast (c - 48))"
    "unat (acc * 10 + ucast (c - 48)) = ?v"
    using v m unat_add_lt [of "acc * 10" "ucast (c - 48)"]
    by (simp_all add: checked_add_def unat_ucast_up)
  show ?case using Cons.IH [of "acc * 10 + ucast (c - 48)"] Cons.prems m a by (simp add: is_digit_def)
qed simp

lemma parse_u64_value:
  assumes "digits s" "s \<noteq> []" "value_from 0 s = unat n"
  shows "parse_u64 s = Some n"
proof -
  obtain c r where s: "s = c # r" using assms(2) by (cases s) auto
  have "c \<noteq> 43" "c \<noteq> 45" using assms(1) by (auto simp: s is_digit_def)
  then show ?thesis
    using parse_digits_value [of s 0] assms unat_less [of n] by (simp add: parse_u64_def s)
qed

section \<open>Trimming and splitting\<close>

lemma trim_end_snoc: "trim_end_matches c (s @ [x]) = (if x = c then trim_end_matches c s else s @ [x])"
  by (simp add: trim_end_matches_def)

lemma trim_end_replicate: "trim_end_matches c (s @ replicate k c) = trim_end_matches c s"
proof (induction k)
  case (Suc k)
  have "s @ replicate (Suc k) c = (s @ replicate k c) @ [c]" by (simp add: replicate_append_same)
  then show ?case using Suc trim_end_snoc [of c "s @ replicate k c" c] by simp
qed simp

lemma trim_end_decompose:
  "\<exists>k. s = trim_end_matches c s @ replicate k c \<and> (trim_end_matches c s = [] \<or> last (trim_end_matches c s) \<noteq> c)"
proof (induction s rule: rev_induct)
  case (snoc x s)
  then obtain k where k: "s = trim_end_matches c s @ replicate k c"
    "trim_end_matches c s = [] \<or> last (trim_end_matches c s) \<noteq> c" by blast
  show ?case
  proof (cases "x = c")
    case True
    have "s @ [c] = trim_end_matches c s @ replicate (Suc k) c"
      by (subst k(1)) (simp flip: replicate_append_same)
    with True k(2) show ?thesis by (metis trim_end_snoc)
  qed (auto simp: trim_end_snoc intro: exI [of _ 0])
qed (simp add: trim_end_matches_def)

lemma trim_end_last: "s = [] \<or> last s \<noteq> c \<Longrightarrow> trim_end_matches c s = s"
  by (cases s rule: rev_cases) (simp_all add: trim_end_snoc, simp add: trim_end_matches_def)

lemma split_on_none: "c \<notin> set s \<Longrightarrow> split_on c s = [s]"
  by (induction s) auto

lemma split_on_one: "c \<notin> set s \<Longrightarrow> split_on c (s @ c # r) = s # split_on c r"
  by (induction s) auto

lemma digits_no_dot: "digits s \<Longrightarrow> 46 \<notin> set s"
  by (auto simp: digits_def list_all_iff is_digit_def)

lemma ui_string_parts:
  assumes "0 < d" "s = pad_zeros (d + 1) (dec n)"
  shows "digits s" "value_from 0 s = n" "length (drop (length s - d) s) = d" "take (length s - d) s \<noteq> []"
  using dec_digits [of n] assms by (auto simp: pad_zeros_def)

lemma trimmed_cases:
  assumes "digits whole" "whole \<noteq> []" "digits frac"
  defines "f \<equiv> trim_end_matches 48 frac"
  shows "trim_end_matches 46 (trim_end_matches 48 (whole @ [46] @ frac)) =
    (if f = [] then whole else whole @ [46] @ f)"
proof -
  obtain k where k: "frac = f @ replicate k 48" "f = [] \<or> last f \<noteq> 48"
    using trim_end_decompose [of frac 48] unfolding f_def by blast
  have dot: "46 \<notin> set whole" "46 \<notin> set f" using assms(1,3) k(1) digits_no_dot by auto
  have e: "whole @ [46] @ frac = (whole @ [46] @ f) @ replicate k 48" unfolding k(1) by simp
  have "last (whole @ [46] @ f) \<noteq> 48" using k(2) by auto
  then have t: "trim_end_matches 48 (whole @ [46] @ frac) = whole @ [46] @ f"
    unfolding e trim_end_replicate by (rule trim_end_last [OF disjI2])
  show ?thesis
  proof (cases "f = []")
    case True
    have "last whole \<noteq> 46" using dot(1) assms(2) last_in_set by metis
    then show ?thesis unfolding t
      using True trim_end_snoc [of 46 whole 46] trim_end_last [of whole 46] by simp
  next
    case False
    then have "last f \<noteq> 46" using dot(2) last_in_set by metis
    then have "last (whole @ [46] @ f) \<noteq> 46" using False by simp
    then show ?thesis unfolding t using False trim_end_last [of "whole @ [46] @ f" 46] by simp
  qed
qed

lemma read_printed:
  assumes "digits whole" "whole \<noteq> []" "digits frac" "length frac = unat d" "value_from 0 (whole @ frac) = unat n"
  defines "f \<equiv> trim_end_matches 48 frac"
  shows "try_ui_amount_into_amount (if f = [] then whole else whole @ [46] @ f) d = Inr n"
proof -
  obtain k where k: "frac = f @ replicate k 48" "f = [] \<or> last f \<noteq> 48"
    using trim_end_decompose [of frac 48] unfolding f_def by blast
  have len: "length f + k = unat d" using assms(4) unfolding k(1) by simp
  then have "unat d - length f = k" by simp
  then have str: "whole @ f @ replicate (unat d - length f) 48 = whole @ frac" unfolding k(1) by simp
  have "digits f" using assms(3) unfolding k(1) by simp
  note dots = digits_no_dot [OF this] digits_no_dot [OF assms(1)]
  have p: "parse_u64 (whole @ frac) = Some n"
    by (rule parse_u64_value) (use assms(1,2,3,5) in simp_all)
  have tt: "trim_end_matches 48 f = f" "trim_end_matches 48 [] = []"
    using k(2) trim_end_last by blast+
  show ?thesis
  proof (cases "f = []")
    case True
    have "whole @ replicate (unat d) 48 = whole @ frac" using str True by simp
    then show ?thesis using split_on_none [OF dots(2)] assms(2) p True tt(2)
      by (simp add: try_ui_amount_into_amount_def del: append_same_eq same_append_eq)
  next
    case False
    then have "split_on 46 (whole @ [46] @ f) = [whole, f]"
      using split_on_one [OF dots(2), of f] split_on_none [OF dots(1)] by simp
    then show ?thesis using False p str tt len
      by (simp add: try_ui_amount_into_amount_def del: append_same_eq same_append_eq)
  qed
qed

lemma read_untrimmed:
  assumes "digits whole" "digits frac" "0 < length frac" "length frac = unat d" "whole \<noteq> []"
    "value_from 0 (whole @ frac) = unat n"
  shows "try_ui_amount_into_amount (whole @ [46] @ frac) d = Inr n"
proof -
  define f where "f = trim_end_matches 48 frac"
  obtain k where k: "frac = f @ replicate k 48"
    using trim_end_decompose [of frac 48] unfolding f_def by blast
  have len: "length f + k = unat d" using assms(4) unfolding k by simp
  then have "unat d - length f = k" by simp
  then have str: "whole @ f @ replicate (unat d - length f) 48 = whole @ frac" unfolding k by simp
  have p: "parse_u64 (whole @ frac) = Some n"
    by (rule parse_u64_value) (use assms in simp_all)
  have "split_on 46 (whole @ [46] @ frac) = [whole, frac]"
    using split_on_one [OF digits_no_dot [OF assms(1)], of frac] split_on_none [OF digits_no_dot [OF assms(2)]]
    by simp
  then show ?thesis using assms(5) p str len
    by (simp add: try_ui_amount_into_amount_def f_def [symmetric] del: append_same_eq same_append_eq)
qed

section \<open>Properties\<close>

text \<open>
  C40. Printing a token amount and reading the text back gives the amount: for every 64-bit amount and
  every number of decimals, \<^verbatim>\<open>try_ui_amount_into_amount\<close> accepts both the full text that
  \<^verbatim>\<open>amount_to_ui_amount_string\<close> prints and the text without excess zeroes that
  \<^verbatim>\<open>amount_to_ui_amount_string_trimmed\<close> prints, and returns the original amount.
\<close>

theorem ui_amount_round_trip:
  "try_ui_amount_into_amount (amount_to_ui_amount_string n d) d = Inr n \<and>
   try_ui_amount_into_amount (amount_to_ui_amount_string_trimmed n d) d = Inr n"
proof (cases "d = 0")
  case True
  then show ?thesis
    using read_printed [of "dec (unat n)" "[]" d n] dec_digits [of "unat n"]
    by (simp add: amount_to_ui_amount_string_trimmed_def amount_to_ui_amount_string_def trim_end_matches_def)
next
  case False
  then have d: "0 < d" "0 < unat d" by (simp_all add: word_gt_0 unat_gt_0)
  define s where "s = pad_zeros (unat d + 1) (dec (unat n))"
  note parts = ui_string_parts [OF d(2) s_def]
  let ?w = "take (length s - unat d) s" and ?f = "drop (length s - unat d) s"
  have dig: "digits ?w" "digits ?f"
    using parts(1) digits_simps(3) [of ?w ?f] by simp_all
  have v: "value_from 0 (?w @ ?f) = unat n" using parts(2) by simp
  have full: "amount_to_ui_amount_string n d = ?w @ [46] @ ?f"
    using d by (simp add: amount_to_ui_amount_string_def s_def Let_def)
  have "0 < length ?f" using parts(3) d(2) by (simp only:)
  from read_untrimmed [OF dig this parts(3,4) v] have "try_ui_amount_into_amount (amount_to_ui_amount_string n d) d = Inr n"
    unfolding full .
  moreover have "try_ui_amount_into_amount (amount_to_ui_amount_string_trimmed n d) d = Inr n"
    using trimmed_cases [OF dig(1) parts(4) dig(2)] read_printed [OF dig(1) parts(4) dig(2) parts(3) v] d full
    by (simp add: amount_to_ui_amount_string_trimmed_def Let_def)
  ultimately show ?thesis by blast
qed

end
