(* ===== verification/Token_Processor.thy ===== *)
theory Token_Processor
  imports Token_Instruction Token_Ui
begin

text \<open>
  The processor of the SPL Token program (\<^verbatim>\<open>src/spl-token/program/src/processor.rs\<close>), one definition
  per handler. The accounts an instruction names refer into one shared store, so that an account
  named twice is the same account. What the program takes from other crates is in the record
  \<open>token_env\<close>: the well-known ids, the rent sysvar, and the provided methods of the \<^verbatim>\<open>Pack\<close> trait.
\<close>

section \<open>Accounts and the environment\<close>

record account =
  lamports :: u64
  account_data :: "u8 list"
  account_program :: pubkey

text \<open>The account store and the return data of the instruction.\<close>

record world =
  accts :: "pubkey \<Rightarrow> account"
  return_data :: "u8 list"

record account_info =
  key :: pubkey
  is_signer :: bool

record rent =
  is_exempt :: "u64 \<Rightarrow> nat \<Rightarrow> bool"
  minimum_balance :: "nat \<Rightarrow> u64"

record 'a pack_methods =
  m_unpack_unchecked :: "u8 list \<Rightarrow> failure + 'a"
  m_unpack :: "u8 list \<Rightarrow> failure + 'a"
  m_pack :: "'a \<Rightarrow> u8 list \<Rightarrow> failure + u8 list"

record token_env =
  native_mint_id :: pubkey
  system_program_id :: pubkey
  incinerator_id :: pubkey
  rent_from_account :: "pubkey \<Rightarrow> account \<Rightarrow> failure + rent"
  rent_get :: "failure + rent"
  mint_pack :: "mint pack_methods"
  account_pack :: "token_account pack_methods"
  multisig_pack :: "multisig pack_methods"

text \<open>
  The documented behaviour of the provided methods of \<^verbatim>\<open>Pack\<close>: both directions insist on the exact
  length, and \<^verbatim>\<open>unpack\<close> on an initialized value.
\<close>

definition pack_trait ::
  "nat \<Rightarrow> (u8 list \<Rightarrow> failure + 'a) \<Rightarrow> ('a \<Rightarrow> u8 list \<Rightarrow> failure + u8 list) \<Rightarrow> ('a \<Rightarrow> bool) \<Rightarrow> 'a pack_methods"
where
  "pack_trait len from_slice into_slice initialized =
     (let unchecked = (\<lambda>input. bindr (require (length input = len) (Err InvalidAccountData)) (\<lambda>_. from_slice input))
      in \<lparr>m_unpack_unchecked = unchecked,
          m_unpack = (\<lambda>input. bindr (unchecked input) (\<lambda>v.
            bindr (require (initialized v) (Err UninitializedAccount)) (\<lambda>_. Inr v))),
          m_pack = (\<lambda>src dst. bindr (require (length dst = len) (Err InvalidAccountData)) (\<lambda>_. into_slice src dst))\<rparr>)"

definition env_ok :: "token_env \<Rightarrow> bool" where
  "env_ok env \<longleftrightarrow>
     mint_pack env = pack_trait MINT_LEN mint_unpack_from_slice mint_pack_into_slice mint_is_initialized \<and>
     account_pack env = pack_trait ACCOUNT_LEN account_unpack_from_slice account_pack_into_slice account_is_initialized \<and>
     multisig_pack env = pack_trait MULTISIG_LEN multisig_unpack_from_slice multisig_pack_into_slice ms_is_initialized"

section \<open>Access to the accounts\<close>

definition next_account_info :: "account_info list \<Rightarrow> failure + account_info \<times> account_info list" where
  "next_account_info it = (case it of [] \<Rightarrow> Inl (Err NotEnoughAccountKeys) | i # r \<Rightarrow> Inr (i, r))"

abbreviation acct :: "world \<Rightarrow> account_info \<Rightarrow> account" where
  "acct w i \<equiv> accts w (key i)"

definition set_data :: "world \<Rightarrow> account_info \<Rightarrow> u8 list \<Rightarrow> world" where
  "set_data w i d = w\<lparr>accts := (accts w)(key i := (acct w i)\<lparr>account_data := d\<rparr>)\<rparr>"

definition set_lamports :: "world \<Rightarrow> account_info \<Rightarrow> u64 \<Rightarrow> world" where
  "set_lamports w i n = w\<lparr>accts := (accts w)(key i := (acct w i)\<lparr>lamports := n\<rparr>)\<rparr>"

definition set_return_data :: "world \<Rightarrow> u8 list \<Rightarrow> world" where
  "set_return_data w d = w\<lparr>return_data := d\<rparr>"

abbreviation unpack_mint :: "token_env \<Rightarrow> world \<Rightarrow> account_info \<Rightarrow> failure + mint" where
  "unpack_mint env w i \<equiv> m_unpack (mint_pack env) (account_data (acct w i))"

abbreviation unpack_account :: "token_env \<Rightarrow> world \<Rightarrow> account_info \<Rightarrow> failure + token_account" where
  "unpack_account env w i \<equiv> m_unpack (account_pack env) (account_data (acct w i))"

definition store_mint :: "token_env \<Rightarrow> mint \<Rightarrow> account_info \<Rightarrow> world \<Rightarrow> failure + world" where
  "store_mint env m i w = bindr (m_pack (mint_pack env) m (account_data (acct w i))) (\<lambda>d. Inr (set_data w i d))"

definition store_account :: "token_env \<Rightarrow> token_account \<Rightarrow> account_info \<Rightarrow> world \<Rightarrow> failure + world" where
  "store_account env a i w = bindr (m_pack (account_pack env) a (account_data (acct w i))) (\<lambda>d. Inr (set_data w i d))"

definition map_err :: "failure \<Rightarrow> failure + 'a \<Rightarrow> failure + 'a" where
  "map_err e m = (case m of Inl (Err _) \<Rightarrow> Inl e | Inl Panic \<Rightarrow> Inl Panic | Inr x \<Rightarrow> Inr x)"

definition get_rent :: "token_env \<Rightarrow> world \<Rightarrow> bool \<Rightarrow> account_info list \<Rightarrow> failure + rent \<times> account_info list" where
  "get_rent env w rent_sysvar_account it =
     (if rent_sysvar_account then
        bindr (next_account_info it) (\<lambda>(i, it).
        bindr (rent_from_account env (key i) (acct w i)) (\<lambda>r. Inr (r, it)))
      else bindr (rent_get env) (\<lambda>r. Inr (r, it)))"

section \<open>Authorization\<close>

definition check_account_owner :: "pubkey \<Rightarrow> world \<Rightarrow> account_info \<Rightarrow> failure + unit" where
  "check_account_owner program_id w i =
     (if program_id \<noteq> account_program (acct w i) then Inl (Err IncorrectProgramId) else Inr ())"

definition cmp_pubkeys :: "pubkey \<Rightarrow> pubkey \<Rightarrow> bool" where
  "cmp_pubkeys a b \<longleftrightarrow> a = b"

definition is_owned_by_system_program_or_incinerator :: "token_env \<Rightarrow> token_account \<Rightarrow> bool" where
  "is_owned_by_system_program_or_incinerator env a \<longleftrightarrow>
     acc_owner a = system_program_id env \<or> acc_owner a = incinerator_id env"

text \<open>The inner loop over the keys of the multisignature account, then the loop over the signers.\<close>

fun match_signer ::
  "account_info \<Rightarrow> nat \<Rightarrow> pubkey list \<Rightarrow> bool list \<times> u8 \<Rightarrow> failure + bool list \<times> u8"
where
  "match_signer i position [] acc = Inr acc"
| "match_signer i position (k # ks) (matched, num_signers) =
    (if cmp_pubkeys k (key i) \<and> \<not> matched ! position then
       if \<not> is_signer i then Inl (Err MissingRequiredSignature)
       else match_signer i (Suc position) ks (matched[position := True], num_signers + 1)
     else match_signer i (Suc position) ks (matched, num_signers))"

fun match_signers :: "multisig \<Rightarrow> account_info list \<Rightarrow> bool list \<times> u8 \<Rightarrow> failure + bool list \<times> u8" where
  "match_signers ms [] acc = Inr acc"
| "match_signers ms (i # is) acc =
     bindr (require (unat (ms_n ms) \<le> length (signers ms)) Panic) (\<lambda>_.
     bindr (match_signer i 0 (take (unat (ms_n ms)) (signers ms)) acc) (\<lambda>acc.
     match_signers ms is acc))"

definition validate_owner ::
  "token_env \<Rightarrow> pubkey \<Rightarrow> world \<Rightarrow> pubkey \<Rightarrow> account_info \<Rightarrow> account_info list \<Rightarrow> failure + unit"
where
  "validate_owner env program_id w expected_owner owner_info signer_infos =
     bindr (require (cmp_pubkeys expected_owner (key owner_info)) (terr OwnerMismatch)) (\<lambda>_.
     if cmp_pubkeys program_id (account_program (acct w owner_info)) \<and>
        length (account_data (acct w owner_info)) = MULTISIG_LEN then
       bindr (m_unpack (multisig_pack env) (account_data (acct w owner_info))) (\<lambda>ms.
       bindr (match_signers ms signer_infos (replicate MAX_SIGNERS False, 0)) (\<lambda>(_, num_signers).
       require (\<not> num_signers < ms_m ms) (Err MissingRequiredSignature)))
     else require (is_signer owner_info) (Err MissingRequiredSignature))"

section \<open>Initialization\<close>

definition process_initialize_mint_inner ::
  "token_env \<Rightarrow> world \<Rightarrow> account_info list \<Rightarrow> u8 \<Rightarrow> pubkey \<Rightarrow> pubkey option \<Rightarrow> bool \<Rightarrow> failure + world"
where
  "process_initialize_mint_inner env w infos dcm mint_auth freeze_auth rent_sysvar_account =
     bindr (next_account_info infos) (\<lambda>(mint_info, it).
     bindr (get_rent env w rent_sysvar_account it) (\<lambda>(rent, _).
     bindr (m_unpack_unchecked (mint_pack env) (account_data (acct w mint_info))) (\<lambda>mint.
     bindr (require (\<not> mint_is_initialized mint) (terr AlreadyInUse)) (\<lambda>_.
     bindr (require (is_exempt rent (lamports (acct w mint_info)) (length (account_data (acct w mint_info))))
       (terr NotRentExempt)) (\<lambda>_.
     store_mint env (mint\<lparr>mint_authority := Some mint_auth, decimals := dcm, mint_is_initialized := True,
       freeze_authority := freeze_auth\<rparr>) mint_info w)))))"

definition process_initialize_mint where
  "process_initialize_mint env w infos dcm mint_auth freeze_auth =
     process_initialize_mint_inner env w infos dcm mint_auth freeze_auth True"

definition process_initialize_mint2 where
  "process_initialize_mint2 env w infos dcm mint_auth freeze_auth =
     process_initialize_mint_inner env w infos dcm mint_auth freeze_auth False"

definition check_new_account_mint :: "token_env \<Rightarrow> pubkey \<Rightarrow> world \<Rightarrow> account_info \<Rightarrow> failure + unit" where
  "check_new_account_mint env program_id w mint_info =
     (if \<not> cmp_pubkeys (key mint_info) (native_mint_id env) then
        bindr (check_account_owner program_id w mint_info) (\<lambda>_.
        bindr (map_err (terr InvalidMint) (unpack_mint env w mint_info)) (\<lambda>_. Inr ()))
      else Inr ())"

text \<open>The account record as initialized; a wrapped-lamports account holds what exceeds the rent reserve.\<close>

definition initialized_account ::
  "token_env \<Rightarrow> token_account \<Rightarrow> pubkey \<Rightarrow> pubkey \<Rightarrow> u64 \<Rightarrow> u64 \<Rightarrow> failure + token_account"
where
  "initialized_account env account mint_key owner_key balance reserve =
     (let account = account\<lparr>acc_mint := mint_key, acc_owner := owner_key, close_authority := None,
            delegate := None, delegated_amount := 0, state := Initialized\<rparr> in
      if cmp_pubkeys mint_key (native_mint_id env) then
        bindr (ok_or (checked_sub balance reserve) (terr Overflow)) (\<lambda>n.
        Inr (account\<lparr>native_reserve := Some reserve, amount := n\<rparr>))
      else Inr (account\<lparr>native_reserve := None, amount := 0\<rparr>))"

definition process_initialize_account_inner ::
  "token_env \<Rightarrow> pubkey \<Rightarrow> world \<Rightarrow> account_info list \<Rightarrow> pubkey option \<Rightarrow> bool \<Rightarrow> failure + world"
where
  "process_initialize_account_inner env program_id w infos owner rent_sysvar_account =
     bindr (next_account_info infos) (\<lambda>(new_info, it).
     bindr (next_account_info it) (\<lambda>(mint_info, it).
     bindr (case owner of Some k \<Rightarrow> Inr (k, it)
       | None \<Rightarrow> bindr (next_account_info it) (\<lambda>(i, it). Inr (key i, it))) (\<lambda>(owner_key, it).
     bindr (get_rent env w rent_sysvar_account it) (\<lambda>(rent, _).
     bindr (m_unpack_unchecked (account_pack env) (account_data (acct w new_info))) (\<lambda>account.
     bindr (require (\<not> account_is_initialized account) (terr AlreadyInUse)) (\<lambda>_.
     bindr (require (is_exempt rent (lamports (acct w new_info)) (length (account_data (acct w new_info))))
       (terr NotRentExempt)) (\<lambda>_.
     bindr (check_new_account_mint env program_id w mint_info) (\<lambda>_.
     bindr (initialized_account env account (key mint_info) owner_key (lamports (acct w new_info))
       (minimum_balance rent (length (account_data (acct w new_info))))) (\<lambda>account.
     store_account env account new_info w)))))))))"

definition process_initialize_account where
  "process_initialize_account env program_id w infos =
     process_initialize_account_inner env program_id w infos None True"

definition process_initialize_account2 where
  "process_initialize_account2 env program_id w infos owner =
     process_initialize_account_inner env program_id w infos (Some owner) True"

definition process_initialize_account3 where
  "process_initialize_account3 env program_id w infos owner =
     process_initialize_account_inner env program_id w infos (Some owner) False"

text \<open>Writing past the end of the array of signers panics.\<close>

definition set_signers :: "pubkey list \<Rightarrow> account_info list \<Rightarrow> failure + pubkey list" where
  "set_signers ks infos = (if length infos \<le> length ks then Inr (map key infos @ drop (length infos) ks) else Inl Panic)"

definition process_initialize_multisig_inner ::
  "token_env \<Rightarrow> world \<Rightarrow> account_info list \<Rightarrow> u8 \<Rightarrow> bool \<Rightarrow> failure + world"
where
  "process_initialize_multisig_inner env w infos m rent_sysvar_account =
     bindr (next_account_info infos) (\<lambda>(multisig_info, it).
     bindr (get_rent env w rent_sysvar_account it) (\<lambda>(rent, signer_infos).
     bindr (m_unpack_unchecked (multisig_pack env) (account_data (acct w multisig_info))) (\<lambda>ms.
     bindr (require (\<not> ms_is_initialized ms) (terr AlreadyInUse)) (\<lambda>_.
     bindr (require (is_exempt rent (lamports (acct w multisig_info)) (length (account_data (acct w multisig_info))))
       (terr NotRentExempt)) (\<lambda>_.
     let n = (of_nat (length signer_infos) :: u8) in
     bindr (require (is_valid_signer_index (unat n)) (terr InvalidNumberOfProvidedSigners)) (\<lambda>_.
     bindr (require (is_valid_signer_index (unat m)) (terr InvalidNumberOfRequiredSigners)) (\<lambda>_.
     bindr (set_signers (signers ms) signer_infos) (\<lambda>ks.
     bindr (m_pack (multisig_pack env) (ms\<lparr>ms_m := m, ms_n := n, signers := ks, ms_is_initialized := True\<rparr>)
       (account_data (acct w multisig_info))) (\<lambda>d.
     Inr (set_data w multisig_info d))))))))))"

definition process_initialize_multisig where
  "process_initialize_multisig env w infos m = process_initialize_multisig_inner env w infos m True"

definition process_initialize_multisig2 where
  "process_initialize_multisig2 env w infos m = process_initialize_multisig_inner env w infos m False"

definition process_initialize_immutable_owner :: "token_env \<Rightarrow> world \<Rightarrow> account_info list \<Rightarrow> failure + world" where
  "process_initialize_immutable_owner env w infos =
     bindr (next_account_info infos) (\<lambda>(i, _).
     bindr (m_unpack_unchecked (account_pack env) (account_data (acct w i))) (\<lambda>account.
     bindr (require (\<not> account_is_initialized account) (terr AlreadyInUse)) (\<lambda>_. Inr w)))"

section \<open>Moving tokens\<close>

definition next_expected_mint ::
  "account_info list \<Rightarrow> u8 option \<Rightarrow> failure + (account_info \<times> u8) option \<times> account_info list"
where
  "next_expected_mint it expected_decimals = (case expected_decimals of
     Some d \<Rightarrow> bindr (next_account_info it) (\<lambda>(i, it). Inr (Some (i, d), it))
   | None \<Rightarrow> Inr (None, it))"

definition check_expected_mint ::
  "token_env \<Rightarrow> world \<Rightarrow> token_account \<Rightarrow> (account_info \<times> u8) option \<Rightarrow> failure + unit"
where
  "check_expected_mint env w source_account expected = (case expected of
     Some (mint_info, expected_decimals) \<Rightarrow>
       bindr (require (cmp_pubkeys (key mint_info) (acc_mint source_account)) (terr MintMismatch)) (\<lambda>_.
       bindr (unpack_mint env w mint_info) (\<lambda>mint.
       require (expected_decimals = decimals mint) (terr MintDecimalsMismatch)))
   | None \<Rightarrow> Inr ())"

text \<open>The authority over an amount of the source: its delegate, within the allowance, or its owner.\<close>

definition spend_allowance :: "token_account \<Rightarrow> u64 \<Rightarrow> failure + token_account" where
  "spend_allowance a n =
     bindr (ok_or (checked_sub (delegated_amount a) n) (terr Overflow)) (\<lambda>rest.
     let a = a\<lparr>delegated_amount := rest\<rparr> in
     Inr (if rest = 0 then a\<lparr>delegate := None\<rparr> else a))"

definition authorize_spend ::
  "token_env \<Rightarrow> pubkey \<Rightarrow> world \<Rightarrow> token_account \<Rightarrow> u64 \<Rightarrow> bool \<Rightarrow> account_info \<Rightarrow> account_info list \<Rightarrow> failure + token_account"
where
  "authorize_spend env program_id w a n self_transfer authority_info signer_infos =
     (if (case delegate a of Some d \<Rightarrow> cmp_pubkeys (key authority_info) d | None \<Rightarrow> False) then
        bindr (validate_owner env program_id w (the (delegate a)) authority_info signer_infos) (\<lambda>_.
        bindr (require (\<not> delegated_amount a < n) (terr InsufficientFunds)) (\<lambda>_.
        if \<not> self_transfer then spend_allowance a n else Inr a))
      else bindr (validate_owner env program_id w (acc_owner a) authority_info signer_infos) (\<lambda>_. Inr a))"

definition move_lamports :: "world \<Rightarrow> account_info \<Rightarrow> account_info \<Rightarrow> u64 \<Rightarrow> failure + world" where
  "move_lamports w source_info destination_info n =
     bindr (ok_or (checked_sub (lamports (acct w source_info)) n) (terr Overflow)) (\<lambda>l.
     let w = set_lamports w source_info l in
     bindr (ok_or (checked_add (lamports (acct w destination_info)) n) (terr Overflow)) (\<lambda>l.
     Inr (set_lamports w destination_info l)))"

definition process_transfer ::
  "token_env \<Rightarrow> pubkey \<Rightarrow> world \<Rightarrow> account_info list \<Rightarrow> u64 \<Rightarrow> u8 option \<Rightarrow> failure + world"
where
  "process_transfer env program_id w infos n expected_decimals =
     bindr (next_account_info infos) (\<lambda>(source_info, it).
     bindr (next_expected_mint it expected_decimals) (\<lambda>(expected, it).
     bindr (next_account_info it) (\<lambda>(destination_info, it).
     bindr (next_account_info it) (\<lambda>(authority_info, signer_infos).
     bindr (unpack_account env w source_info) (\<lambda>source_account.
     bindr (unpack_account env w destination_info) (\<lambda>destination_account.
     bindr (require (\<not> (is_frozen source_account \<or> is_frozen destination_account)) (terr AccountFrozen)) (\<lambda>_.
     bindr (require (\<not> amount source_account < n) (terr InsufficientFunds)) (\<lambda>_.
     bindr (require (cmp_pubkeys (acc_mint source_account) (acc_mint destination_account)) (terr MintMismatch)) (\<lambda>_.
     bindr (check_expected_mint env w source_account expected) (\<lambda>_.
     let self_transfer = cmp_pubkeys (key source_info) (key destination_info) in
     bindr (authorize_spend env program_id w source_account n self_transfer authority_info signer_infos) (\<lambda>source_account.
     bindr (if self_transfer \<or> n = 0 then
         bindr (check_account_owner program_id w source_info) (\<lambda>_.
         check_account_owner program_id w destination_info)
       else Inr ()) (\<lambda>_.
     if self_transfer then Inr w
     else
     bindr (ok_or (checked_sub (amount source_account) n) (terr Overflow)) (\<lambda>source_amount.
     bindr (ok_or (checked_add (amount destination_account) n) (terr Overflow)) (\<lambda>destination_amount.
     bindr (if is_native source_account then move_lamports w source_info destination_info n else Inr w) (\<lambda>w.
     bindr (store_account env (source_account\<lparr>amount := source_amount\<rparr>) source_info w) (\<lambda>w.
     store_account env (destination_account\<lparr>amount := destination_amount\<rparr>) destination_info w))))))))))))))))"

definition process_approve ::
  "token_env \<Rightarrow> pubkey \<Rightarrow> world \<Rightarrow> account_info list \<Rightarrow> u64 \<Rightarrow> u8 option \<Rightarrow> failure + world"
where
  "process_approve env program_id w infos n expected_decimals =
     bindr (next_account_info infos) (\<lambda>(source_info, it).
     bindr (next_expected_mint it expected_decimals) (\<lambda>(expected, it).
     bindr (next_account_info it) (\<lambda>(delegate_info, it).
     bindr (next_account_info it) (\<lambda>(owner_info, signer_infos).
     bindr (unpack_account env w source_info) (\<lambda>source_account.
     bindr (require (\<not> is_frozen source_account) (terr AccountFrozen)) (\<lambda>_.
     bindr (check_expected_mint env w source_account expected) (\<lambda>_.
     bindr (validate_owner env program_id w (acc_owner source_account) owner_info signer_infos) (\<lambda>_.
     store_account env (source_account\<lparr>delegate := Some (key delegate_info), delegated_amount := n\<rparr>)
       source_info w))))))))"

definition process_revoke :: "token_env \<Rightarrow> pubkey \<Rightarrow> world \<Rightarrow> account_info list \<Rightarrow> failure + world" where
  "process_revoke env program_id w infos =
     bindr (next_account_info infos) (\<lambda>(source_info, it).
     bindr (unpack_account env w source_info) (\<lambda>source_account.
     bindr (next_account_info it) (\<lambda>(owner_info, signer_infos).
     bindr (require (\<not> is_frozen source_account) (terr AccountFrozen)) (\<lambda>_.
     bindr (validate_owner env program_id w (acc_owner source_account) owner_info signer_infos) (\<lambda>_.
     store_account env (source_account\<lparr>delegate := None, delegated_amount := 0\<rparr>) source_info w)))))"

definition set_account_authority ::
  "token_env \<Rightarrow> pubkey \<Rightarrow> world \<Rightarrow> token_account \<Rightarrow> authority_type \<Rightarrow> pubkey option \<Rightarrow> account_info \<Rightarrow>
   account_info list \<Rightarrow> failure + token_account"
where
  "set_account_authority env program_id w account authority_type new_authority authority_info signer_infos =
    (case authority_type of
       AccountOwner \<Rightarrow>
         bindr (validate_owner env program_id w (acc_owner account) authority_info signer_infos) (\<lambda>_.
         bindr (ok_or new_authority (terr InvalidInstruction)) (\<lambda>authority.
         let account = account\<lparr>acc_owner := authority, delegate := None, delegated_amount := 0\<rparr> in
         Inr (if is_native account then account\<lparr>close_authority := None\<rparr> else account)))
     | CloseAccountAuthority \<Rightarrow>
         bindr (validate_owner env program_id w
           (case close_authority account of Some k \<Rightarrow> k | None \<Rightarrow> acc_owner account)
           authority_info signer_infos) (\<lambda>_.
         Inr (account\<lparr>close_authority := new_authority\<rparr>))
     | _ \<Rightarrow> Inl (terr AuthorityTypeNotSupported))"

definition set_mint_authority ::
  "token_env \<Rightarrow> pubkey \<Rightarrow> world \<Rightarrow> mint \<Rightarrow> authority_type \<Rightarrow> pubkey option \<Rightarrow> account_info \<Rightarrow>
   account_info list \<Rightarrow> failure + mint"
where
  "set_mint_authority env program_id w mint authority_type new_authority authority_info signer_infos =
    (case authority_type of
       MintTokens \<Rightarrow>
         bindr (ok_or (mint_authority mint) (terr FixedSupply)) (\<lambda>authority.
         bindr (validate_owner env program_id w authority authority_info signer_infos) (\<lambda>_.
         Inr (mint\<lparr>mint_authority := new_authority\<rparr>)))
     | FreezeAccountAuthority \<Rightarrow>
         bindr (ok_or (freeze_authority mint) (terr MintCannotFreeze)) (\<lambda>authority.
         bindr (validate_owner env program_id w authority authority_info signer_infos) (\<lambda>_.
         Inr (mint\<lparr>freeze_authority := new_authority\<rparr>)))
     | _ \<Rightarrow> Inl (terr AuthorityTypeNotSupported))"

definition process_set_authority ::
  "token_env \<Rightarrow> pubkey \<Rightarrow> world \<Rightarrow> account_info list \<Rightarrow> authority_type \<Rightarrow> pubkey option \<Rightarrow> failure + world"
where
  "process_set_authority env program_id w infos authority_type new_authority =
     bindr (next_account_info infos) (\<lambda>(info, it).
     bindr (next_account_info it) (\<lambda>(authority_info, signer_infos).
     if length (account_data (acct w info)) = ACCOUNT_LEN then
       bindr (unpack_account env w info) (\<lambda>account.
       bindr (require (\<not> is_frozen account) (terr AccountFrozen)) (\<lambda>_.
       bindr (set_account_authority env program_id w account authority_type new_authority authority_info
         signer_infos) (\<lambda>account.
       store_account env account info w)))
     else if length (account_data (acct w info)) = MINT_LEN then
       bindr (unpack_mint env w info) (\<lambda>mint.
       bindr (set_mint_authority env program_id w mint authority_type new_authority authority_info
         signer_infos) (\<lambda>mint.
       store_mint env mint info w))
     else Inl (Err InvalidArgument)))"

definition check_decimals :: "mint \<Rightarrow> u8 option \<Rightarrow> failure + unit" where
  "check_decimals mint expected_decimals = (case expected_decimals of
     Some d \<Rightarrow> require (d = decimals mint) (terr MintDecimalsMismatch) | None \<Rightarrow> Inr ())"

definition process_mint_to ::
  "token_env \<Rightarrow> pubkey \<Rightarrow> world \<Rightarrow> account_info list \<Rightarrow> u64 \<Rightarrow> u8 option \<Rightarrow> failure + world"
where
  "process_mint_to env program_id w infos n expected_decimals =
     bindr (next_account_info infos) (\<lambda>(mint_info, it).
     bindr (next_account_info it) (\<lambda>(destination_info, it).
     bindr (next_account_info it) (\<lambda>(owner_info, signer_infos).
     bindr (unpack_account env w destination_info) (\<lambda>destination_account.
     bindr (require (\<not> is_frozen destination_account) (terr AccountFrozen)) (\<lambda>_.
     bindr (require (\<not> is_native destination_account) (terr NativeNotSupported)) (\<lambda>_.
     bindr (require (cmp_pubkeys (key mint_info) (acc_mint destination_account)) (terr MintMismatch)) (\<lambda>_.
     bindr (unpack_mint env w mint_info) (\<lambda>mint.
     bindr (check_decimals mint expected_decimals) (\<lambda>_.
     bindr (ok_or (mint_authority mint) (terr FixedSupply)) (\<lambda>authority.
     bindr (validate_owner env program_id w authority owner_info signer_infos) (\<lambda>_.
     bindr (if n = 0 then
         bindr (check_account_owner program_id w mint_info) (\<lambda>_.
         check_account_owner program_id w destination_info)
       else Inr ()) (\<lambda>_.
     bindr (ok_or (checked_add (amount destination_account) n) (terr Overflow)) (\<lambda>destination_amount.
     bindr (ok_or (checked_add (mint_supply mint) n) (terr Overflow)) (\<lambda>new_supply.
     bindr (store_account env (destination_account\<lparr>amount := destination_amount\<rparr>) destination_info w) (\<lambda>w.
     store_mint env (mint\<lparr>mint_supply := new_supply\<rparr>) mint_info w)))))))))))))))"

definition process_burn ::
  "token_env \<Rightarrow> pubkey \<Rightarrow> world \<Rightarrow> account_info list \<Rightarrow> u64 \<Rightarrow> u8 option \<Rightarrow> failure + world"
where
  "process_burn env program_id w infos n expected_decimals =
     bindr (next_account_info infos) (\<lambda>(source_info, it).
     bindr (next_account_info it) (\<lambda>(mint_info, it).
     bindr (next_account_info it) (\<lambda>(authority_info, signer_infos).
     bindr (unpack_account env w source_info) (\<lambda>source_account.
     bindr (unpack_mint env w mint_info) (\<lambda>mint.
     bindr (require (\<not> is_frozen source_account) (terr AccountFrozen)) (\<lambda>_.
     bindr (require (\<not> is_native source_account) (terr NativeNotSupported)) (\<lambda>_.
     bindr (require (\<not> amount source_account < n) (terr InsufficientFunds)) (\<lambda>_.
     bindr (require (cmp_pubkeys (key mint_info) (acc_mint source_account)) (terr MintMismatch)) (\<lambda>_.
     bindr (check_decimals mint expected_decimals) (\<lambda>_.
     bindr (if \<not> is_owned_by_system_program_or_incinerator env source_account
       then authorize_spend env program_id w source_account n False authority_info signer_infos
       else Inr source_account) (\<lambda>source_account.
     bindr (if n = 0 then
         bindr (check_account_owner program_id w source_info) (\<lambda>_.
         check_account_owner program_id w mint_info)
       else Inr ()) (\<lambda>_.
     bindr (ok_or (checked_sub (amount source_account) n) (terr Overflow)) (\<lambda>source_amount.
     bindr (ok_or (checked_sub (mint_supply mint) n) (terr Overflow)) (\<lambda>new_supply.
     bindr (store_account env (source_account\<lparr>amount := source_amount\<rparr>) source_info w) (\<lambda>w.
     store_mint env (mint\<lparr>mint_supply := new_supply\<rparr>) mint_info w)))))))))))))))"

section \<open>Closing, freezing and syncing\<close>

definition delete_account :: "token_env \<Rightarrow> account_info \<Rightarrow> world \<Rightarrow> world" where
  "delete_account env i w =
     w\<lparr>accts := (accts w)(key i := (acct w i)\<lparr>account_program := system_program_id env, account_data := []\<rparr>)\<rparr>"

definition process_close_account :: "token_env \<Rightarrow> pubkey \<Rightarrow> world \<Rightarrow> account_info list \<Rightarrow> failure + world" where
  "process_close_account env program_id w infos =
     bindr (next_account_info infos) (\<lambda>(source_info, it).
     bindr (next_account_info it) (\<lambda>(destination_info, it).
     bindr (next_account_info it) (\<lambda>(authority_info, signer_infos).
     bindr (require (\<not> cmp_pubkeys (key source_info) (key destination_info)) (Err InvalidAccountData)) (\<lambda>_.
     bindr (unpack_account env w source_info) (\<lambda>source_account.
     bindr (require (\<not> (\<not> is_native source_account \<and> amount source_account \<noteq> 0)) (terr NonNativeHasBalance)) (\<lambda>_.
     let authority = (case close_authority source_account of Some k \<Rightarrow> k | None \<Rightarrow> acc_owner source_account) in
     bindr (if \<not> is_owned_by_system_program_or_incinerator env source_account
       then validate_owner env program_id w authority authority_info signer_infos
       else require (key destination_info = incinerator_id env) (Err InvalidAccountData)) (\<lambda>_.
     bindr (ok_or (checked_add (lamports (acct w destination_info)) (lamports (acct w source_info)))
       (terr Overflow)) (\<lambda>l.
     Inr (delete_account env source_info
       (set_lamports (set_lamports w destination_info l) source_info 0))))))))))"

definition process_toggle_freeze_account ::
  "token_env \<Rightarrow> pubkey \<Rightarrow> world \<Rightarrow> account_info list \<Rightarrow> bool \<Rightarrow> failure + world"
where
  "process_toggle_freeze_account env program_id w infos freeze =
     bindr (next_account_info infos) (\<lambda>(source_info, it).
     bindr (next_account_info it) (\<lambda>(mint_info, it).
     bindr (next_account_info it) (\<lambda>(authority_info, signer_infos).
     bindr (unpack_account env w source_info) (\<lambda>source_account.
     bindr (require (\<not> (freeze \<and> is_frozen source_account \<or> \<not> freeze \<and> \<not> is_frozen source_account))
       (terr InvalidState)) (\<lambda>_.
     bindr (require (\<not> is_native source_account) (terr NativeNotSupported)) (\<lambda>_.
     bindr (require (cmp_pubkeys (key mint_info) (acc_mint source_account)) (terr MintMismatch)) (\<lambda>_.
     bindr (unpack_mint env w mint_info) (\<lambda>mint.
     bindr (ok_or (freeze_authority mint) (terr MintCannotFreeze)) (\<lambda>authority.
     bindr (validate_owner env program_id w authority authority_info signer_infos) (\<lambda>_.
     store_account env (source_account\<lparr>state := (if freeze then Frozen else Initialized)\<rparr>)
       source_info w))))))))))"

definition process_sync_native :: "token_env \<Rightarrow> pubkey \<Rightarrow> world \<Rightarrow> account_info list \<Rightarrow> failure + world" where
  "process_sync_native env program_id w infos =
     bindr (next_account_info infos) (\<lambda>(native_info, _).
     bindr (check_account_owner program_id w native_info) (\<lambda>_.
     bindr (unpack_account env w native_info) (\<lambda>native_account.
     bindr (ok_or (native_reserve native_account) (terr NonNativeNotSupported)) (\<lambda>reserve.
     bindr (ok_or (checked_sub (lamports (acct w native_info)) reserve) (terr Overflow)) (\<lambda>new_amount.
     bindr (require (\<not> new_amount < amount native_account) (terr InvalidState)) (\<lambda>_.
     store_account env (native_account\<lparr>amount := new_amount\<rparr>) native_info w))))))"

section \<open>Queries\<close>

definition query_mint :: "token_env \<Rightarrow> pubkey \<Rightarrow> world \<Rightarrow> account_info list \<Rightarrow> failure + mint" where
  "query_mint env program_id w infos =
     bindr (next_account_info infos) (\<lambda>(mint_info, _).
     bindr (check_account_owner program_id w mint_info) (\<lambda>_.
     map_err (terr InvalidMint) (unpack_mint env w mint_info)))"

definition process_get_account_data_size :: "token_env \<Rightarrow> pubkey \<Rightarrow> world \<Rightarrow> account_info list \<Rightarrow> failure + world" where
  "process_get_account_data_size env program_id w infos =
     bindr (query_mint env program_id w infos) (\<lambda>_.
     Inr (set_return_data w (to_le_bytes (of_nat ACCOUNT_LEN :: u64))))"

definition process_amount_to_ui_amount ::
  "token_env \<Rightarrow> pubkey \<Rightarrow> world \<Rightarrow> account_info list \<Rightarrow> u64 \<Rightarrow> failure + world"
where
  "process_amount_to_ui_amount env program_id w infos n =
     bindr (query_mint env program_id w infos) (\<lambda>mint.
     Inr (set_return_data w (amount_to_ui_amount_string_trimmed n (decimals mint))))"

definition process_ui_amount_to_amount ::
  "token_env \<Rightarrow> pubkey \<Rightarrow> world \<Rightarrow> account_info list \<Rightarrow> u8 list \<Rightarrow> failure + world"
where
  "process_ui_amount_to_amount env program_id w infos ui_amount =
     bindr (query_mint env program_id w infos) (\<lambda>mint.
     bindr (try_ui_amount_into_amount ui_amount (decimals mint)) (\<lambda>n.
     Inr (set_return_data w (to_le_bytes n))))"

section \<open>Dispatch\<close>

definition process_instruction ::
  "token_env \<Rightarrow> pubkey \<Rightarrow> world \<Rightarrow> account_info list \<Rightarrow> token_instruction \<Rightarrow> failure + world"
where
  "process_instruction env program_id w infos i = (case i of
     InitializeMint d m f \<Rightarrow> process_initialize_mint env w infos d m f
   | InitializeMint2 d m f \<Rightarrow> process_initialize_mint2 env w infos d m f
   | InitializeAccount \<Rightarrow> process_initialize_account env program_id w infos
   | InitializeAccount2 owner \<Rightarrow> process_initialize_account2 env program_id w infos owner
   | InitializeAccount3 owner \<Rightarrow> process_initialize_account3 env program_id w infos owner
   | InitializeMultisig m \<Rightarrow> process_initialize_multisig env w infos m
   | InitializeMultisig2 m \<Rightarrow> process_initialize_multisig2 env w infos m
   | Transfer n \<Rightarrow> process_transfer env program_id w infos n None
   | Approve n \<Rightarrow> process_approve env program_id w infos n None
   | Revoke \<Rightarrow> process_revoke env program_id w infos
   | SetAuthority t k \<Rightarrow> process_set_authority env program_id w infos t k
   | MintTo n \<Rightarrow> process_mint_to env program_id w infos n None
   | Burn n \<Rightarrow> process_burn env program_id w infos n None
   | CloseAccount \<Rightarrow> process_close_account env program_id w infos
   | FreezeAccount \<Rightarrow> process_toggle_freeze_account env program_id w infos True
   | ThawAccount \<Rightarrow> process_toggle_freeze_account env program_id w infos False
   | TransferChecked n d \<Rightarrow> process_transfer env program_id w infos n (Some d)
   | ApproveChecked n d \<Rightarrow> process_approve env program_id w infos n (Some d)
   | MintToChecked n d \<Rightarrow> process_mint_to env program_id w infos n (Some d)
   | BurnChecked n d \<Rightarrow> process_burn env program_id w infos n (Some d)
   | SyncNative \<Rightarrow> process_sync_native env program_id w infos
   | GetAccountDataSize \<Rightarrow> process_get_account_data_size env program_id w infos
   | InitializeImmutableOwner \<Rightarrow> process_initialize_immutable_owner env w infos
   | AmountToUiAmount n \<Rightarrow> process_amount_to_ui_amount env program_id w infos n
   | UiAmountToAmount s \<Rightarrow> process_ui_amount_to_amount env program_id w infos s)"

definition process :: "token_env \<Rightarrow> pubkey \<Rightarrow> world \<Rightarrow> account_info list \<Rightarrow> u8 list \<Rightarrow> failure + world" where
  "process env program_id w infos input =
     bindr (unpack input) (\<lambda>i. process_instruction env program_id w infos i)"

end
