(* ===== verification/Token_Ledger.thy ===== *)
theory Token_Ledger
  imports Token_State
begin

text \<open>
  What the token program promises, without bytes, signatures or account lists: a ledger of token
  accounts and mints with the lamports of every account, the steps it may take, and the invariant
  that the supply of a mint is the sum of the balances held in it and that wrapped lamports are backed.
\<close>

section \<open>The ledger\<close>

record ledger =
  toks :: "pubkey \<Rightarrow> token_account option"
  mints :: "pubkey \<Rightarrow> mint option"
  lams :: "pubkey \<Rightarrow> nat"

definition balance :: "(pubkey \<Rightarrow> token_account option) \<Rightarrow> pubkey \<Rightarrow> pubkey \<Rightarrow> nat" where
  "balance T m k = (case T k of Some a \<Rightarrow> if acc_mint a = m then unat (amount a) else 0 | None \<Rightarrow> 0)"

definition held :: "(pubkey \<Rightarrow> token_account option) \<Rightarrow> pubkey \<Rightarrow> nat" where
  "held T m = (\<Sum>k \<in> UNIV. balance T m k)"

text \<open>A token account and the ledger around it: wrapped lamports are backed, other accounts have a mint.\<close>

definition account_ok :: "pubkey \<Rightarrow> ledger \<Rightarrow> pubkey \<Rightarrow> token_account \<Rightarrow> bool" where
  "account_ok native l k a \<longleftrightarrow>
     (if acc_mint a = native
      then \<exists>r. native_reserve a = Some r \<and> unat r + unat (amount a) \<le> lams l k
      else native_reserve a = None \<and> mints l (acc_mint a) \<noteq> None)"

definition ledger_ok :: "pubkey \<Rightarrow> ledger \<Rightarrow> bool" where
  "ledger_ok native l \<longleftrightarrow>
     (\<forall>k a. toks l k = Some a \<longrightarrow> account_ok native l k a) \<and>
     (\<forall>m mi. mints l m = Some mi \<and> m \<noteq> native \<longrightarrow> held (toks l) m = unat (mint_supply mi))"

section \<open>Its steps\<close>

definition same_holding :: "token_account \<Rightarrow> token_account \<Rightarrow> bool" where
  "same_holding a b \<longleftrightarrow> acc_mint a = acc_mint b \<and> amount a = amount b \<and> native_reserve a = native_reserve b"

inductive ledger_step :: "pubkey \<Rightarrow> ledger \<Rightarrow> ledger \<Rightarrow> bool" for native where
  fund: "ledger_step native l (l\<lparr>lams := L\<rparr>)"
    if "\<And>k. toks l k \<noteq> None \<Longrightarrow> lams l k \<le> L k"
| adjust: "ledger_step native l (l\<lparr>toks := (toks l)(k \<mapsto> b)\<rparr>)"
    if "toks l k = Some a" "same_holding b a"
| adjust_mint: "ledger_step native l (l\<lparr>mints := (mints l)(k \<mapsto> m')\<rparr>)"
    if "mints l k = Some m" "mint_supply m' = mint_supply m"
| open_account: "ledger_step native l (l\<lparr>toks := (toks l)(k \<mapsto> a)\<rparr>)"
    if "toks l k = None" "acc_mint a \<noteq> native" "mints l (acc_mint a) \<noteq> None" "amount a = 0" "native_reserve a = None"
| open_native: "ledger_step native l (l\<lparr>toks := (toks l)(k \<mapsto> a)\<rparr>)"
    if "toks l k = None" "acc_mint a = native" "native_reserve a = Some r" "unat r + unat (amount a) = lams l k"
| new_mint: "ledger_step native l (l\<lparr>mints := (mints l)(k \<mapsto> m)\<rparr>)"
    if "mints l k = None" "mint_supply m = 0"
| move: "ledger_step native l (l\<lparr>toks := (toks l)(j \<mapsto> a', k \<mapsto> b'), lams := L\<rparr>)"
    if "j \<noteq> k" "toks l j = Some a" "toks l k = Some b" "acc_mint a = acc_mint b"
      "same_holding (a\<lparr>amount := amount a'\<rparr>) a'" "same_holding (b\<lparr>amount := amount b'\<rparr>) b'"
      "unat (amount a) = unat (amount a') + n" "unat (amount b') = unat (amount b) + n"
      "L = (if native_reserve a \<noteq> None then (lams l)(j := lams l j - n, k := lams l k + n) else lams l)"
      "native_reserve a \<noteq> None \<Longrightarrow> n \<le> lams l j"
| issue: "ledger_step native l (l\<lparr>toks := (toks l)(k \<mapsto> a'), mints := (mints l)(acc_mint a \<mapsto> m')\<rparr>)"
    if "toks l k = Some a" "native_reserve a = None" "mints l (acc_mint a) = Some m"
      "same_holding (a\<lparr>amount := amount a'\<rparr>) a'" "unat (amount a') = unat (amount a) + n"
      "unat (mint_supply m') = unat (mint_supply m) + n"
| retire: "ledger_step native l (l\<lparr>toks := (toks l)(k \<mapsto> a'), mints := (mints l)(acc_mint a \<mapsto> m')\<rparr>)"
    if "toks l k = Some a" "native_reserve a = None" "mints l (acc_mint a) = Some m"
      "same_holding (a\<lparr>amount := amount a'\<rparr>) a'" "unat (amount a) = unat (amount a') + n"
      "unat (mint_supply m) = unat (mint_supply m') + n"
| close: "ledger_step native l (l\<lparr>toks := (toks l)(k := None), lams := (lams l)(d := lams l d + lams l k, k := 0)\<rparr>)"
    if "d \<noteq> k" "toks l k = Some a" "native_reserve a \<noteq> None \<or> amount a = 0"
| sync: "ledger_step native l (l\<lparr>toks := (toks l)(k \<mapsto> a\<lparr>amount := n\<rparr>)\<rparr>)"
    if "toks l k = Some a" "native_reserve a = Some r" "unat r + unat n = lams l k"

section \<open>The invariant\<close>

lemma sum_change_one:
  fixes f g :: "pubkey \<Rightarrow> nat"
  assumes "\<And>k. k \<noteq> j \<Longrightarrow> f k = g k"
  shows "sum f UNIV + g j = sum g UNIV + f j"
proof -
  have "sum f (UNIV - {j}) = sum g (UNIV - {j})" using assms by (intro sum.cong) auto
  then show ?thesis using sum.remove [of UNIV j f] sum.remove [of UNIV j g] by simp
qed

lemma held_change_one:
  assumes "\<And>k. k \<noteq> j \<Longrightarrow> T' k = T k"
  shows "held T' m + balance T m j = held T m + balance T' m j"
  unfolding held_def by (rule sum_change_one) (simp add: balance_def assms)

lemma held_upd: "held (T(j := x)) m + balance T m j = held T m + balance (T(j := x)) m j"
  by (rule held_change_one) simp

lemma balance_upd [simp]:
  "balance (T(j := None)) m j = 0"
  "balance (T(j := Some a)) m j = (if acc_mint a = m then unat (amount a) else 0)"
  "k \<noteq> j \<Longrightarrow> balance (T(j := x)) m k = balance T m k"
  by (simp_all add: balance_def)

lemma balance_eq:
  "T j = Some a \<Longrightarrow> balance T m j = (if acc_mint a = m then unat (amount a) else 0)"
  "T j = None \<Longrightarrow> balance T m j = 0"
  by (simp_all add: balance_def)

lemma held_none:
  assumes "ledger_ok native l" "mints l m = None" "m \<noteq> native"
  shows "held (toks l) m = 0"
proof -
  have "balance (toks l) m k = 0" for k
    using assms by (auto simp: ledger_ok_def account_ok_def balance_def split: option.split)
  then show ?thesis by (simp add: held_def)
qed

lemma ledger_okI:
  assumes "\<And>k a. toks l k = Some a \<Longrightarrow> account_ok native l k a"
    and "\<And>m mi. mints l m = Some mi \<Longrightarrow> m \<noteq> native \<Longrightarrow> held (toks l) m = unat (mint_supply mi)"
  shows "ledger_ok native l"
  using assms by (auto simp: ledger_ok_def)

lemma ledger_okD:
  assumes "ledger_ok native l"
  shows "toks l k = Some a \<Longrightarrow> account_ok native l k a"
    and "mints l m = Some mi \<Longrightarrow> m \<noteq> native \<Longrightarrow> held (toks l) m = unat (mint_supply mi)"
  using assms by (auto simp: ledger_ok_def)

lemma held_same:
  assumes "T j = Some a" "acc_mint b = acc_mint a" "amount b = amount a"
  shows "held (T(j \<mapsto> b)) m = held T m"
  using held_upd [of T j "Some b" m] assms by (simp add: balance_eq split: if_splits)

lemma held_zero:
  assumes "balance T m j = 0" "acc_mint b = m \<Longrightarrow> amount b = 0"
  shows "held (T(j \<mapsto> b)) m = held T m"
  using held_upd [of T j "Some b" m] assms by (simp split: if_splits)

lemma held_move:
  assumes "j \<noteq> k" "T j = Some a" "T k = Some b" "acc_mint a = acc_mint b" "acc_mint a' = acc_mint a"
    "acc_mint b' = acc_mint b" "unat (amount a) = unat (amount a') + n" "unat (amount b') = unat (amount b) + n"
  shows "held (T(j \<mapsto> a', k \<mapsto> b')) m = held T m"
  using held_upd [of "T(j \<mapsto> a')" k "Some b'" m] held_upd [of T j "Some a'" m] assms
  by (simp add: balance_eq split: if_splits)

lemma ledger_ok_adjust:
  assumes ok: "ledger_ok native l" and t: "toks l k = Some a" "same_holding b a"
  shows "ledger_ok native (l\<lparr>toks := (toks l)(k \<mapsto> b)\<rparr>)"
proof (rule ledger_okI)
  fix j c assume "toks (l\<lparr>toks := (toks l)(k \<mapsto> b)\<rparr>) j = Some c"
  then show "account_ok native (l\<lparr>toks := (toks l)(k \<mapsto> b)\<rparr>) j c"
    using ledger_okD(1) [OF ok t(1)] ledger_okD(1) [OF ok, of j c] t(2)
    by (auto simp: account_ok_def same_holding_def split: if_splits)
next
  fix m mi assume "mints (l\<lparr>toks := (toks l)(k \<mapsto> b)\<rparr>) m = Some mi" "m \<noteq> native"
  then show "held (toks (l\<lparr>toks := (toks l)(k \<mapsto> b)\<rparr>)) m = unat (mint_supply mi)"
    using ledger_okD(2) [OF ok] held_same [of "toks l" k a b m] t by (simp add: same_holding_def)
qed

lemma ledger_ok_open:
  assumes ok: "ledger_ok native l" and n: "toks l k = None" and a: "account_ok native l k a"
    and z: "acc_mint a \<noteq> native \<Longrightarrow> amount a = 0"
  shows "ledger_ok native (l\<lparr>toks := (toks l)(k \<mapsto> a)\<rparr>)"
proof (rule ledger_okI)
  fix j c assume "toks (l\<lparr>toks := (toks l)(k \<mapsto> a)\<rparr>) j = Some c"
  then show "account_ok native (l\<lparr>toks := (toks l)(k \<mapsto> a)\<rparr>) j c"
    using a ledger_okD(1) [OF ok, of j c] by (auto simp: account_ok_def split: if_splits)
next
  fix m mi assume "mints (l\<lparr>toks := (toks l)(k \<mapsto> a)\<rparr>) m = Some mi" "m \<noteq> native"
  then show "held (toks (l\<lparr>toks := (toks l)(k \<mapsto> a)\<rparr>)) m = unat (mint_supply mi)"
    using ledger_okD(2) [OF ok] held_zero [of "toks l" m k a] n z by (auto simp: balance_eq)
qed

lemma ledger_ok_mint:
  assumes ok: "ledger_ok native l"
    and m': "unat (mint_supply m') = (case mints l k of Some m \<Rightarrow> unat (mint_supply m) | None \<Rightarrow> 0)"
  shows "ledger_ok native (l\<lparr>mints := (mints l)(k \<mapsto> m')\<rparr>)"
proof (rule ledger_okI)
  fix j c assume "toks (l\<lparr>mints := (mints l)(k \<mapsto> m')\<rparr>) j = Some c"
  then show "account_ok native (l\<lparr>mints := (mints l)(k \<mapsto> m')\<rparr>) j c"
    using ledger_okD(1) [OF ok, of j c] by (auto simp: account_ok_def split: if_splits)
next
  fix m mi assume "mints (l\<lparr>mints := (mints l)(k \<mapsto> m')\<rparr>) m = Some mi" "m \<noteq> native"
  then show "held (toks (l\<lparr>mints := (mints l)(k \<mapsto> m')\<rparr>)) m = unat (mint_supply mi)"
    using ledger_okD(2) [OF ok] held_none [OF ok] m' by (auto split: if_splits option.splits)
qed

lemma ledger_ok_fund:
  assumes ok: "ledger_ok native l" and L: "\<And>k. toks l k \<noteq> None \<Longrightarrow> lams l k \<le> L k"
  shows "ledger_ok native (l\<lparr>lams := L\<rparr>)"
proof (rule ledger_okI)
  fix j c assume c: "toks (l\<lparr>lams := L\<rparr>) j = Some c"
  then show "account_ok native (l\<lparr>lams := L\<rparr>) j c"
    using ledger_okD(1) [OF ok, of j c] L [of j] by (force simp: account_ok_def)
qed (simp add: ledger_okD(2) [OF ok])

lemma ledger_ok_move:
  assumes ok: "ledger_ok native l" and jk: "j \<noteq> k" "toks l j = Some a" "toks l k = Some b" "acc_mint a = acc_mint b"
    and a': "same_holding (a\<lparr>amount := amount a'\<rparr>) a'" "unat (amount a) = unat (amount a') + n"
    and b': "same_holding (b\<lparr>amount := amount b'\<rparr>) b'" "unat (amount b') = unat (amount b) + n"
    and L: "L = (if native_reserve a \<noteq> None then (lams l)(j := lams l j - n, k := lams l k + n) else lams l)"
  shows "ledger_ok native (l\<lparr>toks := (toks l)(j \<mapsto> a', k \<mapsto> b'), lams := L\<rparr>)"
proof (rule ledger_okI)
  fix i c assume c: "toks (l\<lparr>toks := (toks l)(j \<mapsto> a', k \<mapsto> b'), lams := L\<rparr>) i = Some c"
  note A = ledger_okD(1) [OF ok jk(2)] and B = ledger_okD(1) [OF ok jk(3)] and C = ledger_okD(1) [OF ok, of i c]
  consider "i = j" "c = a'" | "i = k" "c = b'" | "i \<noteq> j" "i \<noteq> k" "toks l i = Some c"
    using c jk(1) by (auto split: if_splits)
  then show "account_ok native (l\<lparr>toks := (toks l)(j \<mapsto> a', k \<mapsto> b'), lams := L\<rparr>) i c"
  proof cases
    case 1 then show ?thesis using A a' L jk by (auto simp: account_ok_def same_holding_def split: if_splits)
  next
    case 2 then show ?thesis using A B b' L jk by (auto simp: account_ok_def same_holding_def split: if_splits)
  next
    case 3 then show ?thesis using C L by (auto simp: account_ok_def)
  qed
next
  fix m mi assume "mints (l\<lparr>toks := (toks l)(j \<mapsto> a', k \<mapsto> b'), lams := L\<rparr>) m = Some mi" "m \<noteq> native"
  then show "held (toks (l\<lparr>toks := (toks l)(j \<mapsto> a', k \<mapsto> b'), lams := L\<rparr>)) m = unat (mint_supply mi)"
    using ledger_okD(2) [OF ok] held_move [OF jk, of a' b' n m] a' b' by (simp add: same_holding_def)
qed

lemma ledger_ok_issue:
  assumes ok: "ledger_ok native l" and k: "toks l k = Some a" "native_reserve a = None" "mints l (acc_mint a) = Some m"
    and a': "same_holding (a\<lparr>amount := amount a'\<rparr>) a'"
    and n: "unat (amount a') + unat (mint_supply m) = unat (amount a) + unat (mint_supply m')"
  shows "ledger_ok native (l\<lparr>toks := (toks l)(k \<mapsto> a'), mints := (mints l)(acc_mint a \<mapsto> m')\<rparr>)"
proof (rule ledger_okI)
  fix i c assume "toks (l\<lparr>toks := (toks l)(k \<mapsto> a'), mints := (mints l)(acc_mint a \<mapsto> m')\<rparr>) i = Some c"
  then show "account_ok native (l\<lparr>toks := (toks l)(k \<mapsto> a'), mints := (mints l)(acc_mint a \<mapsto> m')\<rparr>) i c"
    using ledger_okD(1) [OF ok k(1)] ledger_okD(1) [OF ok, of i c] k a'
    by (auto simp: account_ok_def same_holding_def split: if_splits)
next
  fix x mi assume x: "mints (l\<lparr>toks := (toks l)(k \<mapsto> a'), mints := (mints l)(acc_mint a \<mapsto> m')\<rparr>) x = Some mi" "x \<noteq> native"
  have "held ((toks l)(k \<mapsto> a')) x + balance (toks l) x k = held (toks l) x + balance ((toks l)(k \<mapsto> a')) x k"
    by (rule held_upd)
  then show "held (toks (l\<lparr>toks := (toks l)(k \<mapsto> a'), mints := (mints l)(acc_mint a \<mapsto> m')\<rparr>)) x = unat (mint_supply mi)"
    using ledger_okD(2) [OF ok, of x] x k a' n
    by (auto simp: balance_eq same_holding_def split: if_splits)
qed

lemma ledger_ok_close:
  assumes ok: "ledger_ok native l" and k: "d \<noteq> k" "toks l k = Some a" "native_reserve a \<noteq> None \<or> amount a = 0"
  shows "ledger_ok native (l\<lparr>toks := (toks l)(k := None), lams := (lams l)(d := lams l d + lams l k, k := 0)\<rparr>)"
proof (rule ledger_okI)
  let ?l = "l\<lparr>toks := (toks l)(k := None), lams := (lams l)(d := lams l d + lams l k, k := 0)\<rparr>"
  fix i c assume "toks ?l i = Some c"
  then have "i \<noteq> k" "toks l i = Some c" by (auto split: if_splits)
  then show "account_ok native ?l i c"
    using ledger_okD(1) [OF ok, of i c] k(1) by (force simp: account_ok_def)
next
  let ?l = "l\<lparr>toks := (toks l)(k := None), lams := (lams l)(d := lams l d + lams l k, k := 0)\<rparr>"
  fix m mi assume m: "mints ?l m = Some mi" "m \<noteq> native"
  have "balance (toks l) m k = 0"
    using k(3) m(2) ledger_okD(1) [OF ok k(2)] by (auto simp: balance_eq(1) [of "toks l" k a, OF k(2)] account_ok_def split: if_splits)
  then show "held (toks ?l) m = unat (mint_supply mi)"
    using ledger_okD(2) [OF ok] m held_upd [of "toks l" k None m] by simp
qed

lemma ledger_ok_sync:
  assumes ok: "ledger_ok native l" and k: "toks l k = Some a" "native_reserve a = Some r" "unat r + unat n = lams l k"
  shows "ledger_ok native (l\<lparr>toks := (toks l)(k \<mapsto> a\<lparr>amount := n\<rparr>)\<rparr>)"
proof (rule ledger_okI)
  fix i c assume "toks (l\<lparr>toks := (toks l)(k \<mapsto> a\<lparr>amount := n\<rparr>)\<rparr>) i = Some c"
  then show "account_ok native (l\<lparr>toks := (toks l)(k \<mapsto> a\<lparr>amount := n\<rparr>)\<rparr>) i c"
    using ledger_okD(1) [OF ok k(1)] ledger_okD(1) [OF ok, of i c] k(2,3)
    by (auto simp: account_ok_def split: if_splits)
next
  fix m mi assume m: "mints (l\<lparr>toks := (toks l)(k \<mapsto> a\<lparr>amount := n\<rparr>)\<rparr>) m = Some mi" "m \<noteq> native"
  have "acc_mint a = native" using ledger_okD(1) [OF ok k(1)] k(2) by (auto simp: account_ok_def split: if_splits)
  then show "held (toks (l\<lparr>toks := (toks l)(k \<mapsto> a\<lparr>amount := n\<rparr>)\<rparr>)) m = unat (mint_supply mi)"
    using m ledger_okD(2) [OF ok] held_upd [of "toks l" k "Some (a\<lparr>amount := n\<rparr>)" m] by (simp add: balance_eq(1) [of "toks l" k a, OF k(1)])
qed

lemma ledger_step_ok: "ledger_step native l l' \<Longrightarrow> ledger_ok native l \<Longrightarrow> ledger_ok native l'"
proof (induction rule: ledger_step.induct)
  case (fund l L) then show ?case by (intro ledger_ok_fund) auto
next
  case adjust then show ?case by (intro ledger_ok_adjust)
next
  case adjust_mint then show ?case by (intro ledger_ok_mint) auto
next
  case open_account then show ?case by (intro ledger_ok_open) (auto simp: account_ok_def)
next
  case open_native then show ?case by (intro ledger_ok_open) (auto simp: account_ok_def)
next
  case new_mint then show ?case by (intro ledger_ok_mint) auto
next
  case move then show ?case by (intro ledger_ok_move)
next
  case issue then show ?case by (intro ledger_ok_issue) auto
next
  case retire then show ?case by (intro ledger_ok_issue) auto
next
  case close then show ?case by (intro ledger_ok_close)
next
  case sync then show ?case by (intro ledger_ok_sync)
qed

end
