(* ===== verification/Token_Refinement.thy ===== *)
theory Token_Refinement
  imports Token_Processor Token_Ledger
begin

text \<open>
  The processor of \<^verbatim>\<open>src/spl-token/program/src/processor.rs\<close> keeps the promises of the ledger: every
  instruction that succeeds, and whose writes the runtime accepts, is a step of the ledger that the
  accounts of the program stand for.
\<close>

section \<open>The ledger the accounts stand for\<close>

definition account_of :: "u8 list \<Rightarrow> token_account option" where
  "account_of d = (if length d = ACCOUNT_LEN then
     (case account_unpack_from_slice d of
        Inr a \<Rightarrow> if account_is_initialized a then Some a else None | Inl _ \<Rightarrow> None) else None)"

definition mint_of :: "u8 list \<Rightarrow> mint option" where
  "mint_of d = (if length d = MINT_LEN then
     (case mint_unpack_from_slice d of
        Inr m \<Rightarrow> if mint_is_initialized m then Some m else None | Inl _ \<Rightarrow> None) else None)"

definition abs_ledger :: "pubkey \<Rightarrow> world \<Rightarrow> ledger" where
  "abs_ledger pid w = \<lparr>
     toks = (\<lambda>k. if account_program (accts w k) = pid then account_of (account_data (accts w k)) else None),
     mints = (\<lambda>k. if account_program (accts w k) = pid then mint_of (account_data (accts w k)) else None),
     lams = (\<lambda>k. unat (lamports (accts w k)))\<rparr>"

text \<open>
  What the runtime enforces on an instruction of program \<open>pid\<close>: accounts of other programs keep their
  data and their program, and lose no lamports.
\<close>

definition runtime_accepts :: "pubkey \<Rightarrow> world \<Rightarrow> world \<Rightarrow> bool" where
  "runtime_accepts pid w w' \<longleftrightarrow> (\<forall>k. account_program (accts w k) \<noteq> pid \<longrightarrow>
     account_data (accts w' k) = account_data (accts w k) \<and>
     account_program (accts w' k) = account_program (accts w k) \<and>
     lamports (accts w k) \<le> lamports (accts w' k))"

text \<open>Mints that are not initialized yet have no supply.\<close>

definition fresh_mints_empty :: "pubkey \<Rightarrow> world \<Rightarrow> bool" where
  "fresh_mints_empty pid w \<longleftrightarrow> (\<forall>k m. account_program (accts w k) = pid \<and>
     length (account_data (accts w k)) = MINT_LEN \<and>
     mint_unpack_from_slice (account_data (accts w k)) = Inr m \<and> \<not> mint_is_initialized m \<longrightarrow>
     mint_supply m = 0)"

text \<open>Multisignature accounts name at most as many signers as they have room for.\<close>

definition quorum_ok :: "u8 list \<Rightarrow> bool" where
  "quorum_ok d \<longleftrightarrow> (\<forall>ms. length d = MULTISIG_LEN \<and> multisig_unpack_from_slice d = Inr ms \<longrightarrow>
     unat (ms_n ms) \<le> MAX_SIGNERS)"

definition quorums_ok :: "pubkey \<Rightarrow> world \<Rightarrow> bool" where
  "quorums_ok pid w \<longleftrightarrow> (\<forall>k. account_program (accts w k) = pid \<longrightarrow> quorum_ok (account_data (accts w k)))"

text \<open>
  Every account keeps its data and program, or holds neither an uninitialized mint nor an oversized
  multisignature account afterwards.
\<close>

definition writes_ok :: "world \<Rightarrow> world \<Rightarrow> bool" where
  "writes_ok w w' \<longleftrightarrow> (\<forall>k. (account_data (accts w' k) = account_data (accts w k) \<and>
       account_program (accts w' k) = account_program (accts w k)) \<or>
     (length (account_data (accts w' k)) \<noteq> MINT_LEN \<or> mint_of (account_data (accts w' k)) \<noteq> None) \<and>
     quorum_ok (account_data (accts w' k)))"

lemma fresh_mints_empty_writes:
  "fresh_mints_empty pid w \<Longrightarrow> writes_ok w w' \<Longrightarrow> fresh_mints_empty pid w'"
proof -
  have i: "mint_is_initialized m" if "mint_of d \<noteq> None" "mint_unpack_from_slice d = Inr m" for d m
    using that by (auto simp: mint_of_def split: if_splits)
  show "fresh_mints_empty pid w \<Longrightarrow> writes_ok w w' \<Longrightarrow> fresh_mints_empty pid w'"
    unfolding fresh_mints_empty_def writes_ok_def using i by metis
qed

lemma quorums_ok_writes: "quorums_ok pid w \<Longrightarrow> writes_ok w w' \<Longrightarrow> quorums_ok pid w'"
  unfolding quorums_ok_def writes_ok_def by metis

section \<open>Reading and writing through the Pack methods\<close>

lemma lens [simp]: "ACCOUNT_LEN = 165" "MINT_LEN = 82" "MULTISIG_LEN = 355" "MAX_SIGNERS = 11"
  by (simp_all add: ACCOUNT_LEN_def MINT_LEN_def MULTISIG_LEN_def MAX_SIGNERS_def)

lemma unpack_account_iff:
  "env_ok env \<Longrightarrow> m_unpack (account_pack env) d = Inr a \<longleftrightarrow> account_of d = Some a"
  by (auto simp: env_ok_def pack_trait_def Let_def account_of_def result_simps split: sum.splits if_splits)

lemma unpack_mint_iff:
  "env_ok env \<Longrightarrow> m_unpack (mint_pack env) d = Inr m \<longleftrightarrow> mint_of d = Some m"
  by (auto simp: env_ok_def pack_trait_def Let_def mint_of_def result_simps split: sum.splits if_splits)

lemma account_of_len: "account_of d = Some a \<Longrightarrow> length d = 165 \<and> account_is_initialized a"
  by (auto simp: account_of_def split: if_splits sum.splits)

lemma mint_of_len: "mint_of d = Some m \<Longrightarrow> length d = 82 \<and> mint_is_initialized m"
  by (auto simp: mint_of_def split: if_splits sum.splits)

lemma store_accountE:
  assumes "store_account env a i w = Inr w'" "env_ok env"
  obtains d where "w' = set_data w i d" "length (account_data (acct w i)) = 165" "length d = 165"
    "account_of d = (if account_is_initialized a then Some a else None)" "mint_of d = None"
proof -
  from assms obtain d where d: "length (account_data (acct w i)) = 165"
      "account_pack_into_slice a (account_data (acct w i)) = Inr d" "w' = set_data w i d"
    by (auto simp: store_account_def env_ok_def pack_trait_def result_simps Let_def)
  then have "length d = 165" "account_unpack_from_slice d = Inr a"
    using account_unpack_pack [of "account_data (acct w i)" a] by auto
  with d that [of d] show thesis by (simp add: account_of_def mint_of_def)
qed

lemma store_mintE:
  assumes "store_mint env m i w = Inr w'" "env_ok env"
  obtains d where "w' = set_data w i d" "length (account_data (acct w i)) = 82" "length d = 82"
    "mint_of d = (if mint_is_initialized m then Some m else None)" "account_of d = None"
proof -
  from assms obtain d where d: "length (account_data (acct w i)) = 82"
      "mint_pack_into_slice m (account_data (acct w i)) = Inr d" "w' = set_data w i d"
    by (auto simp: store_mint_def env_ok_def pack_trait_def result_simps Let_def)
  then have "length d = 82" "mint_unpack_from_slice d = Inr m"
    using mint_unpack_pack [of "account_data (acct w i)" m] by auto
  with d that [of d] show thesis by (simp add: account_of_def mint_of_def)
qed

lemma accts_set_data [simp]:
  "accts (set_data w i d) k = (if k = key i then (accts w k)\<lparr>account_data := d\<rparr> else accts w k)"
  by (simp add: set_data_def)

lemma accts_set_lamports [simp]:
  "accts (set_lamports w i n) k = (if k = key i then (accts w k)\<lparr>lamports := n\<rparr> else accts w k)"
  by (simp add: set_lamports_def)

lemma accts_set_return_data [simp]: "accts (set_return_data w d) = accts w"
  by (simp add: set_return_data_def)

section \<open>Single writes\<close>

lemma abs_eqI:
  assumes "\<And>k. account_program (accts w' k) = pid \<Longrightarrow> account_program (accts w k) = pid \<Longrightarrow>
      account_of (account_data (accts w' k)) = account_of (account_data (accts w k)) \<and>
      mint_of (account_data (accts w' k)) = mint_of (account_data (accts w k))"
    "\<And>k. account_program (accts w' k) = account_program (accts w k)"
    "\<And>k. lamports (accts w' k) = lamports (accts w k)"
  shows "abs_ledger pid w' = abs_ledger pid w"
  using assms by (auto simp: abs_ledger_def)

lemma ledger_step_refl: "ledger_step native l l"
  using ledger_step.fund [of l "lams l" native] by simp

lemma abs_set_data:
  "abs_ledger pid (set_data w i d) = (abs_ledger pid w)\<lparr>
     toks := (toks (abs_ledger pid w))(key i := if account_program (acct w i) = pid then account_of d else None),
     mints := (mints (abs_ledger pid w))(key i := if account_program (acct w i) = pid then mint_of d else None)\<rparr>"
  by (auto simp: abs_ledger_def fun_eq_iff)

lemma abs_set_lamports:
  "abs_ledger pid (set_lamports w i n) = (abs_ledger pid w)\<lparr>lams := (lams (abs_ledger pid w))(key i := unat n)\<rparr>"
  by (auto simp: abs_ledger_def fun_eq_iff)

lemma toks_abs:
  "toks (abs_ledger pid w) k = Some a \<longleftrightarrow> account_program (accts w k) = pid \<and> account_of (account_data (accts w k)) = Some a"
  "mints (abs_ledger pid w) k = Some m \<longleftrightarrow> account_program (accts w k) = pid \<and> mint_of (account_data (accts w k)) = Some m"
  "lams (abs_ledger pid w) k = unat (lamports (accts w k))"
  by (auto simp: abs_ledger_def)

lemma toks_abs_None:
  "account_of (account_data (accts w k)) = None \<Longrightarrow> toks (abs_ledger pid w) k = None"
  "mint_of (account_data (accts w k)) = None \<Longrightarrow> mints (abs_ledger pid w) k = None"
  "account_program (accts w k) \<noteq> pid \<Longrightarrow> toks (abs_ledger pid w) k = None"
  "account_program (accts w k) \<noteq> pid \<Longrightarrow> mints (abs_ledger pid w) k = None"
  by (simp_all add: abs_ledger_def)

lemma of_len_None: "length d \<noteq> 165 \<Longrightarrow> account_of d = None" "length d \<noteq> 82 \<Longrightarrow> mint_of d = None"
  by (simp_all add: account_of_def mint_of_def)

text \<open>The accounts after a token account, or a mint, of the program has been stored.\<close>

lemma abs_store_account:
  assumes "store_account env a i w = Inr w'" "env_ok env" "account_program (acct w i) = pid" "account_is_initialized a"
  shows "abs_ledger pid w' = (abs_ledger pid w)\<lparr>toks := (toks (abs_ledger pid w))(key i \<mapsto> a)\<rparr>"
proof -
  from store_accountE [OF assms(1,2)] obtain d where d: "w' = set_data w i d"
    "length (account_data (acct w i)) = 165" "account_of d = Some a" "mint_of d = None"
    using assms(4) by (metis (full_types))
  have "mints (abs_ledger pid w) (key i) = None" using d(2) by (intro toks_abs_None of_len_None) simp
  then have "(mints (abs_ledger pid w))(key i := None) = mints (abs_ledger pid w)" by (rule fun_upd_idem)
  then show ?thesis using d assms(3) by (simp add: abs_set_data)
qed

lemma abs_store_mint:
  assumes "store_mint env m i w = Inr w'" "env_ok env" "account_program (acct w i) = pid" "mint_is_initialized m"
  shows "abs_ledger pid w' = (abs_ledger pid w)\<lparr>mints := (mints (abs_ledger pid w))(key i \<mapsto> m)\<rparr>"
proof -
  from store_mintE [OF assms(1,2)] obtain d where d: "w' = set_data w i d"
    "length (account_data (acct w i)) = 82" "mint_of d = Some m" "account_of d = None"
    using assms(4) by (metis (full_types))
  have "toks (abs_ledger pid w) (key i) = None" using d(2) by (intro toks_abs_None of_len_None) simp
  then have "(toks (abs_ledger pid w))(key i := None) = toks (abs_ledger pid w)" by (rule fun_upd_idem)
  then show ?thesis using d assms(3) by (simp add: abs_set_data)
qed

text \<open>The frame of a store: program and lamports of every account, and the data of the others.\<close>

lemma store_account_frame:
  assumes "store_account env a i w = Inr w'" "env_ok env"
  shows "account_program (accts w' k) = account_program (accts w k)" "lamports (accts w' k) = lamports (accts w k)"
    "k \<noteq> key i \<Longrightarrow> accts w' k = accts w k" "length (account_data (acct w' i)) = 165"
    "account_is_initialized a \<Longrightarrow> account_of (account_data (acct w' i)) = Some a"
proof -
  from store_accountE [OF assms] obtain d where d: "w' = set_data w i d" "length d = 165"
    "account_of d = (if account_is_initialized a then Some a else None)" by blast
  show "account_program (accts w' k) = account_program (accts w k)" "lamports (accts w' k) = lamports (accts w k)"
    "k \<noteq> key i \<Longrightarrow> accts w' k = accts w k" "length (account_data (acct w' i)) = 165"
    "account_is_initialized a \<Longrightarrow> account_of (account_data (acct w' i)) = Some a"
    using d by simp_all
qed

lemma store_mint_frame:
  assumes "store_mint env m i w = Inr w'" "env_ok env"
  shows "account_program (accts w' k) = account_program (accts w k)" "lamports (accts w' k) = lamports (accts w k)"
    "k \<noteq> key i \<Longrightarrow> accts w' k = accts w k" "length (account_data (acct w' i)) = 82"
    "mint_is_initialized m \<Longrightarrow> mint_of (account_data (acct w' i)) = Some m"
proof -
  from store_mintE [OF assms] obtain d where d: "w' = set_data w i d" "length d = 82"
    "mint_of d = (if mint_is_initialized m then Some m else None)" by blast
  show "account_program (accts w' k) = account_program (accts w k)" "lamports (accts w' k) = lamports (accts w k)"
    "k \<noteq> key i \<Longrightarrow> accts w' k = accts w k" "length (account_data (acct w' i)) = 82"
    "mint_is_initialized m \<Longrightarrow> mint_of (account_data (acct w' i)) = Some m"
    using d by simp_all
qed

lemma abs_store_account_foreign:
  assumes "store_account env a i w = Inr w'" "env_ok env" "account_program (acct w i) \<noteq> pid"
  shows "abs_ledger pid w' = abs_ledger pid w"
proof -
  from store_accountE [OF assms(1,2)] obtain d where "w' = set_data w i d" by blast
  moreover have "(toks (abs_ledger pid w))(key i := None) = toks (abs_ledger pid w)" "(mints (abs_ledger pid w))(key i := None) = mints (abs_ledger pid w)"
    using assms(3) by (auto intro!: fun_upd_idem toks_abs_None)
  ultimately show ?thesis using assms(3) by (simp add: abs_set_data)
qed

lemma abs_store_mint_foreign:
  assumes "store_mint env a i w = Inr w'" "env_ok env" "account_program (acct w i) \<noteq> pid"
  shows "abs_ledger pid w' = abs_ledger pid w"
proof -
  from store_mintE [OF assms(1,2)] obtain d where "w' = set_data w i d" by blast
  moreover have "(toks (abs_ledger pid w))(key i := None) = toks (abs_ledger pid w)" "(mints (abs_ledger pid w))(key i := None) = mints (abs_ledger pid w)"
    using assms(3) by (auto intro!: fun_upd_idem toks_abs_None)
  ultimately show ?thesis using assms(3) by (simp add: abs_set_data)
qed

lemma quorum_ok_len: "length d \<noteq> 355 \<Longrightarrow> quorum_ok d"
  by (simp add: quorum_ok_def)

lemma store_account_writes:
  assumes "store_account env a i w = Inr w'" "env_ok env"
  shows "writes_ok w w'"
  unfolding writes_ok_def
proof
  fix k
  show "(account_data (accts w' k) = account_data (accts w k) \<and> account_program (accts w' k) = account_program (accts w k)) \<or>
    (length (account_data (accts w' k)) \<noteq> MINT_LEN \<or> mint_of (account_data (accts w' k)) \<noteq> None) \<and> quorum_ok (account_data (accts w' k))"
    using store_account_frame(3,4) [OF assms] by (cases "k = key i") (simp_all add: quorum_ok_len)
qed

lemma store_mint_writes:
  assumes "store_mint env m i w = Inr w'" "env_ok env" "mint_is_initialized m"
  shows "writes_ok w w'"
  unfolding writes_ok_def
proof
  fix k
  show "(account_data (accts w' k) = account_data (accts w k) \<and> account_program (accts w' k) = account_program (accts w k)) \<or>
    (length (account_data (accts w' k)) \<noteq> MINT_LEN \<or> mint_of (account_data (accts w' k)) \<noteq> None) \<and> quorum_ok (account_data (accts w' k))"
    using store_mint_frame(3,4,5) [OF assms(1,2)] assms(3) by (cases "k = key i") (simp_all add: quorum_ok_len)
qed

lemma writes_ok_trans:
  "writes_ok w w1 \<Longrightarrow> writes_ok w1 w2 \<Longrightarrow> writes_ok w w2"
  unfolding writes_ok_def by metis

lemma writes_ok_lamports: "writes_ok w (set_lamports w i n)"
  by (simp add: writes_ok_def)

section \<open>Handlers are steps of the ledger\<close>

definition refines :: "token_env \<Rightarrow> pubkey \<Rightarrow> world \<Rightarrow> world \<Rightarrow> bool" where
  "refines env pid w w' \<longleftrightarrow> ledger_step (native_mint_id env) (abs_ledger pid w) (abs_ledger pid w') \<and> writes_ok w w'"

lemma refines_refl: "accts w' = accts w \<Longrightarrow> refines env pid w w'"
proof -
  assume a: "accts w' = accts w"
  have "abs_ledger pid w' = abs_ledger pid w" unfolding abs_ledger_def a by (rule refl)
  then show ?thesis using a ledger_step_refl by (simp add: refines_def writes_ok_def)
qed

lemma refine_adjust:
  assumes "store_account env b i w = Inr w'" "env_ok env" "account_of (account_data (acct w i)) = Some a"
    "same_holding b a" "account_is_initialized b"
  shows "refines env pid w w'"
proof (cases "account_program (acct w i) = pid")
  case True
  have "toks (abs_ledger pid w) (key i) = Some a" using True assms(3) by (simp add: toks_abs)
  from ledger_step.adjust [OF this assms(4), of "native_mint_id env"]
  show ?thesis using abs_store_account [OF assms(1,2) True assms(5)] store_account_writes [OF assms(1,2)] by (simp add: refines_def)
next
  case False
  then show ?thesis
    using abs_store_account_foreign [OF assms(1,2) False] store_account_writes [OF assms(1,2)] ledger_step_refl
    by (simp add: refines_def)
qed

lemma refine_adjust_mint:
  assumes "store_mint env m' i w = Inr w'" "env_ok env" "mint_of (account_data (acct w i)) = Some m"
    "mint_supply m' = mint_supply m" "mint_is_initialized m'"
  shows "refines env pid w w'"
proof (cases "account_program (acct w i) = pid")
  case True
  have "mints (abs_ledger pid w) (key i) = Some m" using True assms(3) by (simp add: toks_abs)
  from ledger_step.adjust_mint [OF this assms(4), of "native_mint_id env"]
  show ?thesis using abs_store_mint [OF assms(1,2) True assms(5)] store_mint_writes [OF assms(1,2,5)] by (simp add: refines_def)
next
  case False
  then show ?thesis
    using abs_store_mint_foreign [OF assms(1,2) False] store_mint_writes [OF assms(1,2,5)] ledger_step_refl
    by (simp add: refines_def)
qed

lemmas handler_simps = bindr_eq_Inr_iff require_eq_Inr_iff ok_or_eq_Inr_iff unpack_account_iff unpack_mint_iff
  same_holding_def account_is_initialized_def cmp_pubkeys_def

lemma initialized_of: "account_of d = Some a \<Longrightarrow> state a \<noteq> Uninitialized"
  using account_of_len by (auto simp: account_is_initialized_def)

lemma refine_approve:
  "process_approve env pid w infos n x = Inr w' \<Longrightarrow> env_ok env \<Longrightarrow> refines env pid w w'"
  unfolding process_approve_def
  by (auto simp: handler_simps dest: initialized_of elim!: refine_adjust)

lemma refine_revoke:
  "process_revoke env pid w infos = Inr w' \<Longrightarrow> env_ok env \<Longrightarrow> refines env pid w w'"
  unfolding process_revoke_def
  by (auto simp: handler_simps dest: initialized_of elim!: refine_adjust)

lemma refine_toggle_freeze:
  "process_toggle_freeze_account env pid w infos f = Inr w' \<Longrightarrow> env_ok env \<Longrightarrow> refines env pid w w'"
  unfolding process_toggle_freeze_account_def
  by (auto simp: handler_simps elim!: refine_adjust)

lemma set_account_authority_keeps:
  "set_account_authority env pid w a t k ai sg = Inr b \<Longrightarrow> same_holding b a \<and> state b = state a"
  by (auto simp: set_account_authority_def handler_simps Let_def split: authority_type.splits if_splits)

lemma set_mint_authority_keeps:
  "set_mint_authority env pid w m t k ai sg = Inr m' \<Longrightarrow>
    mint_supply m' = mint_supply m \<and> mint_is_initialized m' = mint_is_initialized m"
  by (auto simp: set_mint_authority_def handler_simps split: authority_type.splits)

lemma refine_set_authority:
  assumes h: "process_set_authority env pid w infos t k = Inr w'" and e: "env_ok env"
  shows "refines env pid w w'"
  using h unfolding process_set_authority_def
  by (auto simp: handler_simps(1-5) e split: if_splits
      dest!: set_account_authority_keeps set_mint_authority_keeps
      dest: initialized_of mint_of_len elim!: refine_adjust [OF _ e] refine_adjust_mint [OF _ e])
    (auto simp: account_is_initialized_def dest: initialized_of)

lemma refine_initialize_mint:
  assumes h: "process_initialize_mint_inner env w infos d ma fa rs = Inr w'" and e: "env_ok env"
    and z: "fresh_mints_empty pid w"
  shows "refines env pid w w'"
proof -
  from h e obtain i m where i: "mint_unpack_from_slice (account_data (acct w i)) = Inr m"
      "length (account_data (acct w i)) = 82" "\<not> mint_is_initialized m"
      "store_mint env (m\<lparr>mint_authority := Some ma, decimals := d, mint_is_initialized := True,
         freeze_authority := fa\<rparr>) i w = Inr w'" (is "store_mint env ?m' i w = _")
    by (auto simp: process_initialize_mint_inner_def handler_simps(1-5) env_ok_def pack_trait_def Let_def)
  have init: "mint_is_initialized ?m'" by simp
  note f = store_mint_writes [OF i(4) e init]
  show ?thesis
  proof (cases "account_program (acct w i) = pid")
    case True
    have "mints (abs_ledger pid w) (key i) = None"
      using i(1,3) by (intro toks_abs_None(2)) (simp add: mint_of_def)
    moreover have "mint_supply ?m' = 0" using z True i(1-3) by (simp add: fresh_mints_empty_def)
    ultimately show ?thesis
      using ledger_step.new_mint abs_store_mint [OF i(4) e True init] f by (simp add: refines_def)
  next
    case False
    then show ?thesis using abs_store_mint_foreign [OF i(4) e False] f ledger_step_refl by (simp add: refines_def)
  qed
qed

lemma map_err_eq_Inr_iff: "map_err e m = Inr x \<longleftrightarrow> m = Inr x"
  by (auto simp: map_err_def split: sum.splits failure.splits)

lemma unpack_unchecked_iff:
  assumes "env_ok env"
  shows "m_unpack_unchecked (account_pack env) d = Inr a \<longleftrightarrow> length d = 165 \<and> account_unpack_from_slice d = Inr a"
    "m_unpack_unchecked (mint_pack env) d = Inr m \<longleftrightarrow> length d = 82 \<and> mint_unpack_from_slice d = Inr m"
    "m_unpack_unchecked (multisig_pack env) d = Inr ms \<longleftrightarrow> length d = 355 \<and> multisig_unpack_from_slice d = Inr ms"
  using assms by (auto simp: env_ok_def pack_trait_def result_simps)

lemma check_account_owner_iff: "check_account_owner pid w i = Inr u \<longleftrightarrow> account_program (acct w i) = pid"
  by (auto simp: check_account_owner_def)

lemma initialize_accountE:
  assumes "process_initialize_account_inner env pid w infos owner rs = Inr w'" "env_ok env"
  obtains i mi a b where "account_unpack_from_slice (account_data (acct w i)) = Inr a" "\<not> account_is_initialized a"
    "store_account env b i w = Inr w'" "state b = Initialized" "acc_mint b = key mi"
    "key mi = native_mint_id env \<Longrightarrow> \<exists>reserve. native_reserve b = Some reserve \<and>
       checked_sub (lamports (acct w i)) reserve = Some (amount b)"
    "key mi \<noteq> native_mint_id env \<Longrightarrow> native_reserve b = None \<and> amount b = 0 \<and>
       account_program (acct w mi) = pid \<and> mint_of (account_data (acct w mi)) \<noteq> None"
proof -
  from assms(1) obtain i mi ow r a b where
    i: "m_unpack_unchecked (account_pack env) (account_data (acct w i)) = Inr a" "\<not> account_is_initialized a"
    and n: "check_new_account_mint env pid w mi = Inr ()"
    and b: "initialized_account env a (key mi) ow (lamports (acct w i)) r = Inr b"
    and s: "store_account env b i w = Inr w'"
    by (auto simp: process_initialize_account_inner_def bindr_eq_Inr_iff)
  show thesis
    by (rule that [of i a b mi])
      (use i n b s in \<open>auto simp: unpack_unchecked_iff [OF assms(2)] unpack_mint_iff [OF assms(2)] result_simps
        map_err_eq_Inr_iff check_account_owner_iff check_new_account_mint_def initialized_account_def
        cmp_pubkeys_def Let_def split: if_splits\<close>)
qed

lemma refine_initialize_account:
  assumes h: "process_initialize_account_inner env pid w infos owner rs = Inr w'" and e: "env_ok env"
  shows "refines env pid w w'"
proof (rule initialize_accountE [OF assms])
  fix i mi a b
  assume i: "account_unpack_from_slice (account_data (acct w i)) = Inr a" "\<not> account_is_initialized a"
      "store_account env b i w = Inr w'" "state b = Initialized" "acc_mint b = key mi"
    and n1: "key mi = native_mint_id env \<Longrightarrow> \<exists>reserve. native_reserve b = Some reserve \<and>
       checked_sub (lamports (acct w i)) reserve = Some (amount b)"
    and n2: "key mi \<noteq> native_mint_id env \<Longrightarrow> native_reserve b = None \<and> amount b = 0 \<and>
       account_program (acct w mi) = pid \<and> mint_of (account_data (acct w mi)) \<noteq> None"
  have init: "account_is_initialized b" using i(4) by (simp add: account_is_initialized_def)
  note f = store_account_writes [OF i(3) e]
  show ?thesis
  proof (cases "account_program (acct w i) = pid")
    case True
    have none: "toks (abs_ledger pid w) (key i) = None"
      using i(1,2) by (intro toks_abs_None(1)) (simp add: account_of_def)
    have "ledger_step (native_mint_id env) (abs_ledger pid w)
        ((abs_ledger pid w)\<lparr>toks := (toks (abs_ledger pid w))(key i \<mapsto> b)\<rparr>)"
    proof (cases "key mi = native_mint_id env")
      case True
      then obtain r where "native_reserve b = Some r" "checked_sub (lamports (acct w i)) r = Some (amount b)"
        using n1 by blast
      then show ?thesis using True i(5) none
        by (intro ledger_step.open_native [where r = r]) (simp_all add: toks_abs checked_sub_eq_Some_iff)
    next
      case False
      then obtain m where m: "native_reserve b = None" "amount b = 0" "mints (abs_ledger pid w) (key mi) = Some m"
        using n2 by (auto simp: toks_abs)
      then show ?thesis using False i(5) none by (intro ledger_step.open_account) simp_all
    qed
    then show ?thesis using abs_store_account [OF i(3) e True init] f by (simp add: refines_def)
  next
    case False
    then show ?thesis using abs_store_account_foreign [OF i(3) e False] f ledger_step_refl by (simp add: refines_def)
  qed
qed

lemma abs_set_data_other:
  assumes "length (account_data (acct w i)) = 355" "length d = 355"
  shows "abs_ledger pid (set_data w i d) = abs_ledger pid w" "quorum_ok d \<Longrightarrow> writes_ok w (set_data w i d)"
proof -
  have "toks (abs_ledger pid w) (key i) = None" "mints (abs_ledger pid w) (key i) = None"
    using assms(1) by (auto intro!: toks_abs_None(1,2) of_len_None)
  then have "(toks (abs_ledger pid w))(key i := None) = toks (abs_ledger pid w)"
    "(mints (abs_ledger pid w))(key i := None) = mints (abs_ledger pid w)" by (simp_all add: fun_upd_idem)
  then show "abs_ledger pid (set_data w i d) = abs_ledger pid w"
    using assms(2) by (simp add: abs_set_data of_len_None)
  show "quorum_ok d \<Longrightarrow> writes_ok w (set_data w i d)" using assms(2) by (simp add: writes_ok_def)
qed

lemma refine_initialize_multisig:
  assumes h: "process_initialize_multisig_inner env w infos m rs = Inr w'" and e: "env_ok env"
  shows "refines env pid w w'"
proof -
  from h obtain i ms ks n sg d where i: "m_unpack_unchecked (multisig_pack env) (account_data (acct w i)) = Inr ms"
      "set_signers (signers ms) sg = Inr ks" "w' = set_data w i d" "is_valid_signer_index (unat n)"
      "m_pack (multisig_pack env) (ms\<lparr>ms_m := m, ms_n := n, signers := ks, ms_is_initialized := True\<rparr>)
         (account_data (acct w i)) = Inr d"
    by (auto simp: process_initialize_multisig_inner_def bindr_eq_Inr_iff Let_def)
  let ?ms = "ms\<lparr>ms_m := m, ms_n := n, signers := ks, ms_is_initialized := True\<rparr>"
  have len: "length (account_data (acct w i)) = 355" and u: "multisig_unpack_from_slice (account_data (acct w i)) = Inr ms"
    using i(1) unpack_unchecked_iff(3) [OF e] by auto
  have "length (signers ms) = 11" using u by (auto simp: multisig_unpack_from_slice_def result_simps)
  then have "length (signers ?ms) = 11" using i(2) by (auto simp: set_signers_def split: if_splits)
  then have d: "length d = 355" "multisig_unpack_from_slice d = Inr ?ms"
    using multisig_unpack_pack [of "account_data (acct w i)" ?ms] len i(5) e
    by (auto simp: env_ok_def pack_trait_def result_simps)
  have "quorum_ok d" using d i(4) by (simp add: quorum_ok_def is_valid_signer_index_def)
  then show ?thesis
    using abs_set_data_other [OF len d(1)] i(3) ledger_step_refl by (simp add: refines_def)
qed

lemma owned_if_changed:
  assumes "runtime_accepts pid w w'"
  shows "account_of (account_data (accts w' k)) \<noteq> account_of (account_data (accts w k)) \<Longrightarrow> account_program (accts w k) = pid"
    "mint_of (account_data (accts w' k)) \<noteq> mint_of (account_data (accts w k)) \<Longrightarrow> account_program (accts w k) = pid"
  using assms by (auto simp: runtime_accepts_def)

lemma refine_sync_native:
  assumes h: "process_sync_native env pid w infos = Inr w'" and e: "env_ok env"
  shows "refines env pid w w'"
proof -
  from h obtain i a r n where i: "account_program (acct w i) = pid" "account_of (account_data (acct w i)) = Some a"
      "native_reserve a = Some r" "checked_sub (lamports (acct w i)) r = Some n"
      "store_account env (a\<lparr>amount := n\<rparr>) i w = Inr w'"
    by (auto simp: process_sync_native_def handler_simps(1-3) unpack_account_iff [OF e] check_account_owner_iff)
  have init: "account_is_initialized (a\<lparr>amount := n\<rparr>)"
    using initialized_of [OF i(2)] by (simp add: account_is_initialized_def)
  have "toks (abs_ledger pid w) (key i) = Some a" using i by (simp add: toks_abs)
  moreover have "unat r + unat n = lams (abs_ledger pid w) (key i)"
    using i(4) by (simp add: toks_abs checked_sub_eq_Some_iff)
  ultimately show ?thesis
    using ledger_step.sync [of "abs_ledger pid w" "key i" a r n] i(3) abs_store_account [OF i(5) e i(1) init]
      store_account_writes [OF i(5) e] by (simp add: refines_def)
qed

text \<open>A token account and its mint stored one after the other, as minting and burning do.\<close>

lemma refine_supply_change:
  assumes e: "env_ok env" and acc: "runtime_accepts pid w w'"
    and a: "account_of (account_data (acct w di)) = Some a" "native_reserve a = None" "acc_mint a = key mi"
    and m: "mint_of (account_data (acct w mi)) = Some m" "mint_is_initialized m'"
    and s: "store_account env a' di w = Inr w1" "store_mint env m' mi w1 = Inr w'"
    and a': "state a' = state a" "same_holding (a\<lparr>amount := amount a'\<rparr>) a'"
    and n0: "n = 0 \<Longrightarrow> account_program (acct w di) = pid \<and> account_program (acct w mi) = pid"
    and n: "unat (amount a') = unat (amount a) + n \<and> unat (mint_supply m') = unat (mint_supply m) + n \<or>
      unat (amount a) = unat (amount a') + n \<and> unat (mint_supply m) = unat (mint_supply m') + n"
  shows "refines env pid w w'"
proof -
  have init: "account_is_initialized a'" using initialized_of [OF a(1)] a'(1) by (simp add: account_is_initialized_def)
  have ne: "key di \<noteq> key mi"
    using account_of_len [OF a(1)] mint_of_len [OF m(1)] by auto
  have d': "account_of (account_data (acct w' di)) = Some a'" "mint_of (account_data (acct w' mi)) = Some m'"
    using store_account_frame(5) [OF s(1) e init] store_mint_frame(3) [OF s(2) e ne] store_mint_frame(5) [OF s(2) e m(2)]
    by simp_all
  have own: "account_program (acct w di) = pid \<and> account_program (acct w mi) = pid"
  proof (cases "n = 0")
    case False
    then have "a' \<noteq> a" "m' \<noteq> m" using n by auto
    then show ?thesis using owned_if_changed [OF acc] d' a(1) m(1) by (metis option.inject)
  qed (rule n0)
  have own1: "account_program (acct w1 mi) = pid" using own store_account_frame(1) [OF s(1) e] by simp
  have abs': "abs_ledger pid w' = (abs_ledger pid w)\<lparr>toks := (toks (abs_ledger pid w))(key di \<mapsto> a'),
      mints := (mints (abs_ledger pid w))(acc_mint a \<mapsto> m')\<rparr>"
    using abs_store_account [OF s(1) e conjunct1 [OF own] init] abs_store_mint [OF s(2) e own1 m(2)] a(3) by simp
  have T: "toks (abs_ledger pid w) (key di) = Some a" and M: "mints (abs_ledger pid w) (acc_mint a) = Some m"
    using own a m by (simp_all add: toks_abs)
  have "ledger_step (native_mint_id env) (abs_ledger pid w) (abs_ledger pid w')"
    unfolding abs' using n
  proof
    assume "unat (amount a') = unat (amount a) + n \<and> unat (mint_supply m') = unat (mint_supply m) + n"
    then show "ledger_step (native_mint_id env) (abs_ledger pid w) ((abs_ledger pid w)\<lparr>toks := (toks (abs_ledger pid w))(key di \<mapsto> a'),
      mints := (mints (abs_ledger pid w))(acc_mint a \<mapsto> m')\<rparr>)"
      by (intro ledger_step.issue [OF T a(2) M a'(2)]) auto
  next
    assume "unat (amount a) = unat (amount a') + n \<and> unat (mint_supply m) = unat (mint_supply m') + n"
    then show "ledger_step (native_mint_id env) (abs_ledger pid w) ((abs_ledger pid w)\<lparr>toks := (toks (abs_ledger pid w))(key di \<mapsto> a'),
      mints := (mints (abs_ledger pid w))(acc_mint a \<mapsto> m')\<rparr>)"
      by (intro ledger_step.retire [OF T a(2) M a'(2)]) auto
  qed
  moreover have "writes_ok w w'"
    by (rule writes_ok_trans [OF store_account_writes [OF s(1) e] store_mint_writes [OF s(2) e m(2)]])
  ultimately show ?thesis by (simp add: refines_def)
qed

lemma check_if_zero:
  "(if b then bindr (check_account_owner pid w i) (\<lambda>_. check_account_owner pid w j) else Inr ()) = Inr u \<longleftrightarrow>
    (b \<longrightarrow> account_program (acct w i) = pid \<and> account_program (acct w j) = pid)"
  by (auto simp: bindr_eq_Inr_iff check_account_owner_iff)

lemma refine_mint_to:
  assumes h: "process_mint_to env pid w infos n x = Inr w'" and e: "env_ok env" and acc: "runtime_accepts pid w w'"
  shows "refines env pid w w'"
proof -
  from h obtain mi di a m na ns w1 where
    a: "account_of (account_data (acct w di)) = Some a" "\<not> is_native a" "key mi = acc_mint a"
    and m: "mint_of (account_data (acct w mi)) = Some m"
    and z: "n = 0 \<longrightarrow> account_program (acct w mi) = pid \<and> account_program (acct w di) = pid"
    and v: "checked_add (amount a) n = Some na" "checked_add (mint_supply m) n = Some ns"
    and s: "store_account env (a\<lparr>amount := na\<rparr>) di w = Inr w1" "store_mint env (m\<lparr>mint_supply := ns\<rparr>) mi w1 = Inr w'"
    unfolding process_mint_to_def check_if_zero
    by (auto simp: bindr_eq_Inr_iff check_if_zero unpack_account_iff [OF e] unpack_mint_iff [OF e] cmp_pubkeys_def
        split del: if_split)
  show ?thesis
    using a m z v mint_of_len [OF m]
    by (intro refine_supply_change [OF e acc a(1) _ _ m _ s, where n = "unat n"])
      (auto simp: is_native_def same_holding_def checked_add_eq_Some_iff unat_eq_0)
qed

lemma authorize_spend_keeps:
  "authorize_spend env pid w a n st ai sg = Inr b \<Longrightarrow> same_holding b a \<and> state b = state a"
  by (auto simp: authorize_spend_def spend_allowance_def handler_simps Let_def split: if_splits option.splits)

lemma refine_burn:
  assumes h: "process_burn env pid w infos n x = Inr w'" and e: "env_ok env" and acc: "runtime_accepts pid w w'"
  shows "refines env pid w w'"
proof -
  from h obtain mi si ai sg a b m na ns w1 where
    a: "account_of (account_data (acct w si)) = Some a" "\<not> is_native a" "key mi = acc_mint a"
    and m: "mint_of (account_data (acct w mi)) = Some m"
    and b: "(if \<not> is_owned_by_system_program_or_incinerator env a
       then authorize_spend env pid w a n False ai sg else Inr a) = Inr b"
    and z: "n = 0 \<longrightarrow> account_program (acct w si) = pid \<and> account_program (acct w mi) = pid"
    and v: "checked_sub (amount b) n = Some na" "checked_sub (mint_supply m) n = Some ns"
    and s: "store_account env (b\<lparr>amount := na\<rparr>) si w = Inr w1" "store_mint env (m\<lparr>mint_supply := ns\<rparr>) mi w1 = Inr w'"
    unfolding process_burn_def
    by (auto simp: bindr_eq_Inr_iff check_if_zero unpack_account_iff [OF e] unpack_mint_iff [OF e] cmp_pubkeys_def
        split del: if_split)
  have "same_holding b a \<and> state b = state a"
    using b authorize_spend_keeps by (auto simp: same_holding_def split: if_splits)
  then show ?thesis
    using a m z v mint_of_len [OF m]
    by (intro refine_supply_change [OF e acc a(1) _ _ m _ s, where n = "unat n"])
      (auto simp: is_native_def same_holding_def checked_sub_eq_Some_iff unat_eq_0)
qed

lemma refine_close:
  assumes h: "process_close_account env pid w infos = Inr w'" and e: "env_ok env" and acc: "runtime_accepts pid w w'"
  shows "refines env pid w w'"
proof -
  from h obtain si di a l where ne: "key si \<noteq> key di" and a: "account_of (account_data (acct w si)) = Some a"
      "is_native a \<or> amount a = 0" and l: "checked_add (lamports (acct w di)) (lamports (acct w si)) = Some l"
      and w': "w' = delete_account env si (set_lamports (set_lamports w di l) si 0)"
    unfolding process_close_account_def
    by (auto simp: bindr_eq_Inr_iff unpack_account_iff [OF e] cmp_pubkeys_def Let_def split del: if_split)
  have A: "accts w' = (accts w)(key di := (acct w di)\<lparr>lamports := l\<rparr>,
      key si := \<lparr>lamports = 0, account_data = [], account_program = system_program_id env\<rparr>)"
    using ne by (auto simp: w' delete_account_def set_lamports_def fun_eq_iff)
  have own: "account_program (acct w si) = pid"
    by (rule owned_if_changed(1) [OF acc]) (simp add: A a(1) of_len_None(1))
  have none: "mints (abs_ledger pid w) (key si) = None"
    using account_of_len [OF a(1)] by (intro toks_abs_None(2) of_len_None) simp
  have "abs_ledger pid w' = (abs_ledger pid w)\<lparr>toks := (toks (abs_ledger pid w))(key si := None),
      lams := (lams (abs_ledger pid w))(key di := lams (abs_ledger pid w) (key di) + lams (abs_ledger pid w) (key si), key si := 0)\<rparr>"
    using none l by (auto simp: abs_ledger_def A fun_eq_iff of_len_None checked_add_eq_Some_iff)
  moreover have "toks (abs_ledger pid w) (key si) = Some a" using own a(1) by (simp add: toks_abs)
  ultimately have "ledger_step (native_mint_id env) (abs_ledger pid w) (abs_ledger pid w')"
    using ne a(2) by (auto simp: is_native_def intro!: ledger_step.close)
  moreover have "writes_ok w w'" by (simp add: writes_ok_def A quorum_ok_len)
  ultimately show ?thesis by (simp add: refines_def)
qed

lemma next_account_info_iff: "next_account_info it = Inr (i, r) \<longleftrightarrow> it = i # r"
  by (cases it) (auto simp: next_account_info_def)

lemma next_expected_mint_subset: "next_expected_mint it x = Inr (y, r) \<Longrightarrow> set r \<subseteq> set it"
  by (auto simp: next_expected_mint_def next_account_info_iff bindr_eq_Inr_iff split: option.splits)

lemma process_transferE:
  assumes h: "process_transfer env pid w infos n x = Inr w'" and e: "env_ok env"
  obtains (self) "w' = w"
  | (moved) si di ai sg a a1 b na nb w1 w2 where "key si \<noteq> key di"
      "account_of (account_data (acct w si)) = Some a" "account_of (account_data (acct w di)) = Some b"
      "\<not> is_frozen a" "\<not> is_frozen b" "acc_mint a = acc_mint b"
      "authorize_spend env pid w a n False ai sg = Inr a1"
      "n = 0 \<longrightarrow> account_program (acct w si) = pid \<and> account_program (acct w di) = pid"
      "checked_sub (amount a1) n = Some na" "checked_add (amount b) n = Some nb"
      "(if is_native a1 then move_lamports w si di n else Inr w) = Inr w1"
      "store_account env (a1\<lparr>amount := na\<rparr>) si w1 = Inr w2" "store_account env (b\<lparr>amount := nb\<rparr>) di w2 = Inr w'"
      "ai \<in> set infos" "set sg \<subseteq> set infos"
proof -
  from h obtain si di ai sg a b a1 ex it where
    a: "account_of (account_data (acct w si)) = Some a" "account_of (account_data (acct w di)) = Some b"
      "\<not> is_frozen a" "\<not> is_frozen b" "acc_mint a = acc_mint b"
      "authorize_spend env pid w a n (key si = key di) ai sg = Inr a1"
      "(key si = key di \<or> n = 0) \<longrightarrow> account_program (acct w si) = pid \<and> account_program (acct w di) = pid"
    and it: "infos = si # it" "next_expected_mint it x = Inr (ex, di # ai # sg)"
    and r: "(if key si = key di then Inr w else
       bindr (ok_or (checked_sub (amount a1) n) (terr Overflow)) (\<lambda>source_amount.
       bindr (ok_or (checked_add (amount b) n) (terr Overflow)) (\<lambda>destination_amount.
       bindr (if is_native a1 then move_lamports w si di n else Inr w) (\<lambda>w.
       bindr (store_account env (a1\<lparr>amount := source_amount\<rparr>) si w) (\<lambda>w.
       store_account env (b\<lparr>amount := destination_amount\<rparr>) di w))))) = Inr w'"
    unfolding process_transfer_def Let_def
    by (auto simp: bindr_eq_Inr_iff [of "next_account_info _"] bindr_eq_Inr_iff [of "next_expected_mint _ _"]
        bindr_eq_Inr_iff [of "require _ _"] bindr_eq_Inr_iff [of "m_unpack _ _"] bindr_eq_Inr_iff [of "check_expected_mint _ _ _ _"]
        bindr_eq_Inr_iff [of "authorize_spend _ _ _ _ _ _ _ _"] bindr_eq_Inr_iff [of "if _ then bindr (check_account_owner _ _ _) _ else _"]
        check_if_zero unpack_account_iff [OF e] cmp_pubkeys_def next_account_info_iff split del: if_split)
  have sub: "ai \<in> set infos" "set sg \<subseteq> set infos" using it(1) next_expected_mint_subset [OF it(2)] by auto
  show thesis
  proof (cases "key si = key di")
    case True
    with r self show ?thesis by simp
  next
    case False
    from r False obtain na nb w1 w2 where
      "checked_sub (amount a1) n = Some na" "checked_add (amount b) n = Some nb"
      "(if is_native a1 then move_lamports w si di n else Inr w) = Inr w1"
      "store_account env (a1\<lparr>amount := na\<rparr>) si w1 = Inr w2" "store_account env (b\<lparr>amount := nb\<rparr>) di w2 = Inr w'"
      by (auto simp: bindr_eq_Inr_iff split del: if_split)
    with False a sub moved show ?thesis by auto
  qed
qed

lemma move_lamportsE:
  assumes "move_lamports w si di n = Inr w1" "key si \<noteq> key di"
  obtains l1 l2 where "w1 = set_lamports (set_lamports w si l1) di l2"
    "unat (lamports (acct w si)) = unat l1 + unat n" "unat l2 = unat (lamports (acct w di)) + unat n"
  using assms by (auto simp: move_lamports_def bindr_eq_Inr_iff Let_def checked_sub_eq_Some_iff checked_add_eq_Some_iff)

lemma lamports_moved:
  assumes "(if is_native a1 then move_lamports w si di n else Inr w) = Inr w1" "key si \<noteq> key di"
  shows "account_data (accts w1 k) = account_data (accts w k)" "account_program (accts w1 k) = account_program (accts w k)"
    "writes_ok w w1"
    "abs_ledger pid w1 = (abs_ledger pid w)\<lparr>lams := (if native_reserve a1 \<noteq> None
       then (lams (abs_ledger pid w))(key si := lams (abs_ledger pid w) (key si) - unat n,
         key di := lams (abs_ledger pid w) (key di) + unat n) else lams (abs_ledger pid w))\<rparr>"
    "native_reserve a1 \<noteq> None \<Longrightarrow> unat n \<le> lams (abs_ledger pid w) (key si)"
proof -
  have "account_data (accts w1 k) = account_data (accts w k) \<and> account_program (accts w1 k) = account_program (accts w k) \<and>
    writes_ok w w1 \<and>
    abs_ledger pid w1 = (abs_ledger pid w)\<lparr>lams := (if native_reserve a1 \<noteq> None
       then (lams (abs_ledger pid w))(key si := lams (abs_ledger pid w) (key si) - unat n,
         key di := lams (abs_ledger pid w) (key di) + unat n) else lams (abs_ledger pid w))\<rparr> \<and>
    (native_reserve a1 \<noteq> None \<longrightarrow> unat n \<le> lams (abs_ledger pid w) (key si))"
  proof (cases "is_native a1")
    case True
    with assms(1) have "move_lamports w si di n = Inr w1" by simp
    from move_lamportsE [OF this assms(2)] obtain l1 l2 where
      l: "w1 = set_lamports (set_lamports w si l1) di l2"
        "unat (lamports (acct w si)) = unat l1 + unat n" "unat l2 = unat (lamports (acct w di)) + unat n" .
    have "unat l1 = unat (lamports (acct w si)) - unat n" using l(2) by simp
    then show ?thesis using True l
      by (auto simp: is_native_def writes_ok_def abs_set_lamports toks_abs)
  next
    case False
    then show ?thesis using assms(1) by (simp add: is_native_def writes_ok_def)
  qed
  then show "account_data (accts w1 k) = account_data (accts w k)" "account_program (accts w1 k) = account_program (accts w k)"
    "writes_ok w w1"
    "abs_ledger pid w1 = (abs_ledger pid w)\<lparr>lams := (if native_reserve a1 \<noteq> None
       then (lams (abs_ledger pid w))(key si := lams (abs_ledger pid w) (key si) - unat n,
         key di := lams (abs_ledger pid w) (key di) + unat n) else lams (abs_ledger pid w))\<rparr>"
    "native_reserve a1 \<noteq> None \<Longrightarrow> unat n \<le> lams (abs_ledger pid w) (key si)"
    by blast+
qed

lemma refine_transfer:
  assumes h: "process_transfer env pid w infos n x = Inr w'" and e: "env_ok env" and acc: "runtime_accepts pid w w'"
  shows "refines env pid w w'"
  using h e
proof (cases rule: process_transferE)
  case self
  then show ?thesis by (simp add: refines_refl)
next
  case (moved si di ai sg a a1 b na nb w1 w2)
  note L = lamports_moved [OF moved(11,1)]
  have k: "same_holding a1 a" "state a1 = state a" using authorize_spend_keeps [OF moved(7)] by simp_all
  let ?a' = "a1\<lparr>amount := na\<rparr>" and ?b' = "b\<lparr>amount := nb\<rparr>"
  have init: "account_is_initialized ?a'" "account_is_initialized ?b'"
    using initialized_of [OF moved(2)] initialized_of [OF moved(3)] k by (simp_all add: account_is_initialized_def)
  have n: "unat (amount a) = unat na + unat n" "unat nb = unat (amount b) + unat n"
    using moved(9,10) k by (simp_all add: checked_sub_eq_Some_iff checked_add_eq_Some_iff same_holding_def)
  have d': "account_of (account_data (acct w' si)) = Some ?a'" "account_of (account_data (acct w' di)) = Some ?b'"
    using store_account_frame(5) [OF moved(12) e init(1)] store_account_frame(3) [OF moved(13) e moved(1)]
      store_account_frame(5) [OF moved(13) e init(2)] by simp_all
  have own: "account_program (acct w si) = pid \<and> account_program (acct w di) = pid"
  proof (cases "n = 0")
    case False
    then have "na \<noteq> amount a" "nb \<noteq> amount b" using n by (auto simp: unat_eq_0)
    then have "?a' \<noteq> a" "?b' \<noteq> b" by (auto dest: arg_cong [of _ _ amount])
    then show ?thesis using owned_if_changed(1) [OF acc] d' moved(2,3) by (metis option.inject)
  qed (use moved(8) in blast)
  have own1: "account_program (acct w1 si) = pid" "account_program (acct w2 di) = pid"
    using own L(2) store_account_frame(1) [OF moved(12) e] by simp_all
  define M where "M = (if native_reserve a \<noteq> None
    then (lams (abs_ledger pid w))(key si := lams (abs_ledger pid w) (key si) - unat n,
      key di := lams (abs_ledger pid w) (key di) + unat n) else lams (abs_ledger pid w))"
  have res: "native_reserve a1 = native_reserve a" using k by (simp add: same_holding_def)
  have "abs_ledger pid w1 = (abs_ledger pid w)\<lparr>lams := M\<rparr>" using L(4) [of pid] unfolding res M_def .
  then have abs': "abs_ledger pid w' =
      (abs_ledger pid w)\<lparr>toks := (toks (abs_ledger pid w))(key si \<mapsto> ?a', key di \<mapsto> ?b'), lams := M\<rparr>"
    using abs_store_account [OF moved(12) e own1(1) init(1)] abs_store_account [OF moved(13) e own1(2) init(2)] by simp
  have T: "toks (abs_ledger pid w) (key si) = Some a" "toks (abs_ledger pid w) (key di) = Some b"
    using own moved(2,3) by (simp_all add: toks_abs)
  have "ledger_step (native_mint_id env) (abs_ledger pid w) (abs_ledger pid w')"
    unfolding abs' using k n L(5) [of pid] unfolding res
    by (intro ledger_step.move [OF moved(1) T moved(6), of ?a' ?b' "unat n"]) (simp_all add: same_holding_def M_def)
  moreover have "writes_ok w w'"
    using writes_ok_trans [OF L(3) writes_ok_trans [OF store_account_writes [OF moved(12) e] store_account_writes [OF moved(13) e]]] .
  ultimately show ?thesis by (simp add: refines_def)
qed

lemma refine_instruction:
  assumes h: "process_instruction env pid w infos i = Inr w'" and e: "env_ok env"
    and acc: "runtime_accepts pid w w'" and z: "fresh_mints_empty pid w"
  shows "refines env pid w w'"
  using h
proof (cases i)
  case (SetAuthority t k) with h e show ?thesis by (auto simp: process_instruction_def intro: refine_set_authority)
qed (auto simp: process_instruction_def process_initialize_mint_def process_initialize_mint2_def
    process_initialize_account_def process_initialize_account2_def process_initialize_account3_def
    process_initialize_multisig_def process_initialize_multisig2_def process_get_account_data_size_def
    process_amount_to_ui_amount_def process_ui_amount_to_amount_def process_initialize_immutable_owner_def
    bindr_eq_Inr_iff
    intro: refine_initialize_mint [OF _ e z] refine_initialize_account [OF _ e] refine_initialize_multisig [OF _ e]
      refine_transfer [OF _ e acc] refine_approve [OF _ e] refine_revoke [OF _ e] refine_mint_to [OF _ e acc]
      refine_burn [OF _ e acc] refine_close [OF _ e acc] refine_toggle_freeze [OF _ e] refine_sync_native [OF _ e]
      refines_refl)

end
