(* ===== verification/Token_Authority.thy ===== *)
theory Token_Authority
  imports Token_Refinement
begin

text \<open>
  Who may change a token account, and how: every change an instruction of
  \<^verbatim>\<open>src/spl-token/program/src/processor.rs\<close> makes to a token account is one of the changes listed here,
  with the authorization it needs. The second part counts the signatures behind a multisignature authority.
\<close>

section \<open>Permitted changes\<close>

text \<open>The key authorizes the instruction: it, or a quorum of its signers, is among the accounts and has signed.\<close>

definition authorized :: "token_env \<Rightarrow> pubkey \<Rightarrow> world \<Rightarrow> account_info list \<Rightarrow> pubkey \<Rightarrow> bool" where
  "authorized env pid w infos k \<longleftrightarrow> (\<exists>ai sg. ai \<in> set infos \<and> set sg \<subseteq> set infos \<and>
     validate_owner env pid w k ai sg = Inr ())"

definition close_key :: "token_account \<Rightarrow> pubkey" where
  "close_key a = (case close_authority a of Some k \<Rightarrow> k | None \<Rightarrow> acc_owner a)"

definition freezer :: "world \<Rightarrow> token_account \<Rightarrow> pubkey option" where
  "freezer w a = (case mint_of (account_data (accts w (acc_mint a))) of Some m \<Rightarrow> freeze_authority m | None \<Rightarrow> None)"

inductive account_change ::
  "token_env \<Rightarrow> pubkey \<Rightarrow> world \<Rightarrow> account_info list \<Rightarrow> token_account \<Rightarrow> token_account option \<Rightarrow> bool"
for env pid w infos where
  same: "account_change env pid w infos a (Some a)"
| delegated: "account_change env pid w infos a (Some (a\<lparr>delegate := d, delegated_amount := n\<rparr>))"
    if "\<not> is_frozen a" "authorized env pid w infos (acc_owner a)"
| given_away: "account_change env pid w infos a (Some (a\<lparr>acc_owner := k, delegate := None, delegated_amount := 0,
      close_authority := (if is_native a then None else close_authority a)\<rparr>))"
    if "\<not> is_frozen a" "authorized env pid w infos (acc_owner a)"
| close_authority_set: "account_change env pid w infos a (Some (a\<lparr>close_authority := c\<rparr>))"
    if "\<not> is_frozen a" "authorized env pid w infos (close_key a)"
| credited: "account_change env pid w infos a (Some (a\<lparr>amount := n\<rparr>))"
    if "\<not> is_frozen a" "amount a \<le> n"
| spent_by_owner: "account_change env pid w infos a (Some (a\<lparr>amount := n\<rparr>))"
    if "\<not> is_frozen a" "n \<le> amount a"
      "authorized env pid w infos (acc_owner a) \<or> is_owned_by_system_program_or_incinerator env a"
| spent_by_delegate: "account_change env pid w infos a (Some (a\<lparr>amount := n, delegated_amount := r,
      delegate := (if r = 0 then None else Some d)\<rparr>))"
    if "\<not> is_frozen a" "delegate a = Some d" "authorized env pid w infos d"
      "unat (amount a) = unat n + s" "unat (delegated_amount a) = unat r + s"
| frozen: "account_change env pid w infos a (Some (a\<lparr>state := Frozen\<rparr>))"
    if "\<not> is_frozen a" "\<not> is_native a" "freezer w a = Some k" "authorized env pid w infos k"
| thawed: "account_change env pid w infos a (Some (a\<lparr>state := Initialized\<rparr>))"
    if "is_frozen a" "\<not> is_native a" "freezer w a = Some k" "authorized env pid w infos k"
| synced: "account_change env pid w infos a (Some (a\<lparr>amount := n\<rparr>))"
    if "is_native a" "amount a \<le> n"
| closed: "account_change env pid w infos a None"
    if "is_native a \<or> amount a = 0"
      "authorized env pid w infos (close_key a) \<or> is_owned_by_system_program_or_incinerator env a"

definition changes_ok :: "token_env \<Rightarrow> pubkey \<Rightarrow> world \<Rightarrow> account_info list \<Rightarrow> world \<Rightarrow> bool" where
  "changes_ok env pid w infos w' \<longleftrightarrow> (\<forall>k a. account_of (account_data (accts w k)) = Some a \<longrightarrow>
     account_change env pid w infos a (account_of (account_data (accts w' k))))"

section \<open>Handlers make permitted changes\<close>

lemma authorizedI:
  "validate_owner env pid w k ai sg = Inr () \<Longrightarrow> ai \<in> set infos \<Longrightarrow> set sg \<subseteq> set infos \<Longrightarrow> authorized env pid w infos k"
  by (auto simp: authorized_def)

lemma changes_ok_refl: "accts w' = accts w \<Longrightarrow> changes_ok env pid w infos w'"
  by (auto simp: changes_ok_def intro: account_change.same)

lemma changes_ok_store:
  assumes "store_account env b i w = Inr w'" "env_ok env" "account_is_initialized b"
    "\<And>a. account_of (account_data (acct w i)) = Some a \<Longrightarrow> account_change env pid w infos a (Some b)"
  shows "changes_ok env pid w infos w'"
  unfolding changes_ok_def
proof (intro allI impI)
  fix k a assume a: "account_of (account_data (accts w k)) = Some a"
  show "account_change env pid w infos a (account_of (account_data (accts w' k)))"
    using store_account_frame(3,5) [OF assms(1,2)] assms(3,4) a
    by (cases "k = key i") (auto intro: account_change.same)
qed

lemma changes_ok_store_mint:
  assumes "store_mint env m i w1 = Inr w'" "env_ok env" "changes_ok env pid w infos w1"
    "length (account_data (acct w i)) = 82"
  shows "changes_ok env pid w infos w'"
  unfolding changes_ok_def
proof (intro allI impI)
  fix k a assume a: "account_of (account_data (accts w k)) = Some a"
  then have "k \<noteq> key i" using account_of_len [OF a] assms(4) by auto
  then show "account_change env pid w infos a (account_of (account_data (accts w' k)))"
    using store_mint_frame(3) [OF assms(1,2)] assms(3) a by (simp add: changes_ok_def)
qed

lemma store_mint_len: "store_mint env m i w = Inr w' \<Longrightarrow> env_ok env \<Longrightarrow> length (account_data (acct w i)) = 82"
  by (erule store_mintE) simp_all

lemma changes_ok_mint_only:
  "store_mint env m i w = Inr w' \<Longrightarrow> env_ok env \<Longrightarrow> changes_ok env pid w infos w'"
  by (rule changes_ok_store_mint) (auto intro: changes_ok_refl store_mint_len)

lemmas change_simps = bindr_eq_Inr_iff require_eq_Inr_iff ok_or_eq_Inr_iff next_account_info_iff cmp_pubkeys_def

lemma changes_approve:
  assumes "process_approve env pid w infos n x = Inr w'" and e: "env_ok env"
  shows "changes_ok env pid w infos w'"
proof -
  from assms(1) obtain si ex it di oi sg a where *: "infos = si # it" "next_expected_mint it x = Inr (ex, di # oi # sg)"
      "account_of (account_data (acct w si)) = Some a" "\<not> is_frozen a"
      "validate_owner env pid w (acc_owner a) oi sg = Inr ()"
      "store_account env (a\<lparr>delegate := Some (key di), delegated_amount := n\<rparr>) si w = Inr w'"
    by (auto simp: process_approve_def change_simps unpack_account_iff [OF e])
  have "authorized env pid w infos (acc_owner a)"
    using *(1) next_expected_mint_subset [OF *(2)] by (intro authorizedI [OF *(5)]) auto
  then show ?thesis
    using *(3,4) initialized_of [OF *(3)]
    by (intro changes_ok_store [OF *(6) e]) (auto simp: account_is_initialized_def intro!: account_change.delegated)
qed

lemma changes_revoke:
  assumes "process_revoke env pid w infos = Inr w'" and e: "env_ok env"
  shows "changes_ok env pid w infos w'"
proof -
  from assms(1) obtain si oi sg a where *: "infos = si # oi # sg"
      "account_of (account_data (acct w si)) = Some a" "\<not> is_frozen a"
      "validate_owner env pid w (acc_owner a) oi sg = Inr ()"
      "store_account env (a\<lparr>delegate := None, delegated_amount := 0\<rparr>) si w = Inr w'"
    by (auto simp: process_revoke_def change_simps unpack_account_iff [OF e])
  have "authorized env pid w infos (acc_owner a)" using *(1) by (intro authorizedI [OF *(4)]) auto
  then show ?thesis
    using *(2,3) initialized_of [OF *(2)]
    by (intro changes_ok_store [OF *(5) e]) (auto simp: account_is_initialized_def intro!: account_change.delegated)
qed

lemma change_set_account_authority:
  assumes "set_account_authority env pid w a t k ai sg = Inr b" "\<not> is_frozen a" "ai \<in> set infos" "set sg \<subseteq> set infos"
  shows "account_change env pid w infos a (Some b)"
proof (cases t)
  case AccountOwner
  then obtain o' where o': "k = Some o'" "validate_owner env pid w (acc_owner a) ai sg = Inr ()"
      "b = a\<lparr>acc_owner := o', delegate := None, delegated_amount := 0,
        close_authority := (if is_native a then None else close_authority a)\<rparr>"
    using assms(1) by (auto simp: set_account_authority_def change_simps Let_def is_native_def split: if_splits)
  show ?thesis unfolding o'(3) using assms(2-4) by (intro account_change.given_away authorizedI [OF o'(2)])
next
  case CloseAccountAuthority
  then have v: "validate_owner env pid w (close_key a) ai sg = Inr ()" "b = a\<lparr>close_authority := k\<rparr>"
    using assms(1) by (auto simp: set_account_authority_def change_simps close_key_def)
  then show ?thesis using assms(2-4) by (auto intro!: account_change.close_authority_set authorizedI [OF v(1)])
qed (use assms(1) in \<open>auto simp: set_account_authority_def\<close>)

lemma changes_set_authority:
  assumes h: "process_set_authority env pid w infos t k = Inr w'" and e: "env_ok env"
  shows "changes_ok env pid w infos w'"
proof -
  from h obtain i ai sg where infos: "infos = i # ai # sg"
    by (auto simp: process_set_authority_def change_simps)
  from h infos consider
      a b where "account_of (account_data (acct w i)) = Some a" "\<not> is_frozen a"
        "set_account_authority env pid w a t k ai sg = Inr b" "store_account env b i w = Inr w'"
    | m where "store_mint env m i w = Inr w'"
    by (auto simp: process_set_authority_def change_simps unpack_account_iff [OF e] split: if_splits)
  then show ?thesis
  proof cases
    case (1 a b)
    have "account_change env pid w infos a (Some b)"
      by (rule change_set_account_authority [OF 1(3,2)]) (auto simp: infos)
    then show ?thesis
      using 1(1) set_account_authority_keeps [OF 1(3)] initialized_of [OF 1(1)]
      by (intro changes_ok_store [OF 1(4) e]) (auto simp: account_is_initialized_def)
  qed (rule changes_ok_mint_only [OF _ e])
qed

lemma changes_toggle_freeze:
  assumes h: "process_toggle_freeze_account env pid w infos f = Inr w'" and e: "env_ok env"
  shows "changes_ok env pid w infos w'"
proof -
  from h obtain si mi ai sg a m k where *: "infos = si # mi # ai # sg" "account_of (account_data (acct w si)) = Some a"
      "is_frozen a \<longleftrightarrow> \<not> f" "\<not> is_native a" "mint_of (account_data (accts w (acc_mint a))) = Some m"
      "freeze_authority m = Some k" "validate_owner env pid w k ai sg = Inr ()"
      "store_account env (a\<lparr>state := (if f then Frozen else Initialized)\<rparr>) si w = Inr w'"
    by (auto simp: process_toggle_freeze_account_def change_simps unpack_account_iff [OF e] unpack_mint_iff [OF e]
        split del: if_split)
  have auth: "authorized env pid w infos k" using *(1) by (intro authorizedI [OF *(7)]) auto
  have fr: "freezer w a = Some k" using *(5,6) by (simp add: freezer_def)
  have "account_change env pid w infos a (Some (a\<lparr>state := (if f then Frozen else Initialized)\<rparr>))"
    using account_change.frozen [OF _ *(4) fr auth] account_change.thawed [OF _ *(4) fr auth] *(3) by (cases f) simp_all
  then show ?thesis
    using *(2) by (intro changes_ok_store [OF *(8) e]) (auto simp: account_is_initialized_def)
qed

lemma changes_sync_native:
  assumes h: "process_sync_native env pid w infos = Inr w'" and e: "env_ok env"
  shows "changes_ok env pid w infos w'"
proof -
  from h obtain i a r n where i: "account_of (account_data (acct w i)) = Some a"
      "native_reserve a = Some r" "\<not> n < amount a" "store_account env (a\<lparr>amount := n\<rparr>) i w = Inr w'"
    by (auto simp: process_sync_native_def change_simps unpack_account_iff [OF e])
  have "account_change env pid w infos a (Some (a\<lparr>amount := n\<rparr>))"
    using i(2,3) by (intro account_change.synced) (auto simp: is_native_def)
  then show ?thesis
    using i(1) initialized_of [OF i(1)] by (intro changes_ok_store [OF i(4) e]) (auto simp: account_is_initialized_def)
qed

lemma change_spend:
  assumes "authorize_spend env pid w a n False ai sg = Inr b" "checked_sub (amount b) n = Some na" "\<not> is_frozen a"
    "ai \<in> set infos" "set sg \<subseteq> set infos"
  shows "account_change env pid w infos a (Some (b\<lparr>amount := na\<rparr>))"
proof (cases "\<exists>d. delegate a = Some d \<and> key ai = d")
  case True
  then obtain d r where d: "delegate a = Some d" "validate_owner env pid w d ai sg = Inr ()"
      "checked_sub (delegated_amount a) n = Some r" "b = a\<lparr>delegated_amount := r, delegate := (if r = 0 then None else Some d)\<rparr>"
    using assms(1) by (auto simp: authorize_spend_def spend_allowance_def change_simps Let_def split: if_splits)
  have "unat (amount a) = unat na + unat n" "unat (delegated_amount a) = unat r + unat n"
    using assms(2) d(3,4) by (simp_all add: checked_sub_eq_Some_iff)
  from account_change.spent_by_delegate [OF assms(3) d(1) authorizedI [OF d(2) assms(4,5)] this]
  moreover have "b\<lparr>amount := na\<rparr> = a\<lparr>amount := na, delegated_amount := r, delegate := (if r = 0 then None else Some d)\<rparr>"
    by (simp add: d(4))
  ultimately show ?thesis by (simp only:)
next
  case False
  then have b: "b = a" "validate_owner env pid w (acc_owner a) ai sg = Inr ()"
    using assms(1) by (auto simp: authorize_spend_def change_simps split: option.splits)
  have "na \<le> amount a" using assms(2) b(1) by (simp add: checked_sub_eq_Some_iff word_le_nat_alt)
  from account_change.spent_by_owner [OF assms(3) this] authorizedI [OF b(2) assms(4,5)] show ?thesis by (simp add: b(1))
qed

lemma changes_mint_to:
  assumes h: "process_mint_to env pid w infos n x = Inr w'" and e: "env_ok env"
  shows "changes_ok env pid w infos w'"
proof -
  from h obtain mi di a m na ns w1 where
    a: "account_of (account_data (acct w di)) = Some a" "\<not> is_frozen a" "key mi = acc_mint a"
    and m: "mint_of (account_data (acct w mi)) = Some m"
    and v: "checked_add (amount a) n = Some na"
    and s: "store_account env (a\<lparr>amount := na\<rparr>) di w = Inr w1" "store_mint env (m\<lparr>mint_supply := ns\<rparr>) mi w1 = Inr w'"
    unfolding process_mint_to_def
    by (auto simp: change_simps check_if_zero unpack_account_iff [OF e] unpack_mint_iff [OF e] split del: if_split)
  have "amount a \<le> na" using v by (simp add: checked_add_eq_Some_iff word_le_nat_alt)
  then have "changes_ok env pid w infos w1"
    using a initialized_of [OF a(1)]
    by (intro changes_ok_store [OF s(1) e]) (auto simp: account_is_initialized_def intro!: account_change.credited)
  then show ?thesis using changes_ok_store_mint [OF s(2) e] mint_of_len [OF m] by simp
qed

lemma changes_burn:
  assumes h: "process_burn env pid w infos n x = Inr w'" and e: "env_ok env"
  shows "changes_ok env pid w infos w'"
proof -
  from h obtain mi si ai sg a b m na ns w1 where infos: "infos = si # mi # ai # sg"
    and a: "account_of (account_data (acct w si)) = Some a" "\<not> is_frozen a" "key mi = acc_mint a"
    and m: "mint_of (account_data (acct w mi)) = Some m"
    and b: "(if \<not> is_owned_by_system_program_or_incinerator env a
       then authorize_spend env pid w a n False ai sg else Inr a) = Inr b"
    and v: "checked_sub (amount b) n = Some na"
    and s: "store_account env (b\<lparr>amount := na\<rparr>) si w = Inr w1" "store_mint env (m\<lparr>mint_supply := ns\<rparr>) mi w1 = Inr w'"
    unfolding process_burn_def
    by (auto simp: change_simps check_if_zero unpack_account_iff [OF e] unpack_mint_iff [OF e] split del: if_split)
  have st: "state b = state a" using b authorize_spend_keeps by (auto split: if_splits)
  have c: "account_change env pid w infos a (Some (b\<lparr>amount := na\<rparr>))"
  proof (cases "is_owned_by_system_program_or_incinerator env a")
    case True
    moreover have "na \<le> amount a" using v b True by (simp add: checked_sub_eq_Some_iff word_le_nat_alt)
    ultimately show ?thesis using b account_change.spent_by_owner [OF a(2)] by simp
  next
    case False
    then show ?thesis using b by (intro change_spend [OF _ v a(2)]) (auto simp: infos)
  qed
  have "changes_ok env pid w infos w1"
    using a(1) c initialized_of [OF a(1)] st
    by (intro changes_ok_store [OF s(1) e]) (auto simp: account_is_initialized_def)
  then show ?thesis using changes_ok_store_mint [OF s(2) e] mint_of_len [OF m] by simp
qed

lemma changes_close:
  assumes h: "process_close_account env pid w infos = Inr w'" and e: "env_ok env"
  shows "changes_ok env pid w infos w'"
proof -
  from h obtain si di ai sg a l where infos: "infos = si # di # ai # sg" and ne: "key si \<noteq> key di"
    and a: "account_of (account_data (acct w si)) = Some a" "is_native a \<or> amount a = 0"
    and v: "(if \<not> is_owned_by_system_program_or_incinerator env a then validate_owner env pid w (close_key a) ai sg
      else require (key di = incinerator_id env) (Err InvalidAccountData)) = Inr ()"
    and w': "w' = delete_account env si (set_lamports (set_lamports w di l) si 0)"
    unfolding process_close_account_def
    by (auto simp: change_simps(1-4) unpack_account_iff [OF e] cmp_pubkeys_def Let_def
        simp flip: close_key_def split del: if_split)
  have D: "account_data (accts w' k) = (if k = key si then [] else account_data (accts w k))" for k
    using ne by (simp add: w' delete_account_def)
  have "authorized env pid w infos (close_key a) \<or> is_owned_by_system_program_or_incinerator env a"
    using v by (auto simp: infos intro: authorizedI split: if_splits)
  then have c: "account_change env pid w infos a None" using a(2) by (intro account_change.closed)
  show ?thesis
    using a(1) c by (auto simp: changes_ok_def D of_len_None intro: account_change.same)
qed

lemma changes_initialize_account:
  assumes h: "process_initialize_account_inner env pid w infos owner rs = Inr w'" and e: "env_ok env"
  shows "changes_ok env pid w infos w'"
proof (rule initialize_accountE [OF assms])
  fix i mi a b
  assume i: "account_unpack_from_slice (account_data (acct w i)) = Inr a" "\<not> account_is_initialized a"
      "store_account env b i w = Inr w'" "state b = Initialized"
  have "account_of (account_data (acct w i)) = None" using i(1,2) by (simp add: account_of_def)
  then show ?thesis using i(4) by (intro changes_ok_store [OF i(3) e]) (auto simp: account_is_initialized_def)
qed

lemma changes_initialize_mint:
  "process_initialize_mint_inner env w infos d ma fa rs = Inr w' \<Longrightarrow> env_ok env \<Longrightarrow> changes_ok env pid w infos w'"
  by (auto simp: process_initialize_mint_inner_def bindr_eq_Inr_iff intro: changes_ok_mint_only)

lemma changes_initialize_multisig:
  assumes h: "process_initialize_multisig_inner env w infos m rs = Inr w'" and e: "env_ok env"
  shows "changes_ok env pid w infos w'"
proof -
  from h obtain i ms d where "length (account_data (acct w i)) = 355" "w' = set_data w i d"
    by (auto simp: process_initialize_multisig_inner_def bindr_eq_Inr_iff Let_def unpack_unchecked_iff [OF e])
  then show ?thesis
    by (auto simp: changes_ok_def of_len_None intro: account_change.same)
qed

lemma changes_transfer:
  assumes h: "process_transfer env pid w infos n x = Inr w'" and e: "env_ok env"
  shows "changes_ok env pid w infos w'"
  using h e
proof (cases rule: process_transferE)
  case self
  then show ?thesis by (simp add: changes_ok_refl)
next
  case (moved si di ai sg a a1 b na nb w1 w2)
  note L = lamports_moved [OF moved(11,1)]
  have k: "state a1 = state a" using authorize_spend_keeps [OF moved(7)] by simp
  have init: "account_is_initialized (a1\<lparr>amount := na\<rparr>)" "account_is_initialized (b\<lparr>amount := nb\<rparr>)"
    using initialized_of [OF moved(2)] initialized_of [OF moved(3)] k by (simp_all add: account_is_initialized_def)
  have c: "account_change env pid w infos a (Some (a1\<lparr>amount := na\<rparr>))"
    using moved(14,15) by (intro change_spend [OF moved(7,9,4)])
  have "amount b \<le> nb" using moved(10) by (simp add: checked_add_eq_Some_iff word_le_nat_alt)
  then have c': "account_change env pid w infos b (Some (b\<lparr>amount := nb\<rparr>))"
    using moved(5) by (intro account_change.credited)
  show ?thesis
    unfolding changes_ok_def
  proof (intro allI impI)
    fix j z assume z: "account_of (account_data (accts w j)) = Some z"
    consider "j = key di" | "j = key si" "j \<noteq> key di" | "j \<noteq> key si" "j \<noteq> key di" by blast
    then show "account_change env pid w infos z (account_of (account_data (accts w' j)))"
      using z moved(2,3) c c' L(1) [of j] store_account_frame(5) [OF moved(13) e init(2)]
        store_account_frame(3) [OF moved(13) e] store_account_frame(5) [OF moved(12) e init(1)]
        store_account_frame(3) [OF moved(12) e]
      by cases (auto intro: account_change.same)
  qed
qed

lemma process_changes:
  assumes h: "process env pid w infos input = Inr w'" and e: "env_ok env"
  shows "changes_ok env pid w infos w'"
proof -
  from h obtain i where i: "process_instruction env pid w infos i = Inr w'"
    by (auto simp: process_def bindr_eq_Inr_iff)
  show ?thesis
    using i by (cases i) (auto simp: process_instruction_def process_initialize_mint_def process_initialize_mint2_def
      process_initialize_account_def process_initialize_account2_def process_initialize_account3_def
      process_initialize_multisig_def process_initialize_multisig2_def process_get_account_data_size_def
      process_amount_to_ui_amount_def process_ui_amount_to_amount_def process_initialize_immutable_owner_def
      bindr_eq_Inr_iff
      intro: changes_initialize_mint [OF _ e] changes_initialize_account [OF _ e] changes_initialize_multisig [OF _ e]
        changes_transfer [OF _ e] changes_approve [OF _ e] changes_revoke [OF _ e] changes_mint_to [OF _ e]
        changes_burn [OF _ e] changes_close [OF _ e] changes_toggle_freeze [OF _ e] changes_sync_native [OF _ e]
        changes_set_authority [OF _ e] changes_ok_refl)
qed

section \<open>Quorums\<close>

text \<open>The positions ticked off, and what a tick means.\<close>

definition ticks :: "bool list \<Rightarrow> nat set" where
  "ticks matched = {p. p < length matched \<and> matched ! p}"

definition backed :: "account_info list \<Rightarrow> pubkey list \<Rightarrow> nat set" where
  "backed infos ks = {p. p < length ks \<and> (\<exists>i \<in> set infos. key i = ks ! p \<and> is_signer i)}"

lemma ticks_update: "p < length matched \<Longrightarrow> ticks (matched[p := True]) = insert p (ticks matched)"
  by (auto simp: ticks_def nth_list_update split: if_splits)

lemma finite_ticks [simp]: "finite (ticks matched)"
  by (simp add: ticks_def)

lemma card_ticks_le: "card (ticks matched) \<le> length matched"
  using card_mono [of "{..<length matched}" "ticks matched"] by (auto simp: ticks_def)

lemma match_signer_ticks:
  assumes "match_signer i pos ks (matched, num) = Inr (matched', num')"
    "pos + length ks \<le> length matched" "length matched < 256" "unat num = card (ticks matched)"
  shows "length matched' = length matched \<and> unat num' = card (ticks matched') \<and>
    (\<forall>p \<in> ticks matched'. p \<in> ticks matched \<or> (pos \<le> p \<and> p - pos \<in> backed [i] ks))"
  using assms
proof (induction ks arbitrary: pos matched num)
  case (Cons k ks)
  have shift: "pos \<le> p \<and> p - pos \<in> backed [i] (k # ks)" if "Suc pos \<le> p \<and> p - Suc pos \<in> backed [i] ks" for p
  proof -
    have "p - pos = Suc (p - Suc pos)" using that by (simp add: Suc_diff_Suc Suc_le_eq)
    then show ?thesis using that by (simp add: backed_def)
  qed
  show ?case
  proof (cases "k = key i \<and> \<not> matched ! pos")
    case True
    have pos: "pos < length matched" using Cons.prems(2) by simp
    have sg: "is_signer i" using Cons.prems(1) True by (auto simp: cmp_pubkeys_def split: if_splits)
    have fresh: "pos \<notin> ticks matched" using True by (simp add: ticks_def)
    have lt: "card (ticks matched) < length matched"
      using card_ticks_le [of "matched[pos := True]"] fresh pos by (simp add: ticks_update)
    then have num: "unat (num + 1) = card (ticks (matched[pos := True]))"
      using Cons.prems(3,4) fresh pos unat_add_lt [of num 1] by (simp add: ticks_update)
    have "match_signer i (Suc pos) ks (matched[pos := True], num + 1) = Inr (matched', num')"
      using Cons.prems(1) True sg by (simp add: cmp_pubkeys_def)
    from Cons.IH [OF this _ _ num] Cons.prems(2,3)
    have IH: "length matched' = length matched" "unat num' = card (ticks matched')"
      "\<forall>p \<in> ticks matched'. p \<in> insert pos (ticks matched) \<or> (Suc pos \<le> p \<and> p - Suc pos \<in> backed [i] ks)"
      using pos by (simp_all add: ticks_update)
    have "pos - pos \<in> backed [i] (k # ks)" using True sg by (simp add: backed_def)
    then have "p \<in> ticks matched \<or> (pos \<le> p \<and> p - pos \<in> backed [i] (k # ks))" if "p \<in> ticks matched'" for p
      using IH(3) shift [of p] that by auto
    then show ?thesis using IH(1,2) by blast
  next
    case False
    then have "match_signer i (Suc pos) ks (matched, num) = Inr (matched', num')"
      using Cons.prems(1) by (auto simp: cmp_pubkeys_def split: if_splits)
    from Cons.IH [OF this _ Cons.prems(3,4)] Cons.prems(2)
    have IH: "length matched' = length matched" "unat num' = card (ticks matched')"
      "\<forall>p \<in> ticks matched'. p \<in> ticks matched \<or> (Suc pos \<le> p \<and> p - Suc pos \<in> backed [i] ks)" by simp_all
    have "p \<in> ticks matched \<or> (pos \<le> p \<and> p - pos \<in> backed [i] (k # ks))" if "p \<in> ticks matched'" for p
      using IH(3) shift [of p] that by blast
    then show ?thesis using IH(1,2) by blast
  qed
qed simp

lemma backed_mono: "set infos \<subseteq> set infos' \<Longrightarrow> backed infos ks \<subseteq> backed infos' ks"
  by (auto simp: backed_def)

lemma match_signers_ticks:
  assumes "match_signers ms is (matched, num) = Inr (matched', num')"
    "unat (ms_n ms) \<le> length matched" "length matched < 256" "unat num = card (ticks matched)"
  shows "unat num' = card (ticks matched') \<and>
    (\<forall>p \<in> ticks matched'. p \<in> ticks matched \<or> p \<in> backed is (take (unat (ms_n ms)) (signers ms)))"
  using assms
proof (induction "is" arbitrary: matched num)
  case (Cons i "is")
  let ?ks = "take (unat (ms_n ms)) (signers ms)"
  from Cons.prems(1) obtain m1 n1 where m1: "match_signer i 0 ?ks (matched, num) = Inr (m1, n1)"
      "match_signers ms is (m1, n1) = Inr (matched', num')"
    by (auto simp: bindr_eq_Inr_iff)
  have "0 + length ?ks \<le> length matched" using Cons.prems(2) by simp
  from match_signer_ticks [OF m1(1) this Cons.prems(3,4)]
  have s: "length m1 = length matched" "unat n1 = card (ticks m1)"
    "\<forall>p \<in> ticks m1. p \<in> ticks matched \<or> p \<in> backed [i] ?ks" by simp_all
  have "unat num' = card (ticks matched') \<and> (\<forall>p \<in> ticks matched'. p \<in> ticks m1 \<or> p \<in> backed is ?ks)"
    using Cons.IH [OF m1(2)] Cons.prems(2,3) s by simp
  moreover have "backed [i] ?ks \<subseteq> backed (i # is) ?ks" "backed is ?ks \<subseteq> backed (i # is) ?ks"
    by (auto intro!: backed_mono)
  ultimately show ?case using s(3) by blast
qed simp

lemma match_signers_quorum:
  assumes "match_signers ms is (replicate MAX_SIGNERS False, 0) = Inr (matched, num)" "unat (ms_n ms) \<le> MAX_SIGNERS"
  shows "unat num \<le> card (backed is (take (unat (ms_n ms)) (signers ms)))"
proof -
  have z: "ticks (replicate MAX_SIGNERS False) = {}" by (auto simp: ticks_def)
  have "unat num = card (ticks matched) \<and> ticks matched \<subseteq> backed is (take (unat (ms_n ms)) (signers ms))"
    using match_signers_ticks [OF assms(1)] assms(2) z by auto
  moreover have "finite (backed is (take (unat (ms_n ms)) (signers ms)))" by (simp add: backed_def)
  ultimately show ?thesis using card_mono by metis
qed

end
