(* ===== verification/Token_Safety.thy ===== *)
theory Token_Safety
  imports Token_Authority
begin

text \<open>
  No handler of the SPL Token program panics on accounts the program itself can have produced: no
  array reference is too short, no index is out of range and no arithmetic is unchecked.
\<close>

definition calm :: "failure + 'a \<Rightarrow> bool" where
  "calm m \<longleftrightarrow> m \<noteq> Inl Panic"

named_theorems calm_intros \<open>computations that do not panic\<close>

lemma calm_bindr [calm_intros]: "calm m \<Longrightarrow> (\<And>x. m = Inr x \<Longrightarrow> calm (f x)) \<Longrightarrow> calm (bindr m f)"
  by (cases m) (auto simp: calm_def)

lemma calm_base [simp, calm_intros]:
  "calm (Inr x)" "calm (Inl (Err e))" "calm (require b (Err e))" "calm (ok_or y (Err e))"
  by (simp_all add: calm_def)

lemma calm_require [calm_intros]: "b \<Longrightarrow> calm (require b Panic)"
  by (simp add: calm_def)

lemma calm_if [calm_intros]: "(b \<Longrightarrow> calm m) \<Longrightarrow> (\<not> b \<Longrightarrow> calm m') \<Longrightarrow> calm (if b then m else m')"
  by simp

lemma calm_prod [calm_intros]: "(\<And>a b. p = (a, b) \<Longrightarrow> calm (f a b)) \<Longrightarrow> calm (case p of (a, b) \<Rightarrow> f a b)"
  by (cases p) simp

lemma calm_option [calm_intros]:
  "(x = None \<Longrightarrow> calm m) \<Longrightarrow> (\<And>y. x = Some y \<Longrightarrow> calm (f y)) \<Longrightarrow> calm (case x of None \<Rightarrow> m | Some y \<Rightarrow> f y)"
  by (cases x) simp_all

lemma calm_map_err [calm_intros]: "calm m \<Longrightarrow> calm (map_err (Err e) m)"
  by (auto simp: calm_def map_err_def split: sum.splits failure.splits)

section \<open>Stored data\<close>

lemma calm_unpack_parts [simp, calm_intros]:
  "calm (unpack_coption_key d)" "calm (unpack_coption_u64 d)" "calm (unpack_bool b)"
  by (simp_all add: calm_def unpack_coption_key_def unpack_coption_u64_def unpack_bool_def)

lemma calm_unpack_slice:
  "82 \<le> length d \<Longrightarrow> calm (mint_unpack_from_slice d)"
  "165 \<le> length d \<Longrightarrow> calm (account_unpack_from_slice d)"
  "355 \<le> length d \<Longrightarrow> calm (multisig_unpack_from_slice d)"
  by (auto simp: mint_unpack_from_slice_def account_unpack_from_slice_def multisig_unpack_from_slice_def
      intro!: calm_intros)

lemma calm_pack_slice:
  "82 \<le> length d \<Longrightarrow> calm (mint_pack_into_slice m d)"
  "165 \<le> length d \<Longrightarrow> calm (account_pack_into_slice a d)"
  "355 \<le> length d \<Longrightarrow> calm (multisig_pack_into_slice ms d)"
  by (auto simp: mint_pack_into_slice_def account_pack_into_slice_def multisig_pack_into_slice_def Let_def
      intro!: calm_intros)

lemma calm_methods [calm_intros]:
  assumes "env_ok env"
  shows "calm (m_unpack (mint_pack env) d)" "calm (m_unpack (account_pack env) d)" "calm (m_unpack (multisig_pack env) d)"
    "calm (m_unpack_unchecked (mint_pack env) d)" "calm (m_unpack_unchecked (account_pack env) d)"
    "calm (m_unpack_unchecked (multisig_pack env) d)" "calm (m_pack (multisig_pack env) ms d)"
    "calm (store_account env a i w)" "calm (store_mint env m i w)"
  using assms unfolding env_ok_def
  by (auto simp: pack_trait_def Let_def store_account_def store_mint_def
      intro!: calm_intros calm_unpack_slice calm_pack_slice)

section \<open>Authorization\<close>

lemma calm_match_signer [calm_intros]: "calm (match_signer i pos ks acc)"
proof (induction ks arbitrary: pos acc)
  case (Cons k ks)
  then show ?case by (cases acc) simp
qed simp

lemma calm_match_signers: "unat (ms_n ms) \<le> length (signers ms) \<Longrightarrow> calm (match_signers ms is acc)"
  by (induction "is" arbitrary: acc) (auto intro!: calm_intros)

lemma calm_validate_owner [calm_intros]:
  assumes e: "env_ok env" and q: "quorums_ok pid w"
  shows "calm (validate_owner env pid w k ai sg)"
  unfolding validate_owner_def
proof (intro calm_intros e)
  fix ms assume "cmp_pubkeys pid (account_program (acct w ai)) \<and> length (account_data (acct w ai)) = MULTISIG_LEN"
    and u: "m_unpack (multisig_pack env) (account_data (acct w ai)) = Inr ms"
  then have "quorum_ok (account_data (acct w ai))" "length (account_data (acct w ai)) = 355"
    using q by (auto simp: quorums_ok_def cmp_pubkeys_def)
  moreover have u': "multisig_unpack_from_slice (account_data (acct w ai)) = Inr ms"
    using u e by (auto simp: env_ok_def pack_trait_def result_simps)
  moreover have "length (signers ms) = 11" using u' by (auto simp: multisig_unpack_from_slice_def result_simps)
  ultimately show "calm (match_signers ms sg (replicate MAX_SIGNERS False, 0))"
    by (intro calm_match_signers) (simp add: quorum_ok_def)
qed

lemma calm_helpers [calm_intros]:
  "calm (next_account_info it)" "calm (next_expected_mint it x)" "calm (check_account_owner pid w i)"
  "calm (spend_allowance a n)" "calm (move_lamports w i j n)" "calm (check_decimals m x)"
  "calm (initialized_account env a mk ow l r)"
  by (auto simp: next_account_info_def next_expected_mint_def check_account_owner_def spend_allowance_def
      move_lamports_def check_decimals_def initialized_account_def Let_def intro!: calm_intros split: list.split)

lemma calm_check_expected_mint [calm_intros]: "env_ok env \<Longrightarrow> calm (check_expected_mint env w a x)"
  by (auto simp: check_expected_mint_def intro!: calm_intros)

lemma calm_authorized_helpers [calm_intros]:
  assumes "env_ok env" "quorums_ok pid w"
  shows "calm (authorize_spend env pid w a n st ai sg)"
    "calm (set_account_authority env pid w a t k ai sg)" "calm (set_mint_authority env pid w m t k ai sg)"
    "calm (check_new_account_mint env pid w i)" "calm (query_mint env pid w infos)"
  using assms
  by (auto simp: authorize_spend_def set_account_authority_def set_mint_authority_def
      check_new_account_mint_def query_mint_def Let_def
      intro!: calm_intros split: authority_type.split)

section \<open>Handlers\<close>

definition rents_calm :: "token_env \<Rightarrow> bool" where
  "rents_calm env \<longleftrightarrow> (\<forall>k a. calm (rent_from_account env k a)) \<and> calm (rent_get env)"

lemma calm_get_rent [calm_intros]: "rents_calm env \<Longrightarrow> calm (get_rent env w b it)"
  by (auto simp: get_rent_def rents_calm_def intro!: calm_intros)

lemma set_signers_calm:
  assumes "multisig_unpack_from_slice d = Inr ms" "length sg \<le> 255"
    "is_valid_signer_index (unat (of_nat (length sg) :: u8))"
  shows "calm (set_signers (signers ms) sg)"
proof -
  have "length (signers ms) = 11" using assms(1) by (auto simp: multisig_unpack_from_slice_def result_simps)
  moreover have "length sg \<le> 11" using assms(2,3) by (simp add: is_valid_signer_index_def unat_of_nat)
  ultimately show ?thesis by (simp add: set_signers_def)
qed

lemma get_rent_length: "get_rent env w b it = Inr (r, it') \<Longrightarrow> length it' \<le> length it"
  by (auto simp: get_rent_def bindr_eq_Inr_iff next_account_info_iff split: if_splits)

lemma calm_initialize:
  assumes "env_ok env" "quorums_ok pid w" "rents_calm env" "length infos \<le> 255"
  shows "calm (process_initialize_mint_inner env w infos d ma fa rs)"
    "calm (process_initialize_account_inner env pid w infos ow rs)"
    "calm (process_initialize_multisig_inner env w infos m rs)"
proof -
  show "calm (process_initialize_mint_inner env w infos d ma fa rs)"
    unfolding process_initialize_mint_inner_def by (intro calm_intros assms)
  show "calm (process_initialize_account_inner env pid w infos ow rs)"
    unfolding process_initialize_account_inner_def by (intro calm_intros assms)
  show "calm (process_initialize_multisig_inner env w infos m rs)"
    unfolding process_initialize_multisig_inner_def Let_def
  proof (intro calm_intros assms)
    fix x mi it y r sg ms and u :: unit
    assume "next_account_info infos = Inr x" "x = (mi, it)" "get_rent env w rs it = Inr y" "y = (r, sg)"
      "m_unpack_unchecked (multisig_pack env) (account_data (acct w mi)) = Inr ms"
      "require (is_valid_signer_index (unat (of_nat (length sg) :: u8))) (terr InvalidNumberOfProvidedSigners) = Inr u"
    then show "calm (set_signers (signers ms) sg)"
      using assms(4) unpack_unchecked_iff(3) [OF assms(1)] get_rent_length [of env w rs it r sg]
      by (intro set_signers_calm) (auto simp: next_account_info_iff)
  qed
qed

lemma calm_tokens:
  assumes "env_ok env" "quorums_ok pid w"
  shows "calm (process_transfer env pid w infos n x)" "calm (process_approve env pid w infos n x)"
    "calm (process_revoke env pid w infos)" "calm (process_set_authority env pid w infos t k)"
    "calm (process_mint_to env pid w infos n x)" "calm (process_burn env pid w infos n x)"
    "calm (process_close_account env pid w infos)" "calm (process_toggle_freeze_account env pid w infos b)"
    "calm (process_sync_native env pid w infos)" "calm (process_initialize_immutable_owner env w infos)"
  unfolding process_transfer_def process_approve_def process_revoke_def process_set_authority_def
    process_mint_to_def process_burn_def process_close_account_def process_toggle_freeze_account_def
    process_sync_native_def process_initialize_immutable_owner_def Let_def
  by (intro calm_intros assms)+

lemma calm_queries:
  assumes "env_ok env" "quorums_ok pid w"
  shows "calm (process_get_account_data_size env pid w infos)" "calm (process_amount_to_ui_amount env pid w infos n)"
    "calm (process_ui_amount_to_amount env pid w infos s)"
  unfolding process_get_account_data_size_def process_amount_to_ui_amount_def process_ui_amount_to_amount_def
    try_ui_amount_into_amount_def Let_def
  by (intro calm_intros assms)+

lemma calm_process_instruction:
  assumes "env_ok env" "quorums_ok pid w" "rents_calm env" "length infos \<le> 255"
  shows "calm (process_instruction env pid w infos ins)"
  by (cases ins) (simp_all add: process_instruction_def process_initialize_mint_def process_initialize_mint2_def
      process_initialize_account_def process_initialize_account2_def process_initialize_account3_def
      process_initialize_multisig_def process_initialize_multisig2_def calm_initialize [OF assms]
      calm_tokens [OF assms(1,2)] calm_queries [OF assms(1,2)])

section \<open>Instruction data\<close>

lemma calm_unpack_fields [calm_intros]:
  "calm (split_first d)" "calm (unpack_pubkey d)" "calm (unpack_pubkey_option d)" "calm (unpack_u64 d)"
  "calm (authority_type_from b)"
  by (auto simp: split_first_def unpack_pubkey_def unpack_pubkey_option_def unpack_u64_def authority_type_from_def
      split: list.split)

lemma calm_unpack_groups [calm_intros]: "calm (unpack_amount_decimals d)" "calm (unpack_mint_fields d)"
  unfolding unpack_amount_decimals_def unpack_mint_fields_def by (intro calm_intros)+

lemma calm_unpack: "calm (unpack d)"
  unfolding unpack_def by (intro calm_intros) auto

end
