(* ===== verification/Token_History.thy ===== *)
theory Token_History
  imports Token_Refinement
begin

text \<open>
  Histories of the accounts of the SPL Token program: instructions of the program in any order and
  number, between whatever the rest of the system does to its accounts. The invariant of the ledger
  holds after every history.
\<close>

section \<open>Histories\<close>

text \<open>
  What may happen to the accounts between two instructions of the program: its own accounts keep
  their data and may be given lamports; accounts newly assigned to it are zeroed.
\<close>

definition outside_step :: "pubkey \<Rightarrow> world \<Rightarrow> world \<Rightarrow> bool" where
  "outside_step pid w w' \<longleftrightarrow> (\<forall>k.
     (account_program (accts w k) = pid \<longrightarrow> account_program (accts w' k) = pid \<and>
        account_data (accts w' k) = account_data (accts w k) \<and> lamports (accts w k) \<le> lamports (accts w' k)) \<and>
     (account_program (accts w k) \<noteq> pid \<and> account_program (accts w' k) = pid \<longrightarrow>
        account_data (accts w' k) = replicate (length (account_data (accts w' k))) 0))"

inductive token_run :: "token_env \<Rightarrow> pubkey \<Rightarrow> world \<Rightarrow> bool" for env pid where
  deployed: "token_run env pid w" if "\<And>k. account_program (accts w k) \<noteq> pid"
| processed: "token_run env pid w'"
    if "token_run env pid w" "process env pid w infos input = Inr w'" "runtime_accepts pid w w'"
| outside: "token_run env pid w'" if "token_run env pid w" "outside_step pid w w'"

lemma zero_data:
  "account_of (replicate n 0) = None" "mint_of (replicate n 0) = None" "quorum_ok (replicate n 0)"
  "n = 82 \<Longrightarrow> mint_unpack_from_slice (replicate n 0) = Inr m \<Longrightarrow> mint_supply m = 0"
proof -
  have z: "take 4 (replicate 36 (0 :: u8)) = [0, 0, 0, 0]" "take 4 (replicate 12 (0 :: u8)) = [0, 0, 0, 0]"
    by (simp_all add: numeral_eq_Suc)
  have f: "field i k (replicate n 0) = replicate (min k (n - i)) 0" for i k by (simp add: field_def)
  have "account_unpack_from_slice (replicate 165 0) = Inr a \<Longrightarrow> state a = Uninitialized" for a
    by (auto simp: account_unpack_from_slice_def result_simps account_state_try_from_primitive_def)
  then show "account_of (replicate n 0) = None"
    by (auto simp: account_of_def account_is_initialized_def split: sum.split)
  have "mint_unpack_from_slice (replicate 82 0) = Inr a \<Longrightarrow> \<not> mint_is_initialized a" for a
    by (auto simp: mint_unpack_from_slice_def result_simps unpack_bool_def)
  then show "mint_of (replicate n 0) = None" by (auto simp: mint_of_def split: sum.split)
  show "quorum_ok (replicate n 0)"
    by (auto simp: quorum_ok_def multisig_unpack_from_slice_def result_simps)
  have "from_le_bytes (replicate 8 0) = (0 :: u64)"
    by (simp add: from_le_bytes_def numeral_eq_Suc)
  then show "n = 82 \<Longrightarrow> mint_unpack_from_slice (replicate n 0) = Inr m \<Longrightarrow> mint_supply m = 0"
    by (auto simp: mint_unpack_from_slice_def result_simps field_def)
qed

definition token_invariant :: "token_env \<Rightarrow> pubkey \<Rightarrow> world \<Rightarrow> bool" where
  "token_invariant env pid w \<longleftrightarrow> ledger_ok (native_mint_id env) (abs_ledger pid w) \<and>
     fresh_mints_empty pid w \<and> quorums_ok pid w"

lemma outside_step_abs:
  assumes "outside_step pid w w'"
  shows "toks (abs_ledger pid w') = toks (abs_ledger pid w)" "mints (abs_ledger pid w') = mints (abs_ledger pid w)"
    "toks (abs_ledger pid w) k \<noteq> None \<Longrightarrow> lams (abs_ledger pid w) k \<le> lams (abs_ledger pid w') k"
proof -
  have *: "(account_program (accts w k) = pid \<longrightarrow> account_program (accts w' k) = pid \<and>
        account_data (accts w' k) = account_data (accts w k) \<and> lamports (accts w k) \<le> lamports (accts w' k)) \<and>
     (account_program (accts w k) \<noteq> pid \<and> account_program (accts w' k) = pid \<longrightarrow>
        account_data (accts w' k) = replicate (length (account_data (accts w' k))) 0)" for k
    using assms unfolding outside_step_def by blast
  show "toks (abs_ledger pid w') = toks (abs_ledger pid w)" "mints (abs_ledger pid w') = mints (abs_ledger pid w)"
    unfolding abs_ledger_def fun_eq_iff using * zero_data(1,2) by simp_all metis+
  show "toks (abs_ledger pid w) k \<noteq> None \<Longrightarrow> lams (abs_ledger pid w) k \<le> lams (abs_ledger pid w') k"
    using * [of k] by (simp add: abs_ledger_def word_le_nat_alt split: if_splits)
qed

lemma token_invariant_outside:
  assumes i: "token_invariant env pid w" and o: "outside_step pid w w'"
  shows "token_invariant env pid w'"
proof -
  note A = outside_step_abs [OF o]
  have "abs_ledger pid w' = (abs_ledger pid w)\<lparr>lams := lams (abs_ledger pid w')\<rparr>"
    using A(1,2) by simp
  moreover have "ledger_step (native_mint_id env) (abs_ledger pid w) ((abs_ledger pid w)\<lparr>lams := lams (abs_ledger pid w')\<rparr>)"
    using A(3) by (intro ledger_step.fund)
  ultimately have "ledger_ok (native_mint_id env) (abs_ledger pid w')"
    using ledger_step_ok i by (metis token_invariant_def)
  moreover have "fresh_mints_empty pid w'"
    using i o zero_data(4) unfolding token_invariant_def fresh_mints_empty_def outside_step_def by (metis lens(2))
  moreover have "quorums_ok pid w'"
    using i o zero_data(3) unfolding token_invariant_def quorums_ok_def outside_step_def by metis
  ultimately show ?thesis by (simp add: token_invariant_def)
qed

lemma token_invariant_process:
  assumes i: "token_invariant env pid w" and e: "env_ok env"
    and h: "process env pid w infos input = Inr w'" and acc: "runtime_accepts pid w w'"
  shows "token_invariant env pid w'"
proof -
  from h obtain ins where "process_instruction env pid w infos ins = Inr w'"
    by (auto simp: process_def bindr_eq_Inr_iff)
  then have "refines env pid w w'"
    using refine_instruction [OF _ e acc] i by (simp add: token_invariant_def)
  then show ?thesis
    using i ledger_step_ok fresh_mints_empty_writes quorums_ok_writes unfolding token_invariant_def refines_def by blast
qed

lemma token_run_invariant: "token_run env pid w \<Longrightarrow> env_ok env \<Longrightarrow> token_invariant env pid w"
proof (induction rule: token_run.induct)
  case (deployed w)
  then show ?case
    by (auto simp: token_invariant_def ledger_ok_def abs_ledger_def fresh_mints_empty_def quorums_ok_def)
next
  case processed
  then show ?case using token_invariant_process by blast
next
  case outside
  then show ?case using token_invariant_outside by blast
qed

end
