(* ===== verification/Token_Example.thy ===== *)
theory Token_Example
  imports Token_History
begin

text \<open>
  A concrete environment and a concrete history of the SPL Token program: a mint and two accounts are
  created, tokens are minted and moved. The stored bytes are kept as the result of the pack functions.
\<close>

section \<open>Stored bytes\<close>

definition account_bytes :: "token_account \<Rightarrow> u8 list \<Rightarrow> u8 list" where
  "account_bytes a d = projr (account_pack_into_slice a d)"

definition mint_bytes :: "mint \<Rightarrow> u8 list \<Rightarrow> u8 list" where
  "mint_bytes m d = projr (mint_pack_into_slice m d)"

lemma account_bytes_props [simp]:
  assumes "length d = 165"
  shows "length (account_bytes a d) = 165" "account_unpack_from_slice (account_bytes a d) = Inr a"
    "account_pack_into_slice a d = Inr (account_bytes a d)"
    "account_of (account_bytes a d) = (if account_is_initialized a then Some a else None)"
    "mint_of (account_bytes a d) = None"
  using account_unpack_pack [of d a] assms by (auto simp: account_bytes_def account_of_def mint_of_def)

lemma mint_bytes_props [simp]:
  assumes "length d = 82"
  shows "length (mint_bytes m d) = 82" "mint_unpack_from_slice (mint_bytes m d) = Inr m"
    "mint_pack_into_slice m d = Inr (mint_bytes m d)"
    "mint_of (mint_bytes m d) = (if mint_is_initialized m then Some m else None)"
    "account_of (mint_bytes m d) = None"
  using mint_unpack_pack [of d m] assms by (auto simp: mint_bytes_def account_of_def mint_of_def)

definition multisig_bytes :: "multisig \<Rightarrow> u8 list \<Rightarrow> u8 list" where
  "multisig_bytes ms d = projr (multisig_pack_into_slice ms d)"

lemma multisig_bytes_props [simp]:
  assumes "length d = 355" "length (signers ms) = 11"
  shows "length (multisig_bytes ms d) = 355" "multisig_unpack_from_slice (multisig_bytes ms d) = Inr ms"
    "multisig_pack_into_slice ms d = Inr (multisig_bytes ms d)"
    "account_of (multisig_bytes ms d) = None" "mint_of (multisig_bytes ms d) = None"
  using multisig_unpack_pack [of d ms] assms by (auto simp: multisig_bytes_def account_of_def mint_of_def)

lemma multisig_eq:
  "env_ok env \<Longrightarrow> length d = 355 \<Longrightarrow> length (signers ms) = 11 \<Longrightarrow> m_pack (multisig_pack env) ms d = Inr (multisig_bytes ms d)"
  "env_ok env \<Longrightarrow> length d = 355 \<Longrightarrow> multisig_unpack_from_slice d = Inr ms \<Longrightarrow> ms_is_initialized ms \<Longrightarrow>
    m_unpack (multisig_pack env) d = Inr ms"
  by (simp_all add: env_ok_def pack_trait_def Let_def)

lemma store_account_eq:
  "env_ok env \<Longrightarrow> length (account_data (acct w i)) = 165 \<Longrightarrow>
   store_account env a i w = Inr (set_data w i (account_bytes a (account_data (acct w i))))"
  by (simp add: store_account_def env_ok_def pack_trait_def Let_def)

lemma store_mint_eq:
  "env_ok env \<Longrightarrow> length (account_data (acct w i)) = 82 \<Longrightarrow>
   store_mint env m i w = Inr (set_data w i (mint_bytes m (account_data (acct w i))))"
  by (simp add: store_mint_def env_ok_def pack_trait_def Let_def)

lemma unpack_eq:
  "env_ok env \<Longrightarrow> account_of d = Some a \<Longrightarrow> m_unpack (account_pack env) d = Inr a"
  "env_ok env \<Longrightarrow> mint_of d = Some m \<Longrightarrow> m_unpack (mint_pack env) d = Inr m"
  by (simp_all add: unpack_account_iff unpack_mint_iff)

section \<open>The environment\<close>

definition ex_rent :: rent where
  "ex_rent = \<lparr>is_exempt = (\<lambda>l n. of_nat n \<le> l), minimum_balance = (\<lambda>n. of_nat n)\<rparr>"

definition ex_env :: token_env where
  "ex_env = \<lparr>native_mint_id = 50, system_program_id = 0, incinerator_id = 51,
     rent_from_account = (\<lambda>_ _. Inr ex_rent), rent_get = Inr ex_rent,
     mint_pack = pack_trait MINT_LEN mint_unpack_from_slice mint_pack_into_slice mint_is_initialized,
     account_pack = pack_trait ACCOUNT_LEN account_unpack_from_slice account_pack_into_slice account_is_initialized,
     multisig_pack = pack_trait MULTISIG_LEN multisig_unpack_from_slice multisig_pack_into_slice ms_is_initialized\<rparr>"

lemma ex_env_ok [simp]: "env_ok ex_env"
  by (simp add: env_ok_def ex_env_def)

lemma ex_env_simps [simp]:
  "native_mint_id ex_env = 50" "system_program_id ex_env = 0" "incinerator_id ex_env = 51"
  "rent_get ex_env = Inr ex_rent" "is_exempt ex_rent l n \<longleftrightarrow> of_nat n \<le> l" "minimum_balance ex_rent n = of_nat n"
  by (simp_all add: ex_env_def ex_rent_def)

lemma zero_unpack [simp]:
  "m_unpack_unchecked (mint_pack ex_env) (replicate 82 0) =
     Inr \<lparr>mint_authority = None, mint_supply = 0, decimals = 0, mint_is_initialized = False, freeze_authority = None\<rparr>"
  "m_unpack_unchecked (account_pack ex_env) (replicate 165 0) =
     Inr \<lparr>acc_mint = 0, acc_owner = 0, amount = 0, delegate = None, state = Uninitialized,
       native_reserve = None, delegated_amount = 0, close_authority = None\<rparr>"
  "m_unpack_unchecked (multisig_pack ex_env) (replicate 355 0) =
     Inr \<lparr>ms_m = 0, ms_n = 0, ms_is_initialized = False, signers = replicate 11 0\<rparr>"
  by (simp_all add: ex_env_def pack_trait_def Let_def mint_unpack_from_slice_def multisig_unpack_from_slice_def account_unpack_from_slice_def
      unpack_coption_key_def unpack_coption_u64_def unpack_bool_def account_state_try_from_primitive_def field_def
      from_le_bytes_def numeral_eq_Suc)

section \<open>A history\<close>

abbreviation info :: "pubkey \<Rightarrow> bool \<Rightarrow> account_info" where
  "info k s \<equiv> \<lparr>key = k, is_signer = s\<rparr>"

abbreviation fresh :: "nat \<Rightarrow> account" where
  "fresh n \<equiv> \<lparr>lamports = 1000, account_data = replicate n 0, account_program = 7\<rparr>"

definition ex_w0 :: world where
  "ex_w0 = \<lparr>accts = (\<lambda>_. \<lparr>lamports = 0, account_data = [], account_program = 0\<rparr>), return_data = []\<rparr>"

definition ex_w1 :: world where
  "ex_w1 = ex_w0\<lparr>accts := (accts ex_w0)(1 := fresh 82, 2 := fresh 165, 3 := fresh 165, 4 := fresh 165, 5 := fresh 355)\<rparr>"

abbreviation mint_at :: "u64 \<Rightarrow> mint" where
  "mint_at s \<equiv> \<lparr>mint_authority = Some 9, mint_supply = s, decimals = 6, mint_is_initialized = True,
     freeze_authority = Some 11\<rparr>"

abbreviation account_at :: "pubkey \<Rightarrow> u64 \<Rightarrow> token_account" where
  "account_at ow n \<equiv> \<lparr>acc_mint = 1, acc_owner = ow, amount = n, delegate = None, state = Initialized,
     native_reserve = None, delegated_amount = 0, close_authority = None\<rparr>"

abbreviation wrapped_at :: "pubkey \<Rightarrow> u64 \<Rightarrow> token_account" where
  "wrapped_at ow n \<equiv> \<lparr>acc_mint = 50, acc_owner = ow, amount = n, delegate = None, state = Initialized,
     native_reserve = Some 165, delegated_amount = 0, close_authority = None\<rparr>"

abbreviation put_account :: "pubkey \<Rightarrow> token_account \<Rightarrow> world \<Rightarrow> world" where
  "put_account k a w \<equiv> set_data w (info k False) (account_bytes a (account_data (accts w k)))"

abbreviation put_mint :: "pubkey \<Rightarrow> mint \<Rightarrow> world \<Rightarrow> world" where
  "put_mint k m w \<equiv> set_data w (info k False) (mint_bytes m (account_data (accts w k)))"

definition ex_w2 :: world where "ex_w2 = put_mint 1 (mint_at 0) ex_w1"
definition ex_w3 :: world where "ex_w3 = put_account 2 (account_at 8 0) ex_w2"
definition ex_w4 :: world where "ex_w4 = put_account 3 (account_at 10 0) ex_w3"
definition ex_w5 :: world where "ex_w5 = put_mint 1 (mint_at 100) (put_account 2 (account_at 8 100) ex_w4)"
definition ex_w6 :: world where "ex_w6 = put_account 4 (wrapped_at 8 835) ex_w5"
definition ex_w7 :: world where "ex_w7 = put_account 3 (account_at 10 30) (put_account 2 (account_at 8 70) ex_w6)"

lemma process_pack: "text_ok i \<Longrightarrow> process env pid w infos (pack i) = process_instruction env pid w infos i"
  by (simp add: process_def unpack_pack del: pack.simps)

lemma ex_w1_accts:
  "accts ex_w1 k = (if k = 5 then fresh 355 else if k = 4 then fresh 165 else if k = 3 then fresh 165 else if k = 2 then fresh 165
     else if k = 1 then fresh 82 else \<lparr>lamports = 0, account_data = [], account_program = 0\<rparr>)"
  by (simp add: ex_w1_def ex_w0_def)

lemmas ex_simps = process_pack process_instruction_def next_account_info_def get_rent_def set_data_def
  store_mint_eq store_account_eq unpack_eq cmp_pubkeys_def check_new_account_mint_def initialized_account_def
  check_account_owner_def map_err_def account_is_initialized_def is_frozen_def is_native_def
  validate_owner_def next_expected_mint_def check_expected_mint_def check_decimals_def authorize_spend_def
  checked_add_def checked_sub_def

lemma ex_accts:
  "accts ex_w2 = (accts ex_w1)(1 := (fresh 82)\<lparr>account_data := mint_bytes (mint_at 0) (replicate 82 0)\<rparr>)"
  "accts ex_w3 = (accts ex_w2)(2 := (fresh 165)\<lparr>account_data := account_bytes (account_at 8 0) (replicate 165 0)\<rparr>)"
  "accts ex_w4 = (accts ex_w3)(3 := (fresh 165)\<lparr>account_data := account_bytes (account_at 10 0) (replicate 165 0)\<rparr>)"
  "accts ex_w5 = (accts ex_w4)(
     1 := (fresh 82)\<lparr>account_data := mint_bytes (mint_at 100) (mint_bytes (mint_at 0) (replicate 82 0))\<rparr>,
     2 := (fresh 165)\<lparr>account_data :=
       account_bytes (account_at 8 100) (account_bytes (account_at 8 0) (replicate 165 0))\<rparr>)"
  "accts ex_w6 = (accts ex_w5)(4 := (fresh 165)\<lparr>account_data := account_bytes (wrapped_at 8 835) (replicate 165 0)\<rparr>)"
  by (simp_all add: ex_w2_def ex_w3_def ex_w4_def ex_w5_def ex_w6_def set_data_def ex_w1_accts fun_upd_twist)

lemma ex_w2_step: "process ex_env 7 ex_w1 [info 1 False] (pack (InitializeMint2 6 9 (Some 11))) = Inr ex_w2"
  by (simp add: ex_simps process_initialize_mint2_def process_initialize_mint_inner_def ex_w2_def ex_w1_accts
      del: pack.simps)

lemma ex_w3_step:
  "process ex_env 7 ex_w2 [info 2 False, info 1 False] (pack (InitializeAccount3 8)) = Inr ex_w3"
  by (simp add: ex_simps process_initialize_account3_def process_initialize_account_inner_def ex_w3_def ex_accts
      ex_w1_accts del: pack.simps)

lemma ex_w4_step:
  "process ex_env 7 ex_w3 [info 3 False, info 1 False] (pack (InitializeAccount3 10)) = Inr ex_w4"
  by (simp add: ex_simps process_initialize_account3_def process_initialize_account_inner_def ex_w4_def ex_accts
      ex_w1_accts del: pack.simps)

lemma ex_w5_step:
  "process ex_env 7 ex_w4 [info 1 False, info 2 False, info 9 True] (pack (MintTo 100)) = Inr ex_w5"
  by (simp add: ex_simps process_mint_to_def ex_w5_def ex_accts ex_w1_accts del: pack.simps)

lemma ex_w6_step:
  "process ex_env 7 ex_w5 [info 4 False, info 50 False] (pack (InitializeAccount3 8)) = Inr ex_w6"
  by (simp add: ex_simps process_initialize_account3_def process_initialize_account_inner_def ex_w6_def ex_accts
      ex_w1_accts del: pack.simps)

lemma ex_w7_step:
  "process ex_env 7 ex_w6 [info 2 False, info 3 False, info 8 True] (pack (Transfer 30)) = Inr ex_w7"
  by (simp add: ex_simps process_transfer_def ex_w7_def ex_accts ex_w1_accts del: pack.simps)

lemma ex_w7_accts:
  "accts ex_w7 = (accts ex_w6)(
     2 := (fresh 165)\<lparr>account_data := account_bytes (account_at 8 70) (account_data (accts ex_w6 2))\<rparr>,
     3 := (fresh 165)\<lparr>account_data := account_bytes (account_at 10 30) (account_data (accts ex_w6 3))\<rparr>)"
  by (simp add: ex_w7_def set_data_def ex_accts ex_w1_accts)

lemma ex_accepts:
  "runtime_accepts 7 ex_w1 ex_w2" "runtime_accepts 7 ex_w2 ex_w3" "runtime_accepts 7 ex_w3 ex_w4"
  "runtime_accepts 7 ex_w4 ex_w5" "runtime_accepts 7 ex_w5 ex_w6" "runtime_accepts 7 ex_w6 ex_w7"
  by (simp_all add: runtime_accepts_def ex_w7_accts ex_accts ex_w1_accts)

lemma ex_run0: "token_run ex_env 7 ex_w1"
proof (rule token_run.outside)
  show "token_run ex_env 7 ex_w0" by (rule token_run.deployed) (simp add: ex_w0_def)
  show "outside_step 7 ex_w0 ex_w1" by (simp add: outside_step_def ex_w0_def ex_w1_accts)
qed

lemma ex_token_run: "token_run ex_env 7 ex_w6" "token_run ex_env 7 ex_w7"
proof -
  note step = token_run.processed
  show w6: "token_run ex_env 7 ex_w6"
    by (rule step [OF step [OF step [OF step [OF step [OF ex_run0 ex_w2_step ex_accepts(1)]
      ex_w3_step ex_accepts(2)] ex_w4_step ex_accepts(3)] ex_w5_step ex_accepts(4)] ex_w6_step ex_accepts(5)])
  show "token_run ex_env 7 ex_w7" by (rule step [OF w6 ex_w7_step ex_accepts(6)])
qed

lemma ex_w6_state:
  "toks (abs_ledger 7 ex_w6) = [2 \<mapsto> account_at 8 100, 3 \<mapsto> account_at 10 0, 4 \<mapsto> wrapped_at 8 835]"
  "mints (abs_ledger 7 ex_w6) = [1 \<mapsto> mint_at 100]"
  by (simp_all add: abs_ledger_def fun_eq_iff ex_accts ex_w1_accts zero_data account_is_initialized_def)

lemma ex_w7_state:
  "toks (abs_ledger 7 ex_w7) = [2 \<mapsto> account_at 8 70, 3 \<mapsto> account_at 10 30, 4 \<mapsto> wrapped_at 8 835]"
  "mints (abs_ledger 7 ex_w7) = [1 \<mapsto> mint_at 100]"
  by (simp_all add: abs_ledger_def fun_eq_iff ex_w7_accts ex_accts ex_w1_accts zero_data account_is_initialized_def)

text \<open>A multisignature account that needs two of three signatures.\<close>

definition ex_quorum :: multisig where
  "ex_quorum = \<lparr>ms_m = 2, ms_n = 3, ms_is_initialized = True, signers = [21, 22, 23] @ replicate 8 0\<rparr>"

definition ex_w8 :: world where
  "ex_w8 = set_data ex_w7 (info 5 False) (multisig_bytes ex_quorum (replicate 355 0))"

lemma ex_w8_step:
  "process ex_env 7 ex_w7 [info 5 False, info 21 False, info 22 False, info 23 False]
     (pack (InitializeMultisig2 2)) = Inr ex_w8"
  by (simp add: ex_simps process_initialize_multisig2_def process_initialize_multisig_inner_def ex_w8_def ex_w7_accts
      ex_accts ex_w1_accts multisig_eq set_signers_def is_valid_signer_index_def MIN_SIGNERS_def ex_quorum_def
      del: pack.simps)

lemma ex_w8_accts:
  "accts ex_w8 = (accts ex_w7)(5 := (fresh 355)\<lparr>account_data := multisig_bytes ex_quorum (replicate 355 0)\<rparr>)"
  by (simp add: ex_w8_def set_data_def ex_w7_accts ex_accts ex_w1_accts)

lemma ex_run8: "token_run ex_env 7 ex_w8"
  by (rule token_run.processed [OF ex_token_run(2) ex_w8_step])
    (simp add: runtime_accepts_def ex_w8_accts ex_w7_accts ex_accts ex_w1_accts)

end
