(* ===== verification/Token_Properties.thy ===== *)
theory Token_Properties
  imports Token_Safety Token_Example
begin

text \<open>
  Properties of the SPL Token program as a whole: conservation of every token over all histories,
  backing of wrapped lamports, who may change a token account and how, quorums of multisignature
  accounts, and the absence of panics.
\<close>

section \<open>The ledger\<close>

lemma token_run_ledger: "token_run env pid w \<Longrightarrow> env_ok env \<Longrightarrow> ledger_ok (native_mint_id env) (abs_ledger pid w)"
  using token_run_invariant by (auto simp: token_invariant_def)

text \<open>
  C1. No token is ever created or destroyed behind a mint's back: after any history of instructions of the
  token program, in any order, with any accounts and any instruction data, the balances of all token
  accounts of a mint other than the native one add up to exactly the supply its mint account records.
\<close>

theorem token_supply_conserved:
  assumes "env_ok env" "token_run env pid w" "mints (abs_ledger pid w) m = Some mi" "m \<noteq> native_mint_id env"
  shows "held (toks (abs_ledger pid w)) m = unat (mint_supply mi)"
  using token_run_ledger [OF assms(2,1)] assms(3,4) by (auto simp: ledger_ok_def)

theorem token_supply_conserved_witness:
  "env_ok ex_env \<and> token_run ex_env 7 ex_w7 \<and> mints (abs_ledger 7 ex_w7) 1 = Some (mint_at 100) \<and>
   held (toks (abs_ledger 7 ex_w7)) 1 = 100"
  using token_supply_conserved [of ex_env 7 ex_w7 1 "mint_at 100"] by (simp add: ex_token_run ex_w7_state)

text \<open>
  C5. Wrapped lamports are backed: after any history, a token account of the native mint has a rent
  reserve and the account itself holds at least the reserve and its token balance in lamports.
\<close>

theorem wrapped_lamports_backed:
  assumes "env_ok env" "token_run env pid w" "toks (abs_ledger pid w) k = Some a" "acc_mint a = native_mint_id env"
  shows "\<exists>r. native_reserve a = Some r \<and> unat r + unat (amount a) \<le> unat (lamports (accts w k))"
  using token_run_ledger [OF assms(2,1)] assms(3,4)
  by (fastforce simp: ledger_ok_def account_ok_def abs_ledger_def)

theorem wrapped_lamports_backed_witness:
  "env_ok ex_env \<and> token_run ex_env 7 ex_w7 \<and> toks (abs_ledger 7 ex_w7) 4 = Some (wrapped_at 8 835) \<and>
   unat (165 :: u64) + unat (835 :: u64) \<le> unat (lamports (accts ex_w7 4))"
  using wrapped_lamports_backed [of ex_env 7 ex_w7 4 "wrapped_at 8 835"] by (simp add: ex_token_run ex_w7_state)

lemma balance_within_supply:
  assumes "ledger_ok native l" "toks l k = Some a" "acc_mint a \<noteq> native"
  obtains mi where "mints l (acc_mint a) = Some mi" "native_reserve a = None" "unat (amount a) \<le> unat (mint_supply mi)"
proof -
  from assms obtain mi where mi: "mints l (acc_mint a) = Some mi" "native_reserve a = None"
    by (fastforce simp: ledger_ok_def account_ok_def)
  then have "held (toks l) (acc_mint a) = unat (mint_supply mi)" using assms(1,3) by (auto simp: ledger_ok_def)
  moreover have "balance (toks l) (acc_mint a) k \<le> held (toks l) (acc_mint a)"
    unfolding held_def by (rule member_le_sum) auto
  ultimately show thesis using that mi assms(2) by (simp add: balance_eq)
qed

text \<open>
  C9. Token accounts are well formed: after any history, an account of the native mint has a rent reserve,
  and an account of another mint has none, belongs to a mint that is initialized and owned by the
  program, and holds no more than the supply of that mint.
\<close>

theorem token_accounts_well_formed:
  assumes "env_ok env" "token_run env pid w" "toks (abs_ledger pid w) k = Some a"
  shows "if acc_mint a = native_mint_id env then is_native a
    else \<not> is_native a \<and> (\<exists>mi. mints (abs_ledger pid w) (acc_mint a) = Some mi \<and>
      account_program (accts w (acc_mint a)) = pid \<and> unat (amount a) \<le> unat (mint_supply mi))"
proof (cases "acc_mint a = native_mint_id env")
  case True
  then show ?thesis using token_run_ledger [OF assms(2,1)] assms(3)
    by (fastforce simp: ledger_ok_def account_ok_def is_native_def)
next
  case False
  from balance_within_supply [OF token_run_ledger [OF assms(2,1)] assms(3) False]
  obtain mi where "mints (abs_ledger pid w) (acc_mint a) = Some mi" "native_reserve a = None"
    "unat (amount a) \<le> unat (mint_supply mi)" .
  then show ?thesis using False by (auto simp: is_native_def abs_ledger_def split: if_splits)
qed

theorem token_accounts_well_formed_witness:
  "env_ok ex_env \<and> token_run ex_env 7 ex_w7 \<and> toks (abs_ledger 7 ex_w7) 3 = Some (account_at 10 30) \<and>
   account_program (accts ex_w7 1) = 7 \<and> \<not> is_native (account_at 10 30)"
  using token_accounts_well_formed [of ex_env 7 ex_w7 3 "account_at 10 30"] by (auto simp: ex_token_run ex_w7_state)

text \<open>
  C2. The processor implements the ledger: whenever, after any history, an instruction succeeds and the
  runtime accepts its writes, its effect on the token accounts, the mints and the lamports is one step
  of the abstract ledger (a payment, an issue, a burn, an opening, a closing, a sync or an adjustment
  that moves no tokens), and every mint and multisignature account stays well formed.
\<close>

theorem instruction_refines_ledger:
  assumes "env_ok env" "token_run env pid w" "process env pid w infos input = Inr w'" "runtime_accepts pid w w'"
  shows "ledger_step (native_mint_id env) (abs_ledger pid w) (abs_ledger pid w') \<and> token_invariant env pid w'"
proof -
  from assms(3) obtain ins where "process_instruction env pid w infos ins = Inr w'"
    by (auto simp: process_def bindr_eq_Inr_iff)
  then have "refines env pid w w'"
    using refine_instruction [OF _ assms(1,4)] token_run_invariant [OF assms(2,1)] by (simp add: token_invariant_def)
  moreover have "token_invariant env pid w'"
    using token_run_invariant [OF token_run.processed [OF assms(2-4)] assms(1)] .
  ultimately show ?thesis by (simp add: refines_def)
qed

theorem instruction_refines_ledger_witness:
  "process ex_env 7 ex_w6 [info 2 False, info 3 False, info 8 True] (pack (Transfer 30)) = Inr ex_w7 \<and>
   ledger_step 50 (abs_ledger 7 ex_w6) (abs_ledger 7 ex_w7)"
  using instruction_refines_ledger [of ex_env 7 ex_w6 "[info 2 False, info 3 False, info 8 True]" "pack (Transfer 30)" ex_w7]
  by (simp add: ex_token_run ex_w7_step ex_accepts del: pack.simps)

section \<open>Authority\<close>

lemma process_change_account:
  "process env pid w infos input = Inr w' \<Longrightarrow> env_ok env \<Longrightarrow> account_of (account_data (accts w k)) = Some a \<Longrightarrow>
   account_change env pid w infos a (account_of (account_data (accts w' k)))"
  using process_changes unfolding changes_ok_def by blast

text \<open>
  C3. Every change to a token account is one the program is meant to make, with the authority it
  needs: an instruction that succeeds leaves each account as it was, or changes it in one of the
  listed ways, each with its own authorization.
\<close>

theorem token_account_changes_authorized:
  assumes "env_ok env" "process env pid w infos input = Inr w'" "account_of (account_data (accts w k)) = Some a"
  shows "account_change env pid w infos a (account_of (account_data (accts w' k)))"
  by (rule process_change_account [OF assms(2,1,3)])

lemma ex_w6_account: "account_of (account_data (accts ex_w6 2)) = Some (account_at 8 100)"
  by (simp add: ex_accts ex_w1_accts account_is_initialized_def)

lemma ex_w7_account: "account_of (account_data (accts ex_w7 2)) = Some (account_at 8 70)"
  by (simp add: ex_w7_accts ex_accts ex_w1_accts account_is_initialized_def)

theorem token_account_changes_authorized_witness:
  "process ex_env 7 ex_w6 [info 2 False, info 3 False, info 8 True] (pack (Transfer 30)) = Inr ex_w7 \<and>
   account_change ex_env 7 ex_w6 [info 2 False, info 3 False, info 8 True] (account_at 8 100) (Some (account_at 8 70))"
  using token_account_changes_authorized [OF ex_env_ok ex_w7_step ex_w6_account] ex_w7_step
  by (simp add: ex_w7_account del: pack.simps)

inductive_cases account_changeE: "account_change env pid w infos a x"

text \<open>
  C7. Tokens leave an account only by the will of those who may spend them: if an instruction lowers
  the balance of an account, then the account is not frozen, keeps its owner, and its owner authorized the
  instruction, or its delegate did and what left is within the allowance, or the account belongs to
  the system program or the incinerator, whose tokens anybody may burn.
\<close>

theorem spending_needs_authority:
  assumes "env_ok env" "process env pid w infos input = Inr w'" "account_of (account_data (accts w k)) = Some a"
    "account_of (account_data (accts w' k)) = Some b" "amount b < amount a"
  shows "acc_owner b = acc_owner a \<and> \<not> is_frozen a \<and>
    (authorized env pid w infos (acc_owner a) \<or> is_owned_by_system_program_or_incinerator env a \<or>
     (\<exists>d. delegate a = Some d \<and> authorized env pid w infos d \<and>
       unat (amount a) - unat (amount b) \<le> unat (delegated_amount a) \<and>
       unat (delegated_amount b) = unat (delegated_amount a) - (unat (amount a) - unat (amount b))))"
proof -
  note process_change_account [OF assms(2,1,3), unfolded assms(4)]
  then show ?thesis using assms(5) by (cases rule: account_changeE) auto
qed

theorem spending_needs_authority_witness:
  "amount (account_at 8 70) < amount (account_at 8 100) \<and>
   authorized ex_env 7 ex_w6 [info 2 False, info 3 False, info 8 True] 8"
  using spending_needs_authority [OF ex_env_ok ex_w7_step ex_w6_account ex_w7_account]
  by (simp add: is_owned_by_system_program_or_incinerator_def)

text \<open>
  C8. A frozen account is frozen: an instruction that succeeds leaves a frozen account that wraps no
  lamports exactly as it was, unless the freeze authority of its mint authorized the thawing, which
  changes nothing else, or it was empty and got closed.
\<close>

theorem frozen_account_kept:
  assumes "env_ok env" "process env pid w infos input = Inr w'" "account_of (account_data (accts w k)) = Some a"
    "is_frozen a" "\<not> is_native a"
  shows "case account_of (account_data (accts w' k)) of
      Some b \<Rightarrow> b = a \<or> b = a\<lparr>state := Initialized\<rparr> \<and> (\<exists>f. freezer w a = Some f \<and> authorized env pid w infos f)
    | None \<Rightarrow> amount a = 0"
proof -
  note process_change_account [OF assms(2,1,3)]
  then show ?thesis using assms(4,5) by (cases rule: account_changeE) auto
qed

definition ex_frozen :: world where
  "ex_frozen = put_account 2 ((account_at 8 70)\<lparr>state := Frozen\<rparr>) ex_w7"

lemma ex_frozen_account: "account_of (account_data (accts ex_frozen 2)) = Some ((account_at 8 70)\<lparr>state := Frozen\<rparr>)"
  by (simp add: ex_frozen_def set_data_def ex_w7_accts ex_accts ex_w1_accts account_is_initialized_def)

lemma ex_thaw: "process ex_env 7 ex_frozen [info 2 False, info 1 False, info 11 True] (pack ThawAccount) =
    Inr (put_account 2 (account_at 8 70) ex_frozen)"
  by (simp add: ex_simps process_toggle_freeze_account_def ex_frozen_def ex_w7_accts ex_accts ex_w1_accts
      del: pack.simps)

theorem frozen_account_kept_witness:
  "is_frozen ((account_at 8 70)\<lparr>state := Frozen\<rparr>) \<and>
   process ex_env 7 ex_frozen [info 2 False, info 1 False, info 11 True] (pack ThawAccount) =
     Inr (put_account 2 (account_at 8 70) ex_frozen) \<and>
   authorized ex_env 7 ex_frozen [info 2 False, info 1 False, info 11 True] 11"
proof -
  have d: "account_of (account_data (accts (put_account 2 (account_at 8 70) ex_frozen) 2)) = Some (account_at 8 70)"
    using account_of_len [OF ex_frozen_account] by (simp add: set_data_def account_is_initialized_def)
  have f: "freezer ex_frozen ((account_at 8 70)\<lparr>state := Frozen\<rparr>) = Some 11"
    by (simp add: freezer_def ex_frozen_def set_data_def ex_w7_accts ex_accts ex_w1_accts)
  from frozen_account_kept [OF ex_env_ok ex_thaw ex_frozen_account] show ?thesis
    unfolding d using f ex_thaw by (simp add: is_frozen_def is_native_def del: pack.simps)
qed

text \<open>
  C6. Authority means signatures: when the check of an authority succeeds, after any history, the
  account that stands for it has the expected key, and either it is an ordinary account that signed,
  or it is a multisignature account and at least as many of its listed positions as it requires are held by
  accounts among the given ones that signed.
\<close>

theorem authority_needs_signatures:
  assumes "env_ok env" "token_run env pid w" "validate_owner env pid w k ai sg = Inr ()"
  shows "key ai = k \<and> (if account_program (accts w k) = pid \<and> length (account_data (accts w k)) = MULTISIG_LEN
    then \<exists>ms. multisig_unpack_from_slice (account_data (accts w k)) = Inr ms \<and> ms_is_initialized ms \<and>
      unat (ms_m ms) \<le> card (backed sg (take (unat (ms_n ms)) (signers ms)))
    else is_signer ai)"
proof (cases "account_program (accts w k) = pid \<and> length (account_data (accts w k)) = MULTISIG_LEN")
  case True
  have k: "key ai = k" using assms(3) by (auto simp: validate_owner_def bindr_eq_Inr_iff cmp_pubkeys_def)
  with True assms(3) obtain ms matched num where ms: "m_unpack (multisig_pack env) (account_data (accts w k)) = Inr ms"
      "match_signers ms sg (replicate MAX_SIGNERS False, 0) = Inr (matched, num)" "ms_m ms \<le> num"
    by (auto simp: validate_owner_def bindr_eq_Inr_iff cmp_pubkeys_def not_less)
  then have u: "multisig_unpack_from_slice (account_data (accts w k)) = Inr ms" "ms_is_initialized ms"
    using assms(1) by (auto simp: env_ok_def pack_trait_def result_simps)
  moreover have "quorums_ok pid w" using token_run_invariant [OF assms(2,1)] by (simp add: token_invariant_def)
  ultimately have "unat (ms_n ms) \<le> MAX_SIGNERS" using True by (auto simp: quorums_ok_def quorum_ok_def)
  from match_signers_quorum [OF ms(2) this] ms(3) u True k show ?thesis by (auto simp: word_le_nat_alt)
next
  case False
  then show ?thesis using assms(3) by (auto simp: validate_owner_def bindr_eq_Inr_iff cmp_pubkeys_def)
qed

lemma ex_validate:
  "validate_owner ex_env 7 ex_w8 5 (info 5 False) [info 23 True, info 21 True] = Inr ()"
proof -
  have f: "replicate 11 False = [False, False, False, False, False, False, False, False, False, False, False]"
    by (simp add: numeral_eq_Suc)
  show ?thesis by (simp add: validate_owner_def cmp_pubkeys_def ex_w8_accts multisig_eq(2) ex_quorum_def f)
qed

theorem authority_needs_signatures_witness:
  "token_run ex_env 7 ex_w8 \<and>
   validate_owner ex_env 7 ex_w8 5 (info 5 False) [info 23 True, info 21 True] = Inr () \<and>
   2 \<le> card (backed [info 23 True, info 21 True] [21, 22, 23])"
proof -
  have "multisig_unpack_from_slice (account_data (accts ex_w8 5)) = Inr ex_quorum"
    "account_program (accts ex_w8 5) = 7" "length (account_data (accts ex_w8 5)) = 355"
    by (simp_all add: ex_w8_accts ex_quorum_def)
  then show ?thesis using authority_needs_signatures [OF ex_env_ok ex_run8 ex_validate] ex_run8 ex_validate
    by (auto simp: ex_quorum_def)
qed

section \<open>No panics\<close>

text \<open>
  C4. The program never panics: after any history, no instruction data and no list of at most 255
  accounts makes the processor panic, provided reading the rent sysvar does not. It returns the new
  state of the accounts or an error.
\<close>

theorem token_program_never_panics:
  assumes "env_ok env" "rents_calm env" "token_run env pid w" "length infos \<le> 255"
  shows "process env pid w infos input \<noteq> Inl Panic"
proof -
  have q: "quorums_ok pid w" using token_run_invariant [OF assms(3,1)] by (simp add: token_invariant_def)
  have "calm (process env pid w infos input)"
    unfolding process_def
    by (intro calm_bindr calm_unpack calm_process_instruction [OF assms(1) q assms(2,4)])
  then show ?thesis by (simp add: calm_def)
qed

theorem token_program_never_panics_witness:
  "rents_calm ex_env \<and> token_run ex_env 7 ex_w8 \<and> process ex_env 7 ex_w8 [] [2, 2] \<noteq> Inl Panic"
proof -
  have "rents_calm ex_env" by (simp add: rents_calm_def ex_env_def)
  then show ?thesis using token_program_never_panics [of ex_env 7 ex_w8 "[]" "[2, 2]"] by (simp add: ex_run8)
qed

end
