(* ===== verification/Tx_Bytes.thy ===== *)
theory Tx_Bytes
  imports Bytes
begin

text \<open>
  Reading a serialized transaction (\<^verbatim>\<open>src/transaction-view/src/bytes.rs\<close>): the checked readers, the two
  decoders of compressed lengths, and the unchecked reads through raw pointers. An offset is a
  machine word with wrapping arithmetic. Every function returns the offset it leaves in its
  \<^verbatim>\<open>&mut\<close> argument. A read outside the buffer through a raw pointer is undefined behaviour and is the
  value \<open>None\<close>; an error is \<open>Inl e\<close>.
\<close>

unbundle bit_operations_syntax

section \<open>The readers\<close>

datatype transaction_view_error = ParseError | SanitizeError | AddressLookupMismatch

type_synonym 'a parsed = "transaction_view_error + 'a"

definition check_remaining :: "u8 list \<Rightarrow> usize \<Rightarrow> usize \<Rightarrow> unit parsed" where
  "check_remaining bytes offset num_bytes =
     (if num_bytes > of_nat (length bytes) - offset then Inl ParseError else Inr ())"

definition read_byte :: "u8 list \<Rightarrow> usize \<Rightarrow> (u8 \<times> usize) parsed" where
  "read_byte bytes offset =
     bindr (ok_or (idx bytes (unat offset)) ParseError) (\<lambda>value. Inr (value, offset + 1))"

definition unchecked_read_byte :: "u8 list \<Rightarrow> usize \<Rightarrow> (u8 \<times> usize) option" where
  "unchecked_read_byte bytes offset =
     (case idx bytes (unat offset) of Some value \<Rightarrow> Some (value, offset + 1) | None \<Rightarrow> None)"

text \<open>The rounds \<open>i\<close>, \<open>i + 1\<close>, ... of the loop over at most three bytes.\<close>

fun compressed_u16_loop :: "u8 list \<Rightarrow> usize \<Rightarrow> nat list \<Rightarrow> u16 \<Rightarrow> nat \<Rightarrow> (u16 \<times> usize) parsed" where
  "compressed_u16_loop bytes offset [] result shift = Inr (result, offset + 3)"
| "compressed_u16_loop bytes offset (i # is) result shift =
     bindr (ok_or (idx bytes (unat (offset + of_nat i))) ParseError) (\<lambda>byte.
     if (0 < i \<and> byte = 0) \<or> (i = 2 \<and> 3 < byte) then Inl ParseError
     else
       let result = result OR push_bit shift (ucast (byte AND 0x7F)) in
       if byte AND 0x80 = 0 then Inr (result, offset + of_nat i + 1)
       else compressed_u16_loop bytes offset is result (shift + 7))"

definition read_compressed_u16 :: "u8 list \<Rightarrow> usize \<Rightarrow> (u16 \<times> usize) parsed" where
  "read_compressed_u16 bytes offset = compressed_u16_loop bytes offset [0, 1, 2] 0 0"

definition optimized_read_compressed_u16 :: "u8 list \<Rightarrow> usize \<Rightarrow> (u16 \<times> usize) parsed" where
  "optimized_read_compressed_u16 bytes offset =
     bindr (ok_or (idx bytes (unat offset)) ParseError) (\<lambda>byte1.
     let result = ucast (byte1 AND 0x7F) :: u16 in
     if byte1 AND 0x80 = 0 then Inr (result, offset + 1)
     else
       bindr (ok_or (idx bytes (unat (offset + 1))) ParseError) (\<lambda>byte2.
       if byte2 = 0 \<or> byte2 AND 0x80 \<noteq> 0 then Inl ParseError
       else Inr (result OR push_bit 7 (ucast (byte2 AND 0x7F)), offset + 2)))"

text \<open>The size of the element type is the first argument.\<close>

definition advance_offset_for_array :: "nat \<Rightarrow> u8 list \<Rightarrow> usize \<Rightarrow> u16 \<Rightarrow> usize parsed" where
  "advance_offset_for_array size_of bytes offset num_elements =
     (let array_len_bytes = ucast num_elements * of_nat size_of in
      bindr (check_remaining bytes offset array_len_bytes) (\<lambda>_. Inr (offset + array_len_bytes)))"

definition advance_offset_for_type :: "nat \<Rightarrow> u8 list \<Rightarrow> usize \<Rightarrow> usize parsed" where
  "advance_offset_for_type size_of bytes offset =
     bindr (check_remaining bytes offset (of_nat size_of)) (\<lambda>_. Inr (offset + of_nat size_of))"

text \<open>
  A pointer into the buffer may point anywhere up to one past its end; a slice made from it must lie
  inside. \<open>raw_parts bytes offset n\<close> are the \<open>n\<close> bytes of such a slice.
\<close>

definition ptr_add :: "u8 list \<Rightarrow> usize \<Rightarrow> usize option" where
  "ptr_add bytes offset = (if unat offset \<le> length bytes then Some offset else None)"

definition raw_parts :: "u8 list \<Rightarrow> usize \<Rightarrow> nat \<Rightarrow> u8 list option" where
  "raw_parts bytes ptr n = (if unat ptr + n \<le> length bytes then Some (field (unat ptr) n bytes) else None)"

definition read_slice_data :: "nat \<Rightarrow> u8 list \<Rightarrow> usize \<Rightarrow> u16 \<Rightarrow> (u8 list \<times> usize) parsed option" where
  "read_slice_data size_of bytes offset num_elements = do {
     current_ptr \<leftarrow> ptr_add bytes offset;
     (case advance_offset_for_array size_of bytes offset num_elements of
        Inl e \<Rightarrow> Some (Inl e)
      | Inr offset \<Rightarrow> do {
          slice \<leftarrow> raw_parts bytes current_ptr (unat num_elements * size_of);
          Some (Inr (slice, offset)) }) }"

definition unchecked_read_slice_data :: "nat \<Rightarrow> u8 list \<Rightarrow> usize \<Rightarrow> u16 \<Rightarrow> (u8 list \<times> usize) option" where
  "unchecked_read_slice_data size_of bytes offset num_elements = do {
     current_ptr \<leftarrow> ptr_add bytes offset;
     slice \<leftarrow> raw_parts bytes current_ptr (unat num_elements * size_of);
     Some (slice, offset + ucast num_elements * of_nat size_of) }"

definition read_type :: "nat \<Rightarrow> u8 list \<Rightarrow> usize \<Rightarrow> (u8 list \<times> usize) parsed option" where
  "read_type size_of bytes offset = do {
     current_ptr \<leftarrow> ptr_add bytes offset;
     (case advance_offset_for_type size_of bytes offset of
        Inl e \<Rightarrow> Some (Inl e)
      | Inr offset \<Rightarrow> do {
          value \<leftarrow> raw_parts bytes current_ptr size_of;
          Some (Inr (value, offset)) }) }"

section \<open>What is left to read\<close>

text \<open>
  \<open>rest_at bytes offset rest\<close>: the offset lies in the buffer and \<open>rest\<close> is what follows it. Slices in
  Rust are at most \<^verbatim>\<open>isize::MAX\<close> bytes long.
\<close>

definition rest_at :: "u8 list \<Rightarrow> usize \<Rightarrow> u8 list \<Rightarrow> bool" where
  "rest_at bytes offset rest \<longleftrightarrow> unat offset \<le> length bytes \<and> length bytes < 2 ^ 63 \<and> drop (unat offset) bytes = rest"

lemma rest_at_unat_add:
  assumes "rest_at bytes offset rest" "n \<le> length rest"
  shows "unat (offset + of_nat n) = unat offset + n"
proof -
  have "unat offset + n < 2 ^ 63" using assms by (auto simp: rest_at_def)
  then show ?thesis by (subst unat_add_lt) (simp_all add: unat_of_nat)
qed

lemma rest_at_advance:
  assumes "rest_at bytes offset (s @ rest)"
  shows "rest_at bytes (offset + of_nat (length s)) rest"
proof -
  have u: "unat (offset + of_nat (length s)) = unat offset + length s"
    by (rule rest_at_unat_add [OF assms]) simp
  have d: "drop (unat offset) bytes = s @ rest" and l: "unat offset \<le> length bytes" "length bytes < 2 ^ 63"
    using assms by (simp_all add: rest_at_def)
  have "drop (length s) (drop (unat offset) bytes) = rest" unfolding d by simp
  then have "drop (unat offset + length s) bytes = rest" by (simp add: add.commute)
  moreover have "unat offset + length s \<le> length bytes"
    using arg_cong [OF d, of length] l by simp
  ultimately show ?thesis unfolding rest_at_def u using l by simp
qed

lemma rest_at_advance1: "rest_at bytes offset (b # rest) \<Longrightarrow> rest_at bytes (offset + 1) rest"
  using rest_at_advance [of bytes offset "[b]" rest] by simp

lemma rest_at_idx:
  assumes "rest_at bytes offset rest"
  shows "idx bytes (unat offset) = (case rest of [] \<Rightarrow> None | b # _ \<Rightarrow> Some b)"
proof (cases "unat offset < length bytes")
  case True
  then show ?thesis using assms Cons_nth_drop_Suc [OF True] by (auto simp: rest_at_def idx_def split: list.split)
next
  case False
  then show ?thesis using assms by (auto simp: rest_at_def idx_def)
qed

lemma rest_at_field: "rest_at bytes offset (s @ rest) \<Longrightarrow> raw_parts bytes offset (length s) = Some s"
proof -
  assume "rest_at bytes offset (s @ rest)"
  then have d: "drop (unat offset) bytes = s @ rest" "unat offset \<le> length bytes" by (simp_all add: rest_at_def)
  have "unat offset + length s \<le> length bytes" using arg_cong [OF d(1), of length] d(2) by simp
  then show ?thesis by (simp add: raw_parts_def field_def d(1))
qed

section \<open>The readers on what is left\<close>

text \<open>The minimal encoding of a length in one or two bytes.\<close>

definition enc_u16 :: "nat \<Rightarrow> u8 list" where
  "enc_u16 n = (if n < 128 then [of_nat n] else [of_nat (n mod 128) OR 0x80, of_nat (n div 128)])"

lemma read_byte_rest:
  "rest_at bytes offset rest \<Longrightarrow>
   read_byte bytes offset = Inr (b, offset') \<longleftrightarrow> (\<exists>r. rest = b # r \<and> offset' = offset + 1)"
  by (auto simp: read_byte_def rest_at_idx bindr_eq_Inr_iff split: list.split)

lemma check_remaining_rest:
  assumes "rest_at bytes offset rest" "n < 2 ^ 64"
  shows "check_remaining bytes offset (of_nat n) = Inr () \<longleftrightarrow> n \<le> length rest"
proof -
  have l: "unat offset \<le> length bytes" "length bytes < 2 ^ 63" "length rest = length bytes - unat offset"
    using assms(1) by (auto simp: rest_at_def)
  then have "unat (of_nat (length bytes) - offset :: usize) = length rest"
    by (subst unat_sub) (simp_all add: word_le_nat_alt unat_of_nat)
  moreover have "unat (of_nat n :: usize) = n" using assms(2) by (simp add: unat_of_nat)
  ultimately show ?thesis by (simp add: check_remaining_def word_less_nat_alt not_less)
qed

lemma append_split: "n \<le> length rest \<longleftrightarrow> (\<exists>s r. rest = s @ r \<and> length s = n)"
  by (metis append_take_drop_id length_append length_take le_add1 min.absorb2)

lemma advance_array_rest:
  assumes r: "rest_at bytes offset rest" and k: "k < 2 ^ 32"
  shows "advance_offset_for_array k bytes offset n = Inr offset' \<longleftrightarrow>
    (\<exists>s r. rest = s @ r \<and> length s = unat n * k \<and> offset' = offset + of_nat (length s))"
proof -
  have "unat n * k \<le> 2 ^ 16 * 2 ^ 32" using unat_less [of n] k by (intro mult_le_mono) simp_all
  then have lt: "unat n * k < 2 ^ 64" by simp
  have "ucast n * of_nat k = (of_nat (unat n * k) :: usize)" by simp
  then show ?thesis
    using check_remaining_rest [OF r lt] append_split [of "unat n * k" rest]
    by (auto simp: advance_offset_for_array_def Let_def bindr_eq_Inr_iff)
qed

lemma advance_type_rest:
  assumes r: "rest_at bytes offset rest" and k: "k < 2 ^ 32"
  shows "advance_offset_for_type k bytes offset = Inr offset' \<longleftrightarrow>
    (\<exists>s r. rest = s @ r \<and> length s = k \<and> offset' = offset + of_nat k)"
  using check_remaining_rest [OF r, of k] k append_split [of k rest]
  by (auto simp: advance_offset_for_type_def bindr_eq_Inr_iff)

section \<open>Compressed lengths\<close>

lemma byte_low: "unat (b AND 0x7F) = unat b mod 128" for b :: u8
proof -
  have "(0x7F :: u8) = mask 7" by (simp add: mask_eq_exp_minus_1)
  then have "b AND 0x7F = take_bit 7 b" by (simp only: take_bit_eq_mask)
  then have "unat (b AND 0x7F) = take_bit 7 (unat b)" by (simp only: unsigned_take_bit_eq)
  then show ?thesis by (simp add: take_bit_eq_mod)
qed

lemma byte_high: "b AND 0x80 = 0 \<longleftrightarrow> unat b < 128" for b :: u8
proof -
  have "(0x80 :: u8) = push_bit 7 1" by (simp add: push_bit_eq_mult)
  then have "b AND 0x80 = 0 \<longleftrightarrow> \<not> bit b 7" by (simp add: bit_iff_and_push_bit_not_eq_0)
  also have "\<dots> \<longleftrightarrow> \<not> bit (unat b) 7" by (simp add: bit_unsigned_iff)
  also have "\<dots> \<longleftrightarrow> unat b < 128"
  proof -
    have "unat b div 128 < 2" using unat_less [of b] by simp
    then have "odd (unat b div 128) \<longleftrightarrow> unat b div 128 = 1" by (auto simp: less_2_cases_iff)
    then show ?thesis using \<open>unat b div 128 < 2\<close> by (auto simp: bit_iff_odd less_2_cases_iff div_eq_0_iff)
  qed
  finally show ?thesis .
qed

lemma byte_or_high:
  assumes "m < 128"
  shows "unat (of_nat m OR 0x80 :: u8) = m + 128"
proof -
  have m: "unat (of_nat m :: u8) = m" using assms by (simp add: unat_of_nat)
  then have "(of_nat m :: u8) AND 0x80 = 0" using byte_high assms by simp
  then have "of_nat m OR 0x80 = (of_nat m + 0x80 :: u8)" by (simp flip: disjunctive_add_eq_or)
  then show ?thesis using m assms unat_add_lt [of "of_nat m :: u8" "0x80"] by simp
qed

lemma u16_join:
  assumes "m < 128" "k < 128"
  shows "unat (of_nat m OR push_bit 7 (of_nat k) :: u16) = m + 128 * k"
proof -
  have p: "push_bit 7 (of_nat k) = (of_nat (128 * k) :: u16)" by (simp add: push_bit_eq_mult mult.commute)
  have low: "bit (of_nat m :: u16) i \<Longrightarrow> i < 7" for i
  proof -
    assume "bit (of_nat m :: u16) i"
    then have b: "bit m i" by (simp add: bit_of_nat_iff)
    show "i < 7"
    proof (rule ccontr)
      assume "\<not> i < 7"
      then have "(2 :: nat) ^ 7 \<le> 2 ^ i" by (intro power_increasing) simp_all
      with assms(1) have "m div 2 ^ i = 0" by simp
      with b show False by (simp add: bit_iff_odd)
    qed
  qed
  have "of_nat m AND push_bit 7 (of_nat k) = (0 :: u16)"
    by (intro bit_eqI) (auto simp: bit_and_iff bit_push_bit_iff dest: low)
  then have "of_nat m OR push_bit 7 (of_nat k) = (of_nat (m + 128 * k) :: u16)"
    by (simp flip: disjunctive_add_eq_or add: p)
  then have "unat (of_nat m OR push_bit 7 (of_nat k) :: u16) = unat (of_nat (m + 128 * k) :: u16)" by (simp only:)
  then show ?thesis using assms by (simp add: unat_of_nat del: of_nat_add of_nat_mult)
qed

lemma enc_u16_bytes:
  assumes "unat b1 < 128"
  shows "enc_u16 (unat b1) = [b1]"
  using assms by (simp add: enc_u16_def)

lemma enc_u16_two:
  assumes "128 \<le> unat b1" "unat b2 < 128" "b2 \<noteq> 0"
  shows "enc_u16 (unat b1 mod 128 + 128 * unat b2) = [b1, b2]"
proof -
  have "unat b2 \<noteq> 0" using assms(3) by (simp add: unat_eq_zero)
  moreover have "of_nat (unat b1 mod 128) OR 0x80 = b1"
  proof (rule word_unat_eq_iff [THEN iffD2])
    have "unat b1 < 256" using unat_less [of b1] by simp
    then have "unat b1 mod 128 + 128 = unat b1" using assms(1) le_mod_geq [of 128 "unat b1"] by simp
    then show "unat (of_nat (unat b1 mod 128) OR 0x80 :: u8) = unat b1" by (subst byte_or_high) simp_all
  qed
  ultimately show ?thesis by (simp add: enc_u16_def)
qed

lemma ucast_u8_u16: "(ucast b :: u16) = of_nat (unat b)" for b :: u8
  by simp

text \<open>What the optimized reader accepts: exactly the minimal encodings of the numbers below 16384.\<close>

lemma optimized_read_rest:
  assumes r: "rest_at bytes offset rest"
  shows "optimized_read_compressed_u16 bytes offset = Inr (n, offset') \<longleftrightarrow>
    (\<exists>post. rest = enc_u16 (unat n) @ post \<and> unat n < 16384 \<and> offset' = offset + of_nat (length (enc_u16 (unat n))))"
    (is "?L \<longleftrightarrow> ?R")
proof
  assume ?L
  then obtain b1 r1 where b1: "rest = b1 # r1" using rest_at_idx [OF r]
    by (auto simp: optimized_read_compressed_u16_def bindr_eq_Inr_iff split: list.splits)
  have i1: "idx bytes (unat offset) = Some b1" using rest_at_idx [OF r] b1 by simp
  show ?R
  proof (cases "unat b1 < 128")
    case True
    with \<open>?L\<close> i1 have "n = ucast (b1 AND 0x7F)" "offset' = offset + 1"
      by (auto simp: optimized_read_compressed_u16_def byte_high)
    then have "unat n = unat b1" "offset' = offset + 1" using True by (simp_all add: unat_ucast_up byte_low)
    then show ?thesis using True b1 by (simp add: enc_u16_bytes)
  next
    case False
    have i2: "idx bytes (unat (offset + 1)) = (case r1 of [] \<Rightarrow> None | b # _ \<Rightarrow> Some b)"
      using rest_at_idx [OF rest_at_advance1] r b1 by simp
    with \<open>?L\<close> i1 False obtain b2 r2 where b2: "r1 = b2 # r2" "b2 \<noteq> 0" "unat b2 < 128" "offset' = offset + 2"
      "n = ucast (b1 AND 0x7F) OR push_bit 7 (ucast (b2 AND 0x7F))"
      by (auto simp: optimized_read_compressed_u16_def byte_high Let_def bindr_eq_Inr_iff
          split: list.splits if_splits)
    then have "unat n = unat b1 mod 128 + 128 * unat b2"
      using u16_join [of "unat b1 mod 128" "unat b2"] by (simp only: ucast_u8_u16 byte_low) simp
    then show ?thesis using b1 b2(1-4) False by (simp add: enc_u16_two)
  qed
next
  assume ?R
  moreover obtain k where k: "unat n = k" by blast
  ultimately obtain post where post: "rest = enc_u16 k @ post" "k < 16384"
    "offset' = offset + of_nat (length (enc_u16 k))" by auto
  show ?L
  proof (cases "k < 128")
    case True
    then have b: "unat (of_nat k :: u8) = k" by (simp add: unat_of_nat)
    have "unat (ucast ((of_nat k :: u8) AND 0x7F) :: u16) = k"
      using True b by (simp add: unat_ucast_up byte_low)
    then have "ucast ((of_nat k :: u8) AND 0x7F) = n" by (simp add: word_unat_eq_iff k)
    moreover have "idx bytes (unat offset) = Some (of_nat k)" using post(1) rest_at_idx [OF r] True by (simp add: enc_u16_def)
    ultimately show ?thesis using post(3) True b
      by (simp add: optimized_read_compressed_u16_def enc_u16_def byte_high del: idx_eq_Some_iff idx_eq_None_iff)
  next
    case False
    let ?b1 = "of_nat (k mod 128) OR 0x80 :: u8" and ?b2 = "of_nat (k div 128) :: u8"
    have u: "unat ?b1 = k mod 128 + 128" "unat ?b2 = k div 128"
      using post(2) by (simp_all add: byte_or_high unat_of_nat)
    have "rest_at bytes (offset + 1) (?b2 # post)"
      using r post(1) False rest_at_advance1 by (simp add: enc_u16_def)
    then have "idx bytes (unat offset) = Some ?b1" "idx bytes (unat (offset + 1)) = Some ?b2"
      using rest_at_idx [OF r] post(1) False by (simp_all add: rest_at_idx enc_u16_def)
    moreover have "(ucast (?b1 AND 0x7F) OR push_bit 7 (ucast (?b2 AND 0x7F)) :: u16) = n"
      unfolding word_unat_eq_iff k using u16_join [of "k mod 128" "k div 128"] post(2) u
      by (simp only: ucast_u8_u16 byte_low) simp
    moreover have "?b2 \<noteq> 0" using u(2) False by (auto simp: word_unat_eq_iff)
    moreover have "?b2 AND 0x80 = 0" using u(2) post(2) by (simp add: byte_high)
    ultimately show ?thesis using u False post(2,3)
      by (simp add: optimized_read_compressed_u16_def byte_high enc_u16_def Let_def del: idx_eq_Some_iff idx_eq_None_iff)
  qed
qed

lemma bit_set_ge: "bit w i \<Longrightarrow> 2 ^ i \<le> unat w" for w :: "'a::len word"
proof -
  assume "bit w i"
  then have "bit (unat w) i" by (simp add: bit_unsigned_iff)
  then have "unat w div 2 ^ i \<noteq> 0" by (simp add: bit_iff_odd odd_pos)
  then show ?thesis by (simp add: div_eq_0_iff not_less)
qed

lemma third_byte_large:
  assumes "b \<noteq> 0" "\<not> 3 < (b :: u8)"
  shows "16384 \<le> unat (x OR push_bit 14 (ucast (b AND 0x7F)) :: u16)"
proof -
  have "unat b \<noteq> 0" "unat b \<le> 3" using assms by (auto simp: word_less_nat_alt word_unat_eq_iff)
  then have "b = 1 \<or> b = 2 \<or> b = 3" by (auto simp: word_unat_eq_iff)
  then have "bit (push_bit 14 (ucast (b AND 0x7F)) :: u16) 14 \<or> bit (push_bit 14 (ucast (b AND 0x7F)) :: u16) 15"
    by (auto simp: bit_push_bit_iff)
  then have "bit (x OR push_bit 14 (ucast (b AND 0x7F)) :: u16) 14 \<or> bit (x OR push_bit 14 (ucast (b AND 0x7F)) :: u16) 15"
    by (auto simp: bit_or_iff)
  then show ?thesis
    using bit_set_ge [of "x OR push_bit 14 (ucast (b AND 0x7F)) :: u16" 14]
      bit_set_ge [of "x OR push_bit 14 (ucast (b AND 0x7F)) :: u16" 15] by auto
qed

section \<open>Properties\<close>

text \<open>
  C37. The optimized reader of compressed lengths is the general one restricted to two bytes: on every
  buffer and offset, the two agree on every encoding of a number below 16384, and the optimized
  reader refuses everything else.
\<close>

theorem compressed_readers_agree:
  "optimized_read_compressed_u16 bytes offset = Inr (n, offset') \<longleftrightarrow>
   read_compressed_u16 bytes offset = Inr (n, offset') \<and> unat n < 16384"
proof (cases "idx bytes (unat offset)")
  case None
  then show ?thesis
    by (simp add: optimized_read_compressed_u16_def read_compressed_u16_def del: idx_eq_None_iff)
next
  case b1: (Some b1)
  have s: "unat (ucast (b1 AND 0x7F) :: u16) < 16384"
    using byte_low [of b1] by (simp add: unat_ucast_up)
  show ?thesis
  proof (cases "b1 AND 0x80 = 0")
    case True
    then show ?thesis using b1 s
      by (auto simp: optimized_read_compressed_u16_def read_compressed_u16_def simp del: idx_eq_Some_iff idx_eq_None_iff)
  next
    case f1: False
    show ?thesis
    proof (cases "idx bytes (unat (offset + 1))")
      case None
      then show ?thesis using b1 f1
        by (simp add: optimized_read_compressed_u16_def read_compressed_u16_def Let_def del: idx_eq_Some_iff idx_eq_None_iff)
    next
      case b2: (Some b2)
      have lt: "unat (ucast (b1 AND 0x7F) OR push_bit 7 (ucast (b2 AND 0x7F)) :: u16) < 16384"
        using u16_join [of "unat b1 mod 128" "unat b2 mod 128"] by (simp only: ucast_u8_u16 byte_low)
      have large: "\<not> unat (x OR push_bit 14 (ucast (b AND 0x7F)) :: u16) < 16384" if "b \<noteq> 0" "\<not> 3 < b"
        for b :: u8 and x using third_byte_large [OF that] by (simp add: not_less)
      show ?thesis
        by (cases "idx bytes (unat (offset + 2))")
          (auto simp: optimized_read_compressed_u16_def read_compressed_u16_def Let_def large
            b1 b2 f1 lt simp del: idx_eq_Some_iff idx_eq_None_iff)
    qed
  qed
qed

end
