(* ===== verification/Tx_Frame.thy ===== *)
theory Tx_Frame
  imports Tx_Bytes
begin

text \<open>
  The layout of a serialized transaction: the frames of \<^verbatim>\<open>src/transaction-view/src/\<close>
  (\<^verbatim>\<open>signature_frame.rs\<close>, \<^verbatim>\<open>message_header_frame.rs\<close>, \<^verbatim>\<open>static_account_keys_frame.rs\<close>, \<^verbatim>\<open>instructions_frame.rs\<close>,
  \<^verbatim>\<open>address_table_lookup_frame.rs\<close>, \<^verbatim>\<open>transaction_frame.rs\<close>) with their parsers, and the iterators that read
  instructions and table lookups back through raw pointers. An array that is read in place is the
  list of the values its bytes spell.
\<close>

unbundle bit_operations_syntax

section \<open>Sizes\<close>

text \<open>
  The sizes of the wire types, the size of a packet and the bit that marks a versioned message are
  constants of external crates. Their values are those the comments of the frames state (1232 bytes
  a packet, 32 bytes a key, 96 bytes a signature with its key).
\<close>

type_synonym signature = "512 word"
type_synonym hash = "256 word"

definition PACKET_DATA_SIZE :: nat where "PACKET_DATA_SIZE = 1232"
definition size_of_Signature :: nat where "size_of_Signature = 64"
definition size_of_Pubkey :: nat where "size_of_Pubkey = 32"
definition size_of_Hash :: nat where "size_of_Hash = 32"

definition MAX_SIGNATURES_PER_PACKET :: u8 where
  "MAX_SIGNATURES_PER_PACKET = of_nat (PACKET_DATA_SIZE div (size_of_Signature + size_of_Pubkey))"

definition MAX_STATIC_ACCOUNTS_PER_PACKET :: u8 where
  "MAX_STATIC_ACCOUNTS_PER_PACKET = of_nat (PACKET_DATA_SIZE div size_of_Pubkey)"

definition MIN_SIZED_ATL :: nat where
  "MIN_SIZED_ATL = size_of_Pubkey + 1 + 1 + 1"

definition MIN_SIZED_PACKET_WITH_ATLS :: nat where
  "MIN_SIZED_PACKET_WITH_ATLS = 1 + size_of_Signature + 1 + 3 + 1 + size_of_Pubkey + size_of_Hash + 1 + 1"

definition MAX_ATLS_PER_PACKET :: u8 where
  "MAX_ATLS_PER_PACKET = of_nat ((PACKET_DATA_SIZE - MIN_SIZED_PACKET_WITH_ATLS) div MIN_SIZED_ATL)"

definition MESSAGE_VERSION_PREFIX :: u8 where "MESSAGE_VERSION_PREFIX = 0x80"

section \<open>Frames\<close>

datatype transaction_version = Legacy | V0

record signature_frame =
  num_signatures :: u8
  signature_offset :: u16

record message_header_frame =
  message_offset :: u16
  version :: transaction_version
  num_required_signatures :: u8
  num_readonly_signed_accounts :: u8
  num_readonly_unsigned_accounts :: u8

record static_account_keys_frame =
  num_static_accounts :: u8
  static_accounts_offset :: u16

record instruction_frame =
  num_accounts :: u16
  data_len :: u16
  num_accounts_len :: u8
  data_len_len :: u8

record instructions_frame =
  num_instructions :: u16
  instructions_offset :: u16
  frames :: "instruction_frame list"

record address_table_lookup_frame =
  num_address_table_lookups :: u8
  address_table_lookups_offset :: u16
  total_writable_lookup_accounts :: u16
  total_readonly_lookup_accounts :: u16

record transaction_frame =
  signature :: signature_frame
  message_header :: message_header_frame
  static_account_keys :: static_account_keys_frame
  recent_blockhash_offset :: u16
  instructions :: instructions_frame
  address_table_lookup :: address_table_lookup_frame

section \<open>Parsing\<close>

definition signature_frame_try_new :: "u8 list \<Rightarrow> usize \<Rightarrow> (signature_frame \<times> usize) parsed" where
  "signature_frame_try_new bytes offset =
     bindr (read_byte bytes offset) (\<lambda>(n, offset).
     if n = 0 \<or> n > MAX_SIGNATURES_PER_PACKET then Inl ParseError
     else
       bindr (advance_offset_for_array size_of_Signature bytes offset (ucast n)) (\<lambda>offset'.
       Inr (\<lparr>num_signatures = n, signature_offset = ucast offset\<rparr>, offset')))"

definition message_header_frame_try_new :: "u8 list \<Rightarrow> usize \<Rightarrow> (message_header_frame \<times> usize) parsed" where
  "message_header_frame_try_new bytes offset =
     bindr (read_byte bytes offset) (\<lambda>(message_prefix, offset1).
     bindr (if message_prefix AND MESSAGE_VERSION_PREFIX \<noteq> 0 then
         (if message_prefix AND (NOT MESSAGE_VERSION_PREFIX) = 0
          then bindr (read_byte bytes offset1) (\<lambda>(n, offset2). Inr (V0, n, offset2))
          else Inl ParseError)
       else Inr (Legacy, message_prefix, offset1)) (\<lambda>(version, num_required, offset2).
     bindr (read_byte bytes offset2) (\<lambda>(readonly_signed, offset3).
     bindr (read_byte bytes offset3) (\<lambda>(readonly_unsigned, offset4).
     Inr (\<lparr>message_offset = ucast offset, version = version, num_required_signatures = num_required,
       num_readonly_signed_accounts = readonly_signed,
       num_readonly_unsigned_accounts = readonly_unsigned\<rparr>, offset4)))))"

definition static_account_keys_frame_try_new :: "u8 list \<Rightarrow> usize \<Rightarrow> (static_account_keys_frame \<times> usize) parsed" where
  "static_account_keys_frame_try_new bytes offset =
     bindr (read_byte bytes offset) (\<lambda>(n, offset).
     if n = 0 \<or> n > MAX_STATIC_ACCOUNTS_PER_PACKET then Inl ParseError
     else
       bindr (advance_offset_for_array size_of_Pubkey bytes offset (ucast n)) (\<lambda>offset'.
       Inr (\<lparr>num_static_accounts = n, static_accounts_offset = ucast offset\<rparr>, offset')))"

definition instruction_frame_parse :: "u8 list \<Rightarrow> usize \<Rightarrow> (instruction_frame \<times> usize) parsed" where
  "instruction_frame_parse bytes offset =
     bindr (read_byte bytes offset) (\<lambda>(_, num_accounts_offset).
     bindr (optimized_read_compressed_u16 bytes num_accounts_offset) (\<lambda>(accounts, offset1).
     bindr (advance_offset_for_array 1 bytes offset1 accounts) (\<lambda>data_len_offset.
     bindr (optimized_read_compressed_u16 bytes data_len_offset) (\<lambda>(len, offset2).
     bindr (advance_offset_for_array 1 bytes offset2 len) (\<lambda>offset3.
     Inr (\<lparr>num_accounts = accounts, data_len = len, num_accounts_len = ucast (offset1 - num_accounts_offset),
       data_len_len = ucast (offset2 - data_len_offset)\<rparr>, offset3))))))"

text \<open>The loop over the instructions: so many rounds, the frames in order.\<close>

fun instruction_frames :: "u8 list \<Rightarrow> nat \<Rightarrow> usize \<Rightarrow> (instruction_frame list \<times> usize) parsed" where
  "instruction_frames bytes 0 offset = Inr ([], offset)"
| "instruction_frames bytes (Suc n) offset =
     bindr (instruction_frame_parse bytes offset) (\<lambda>(f, offset).
     bindr (instruction_frames bytes n offset) (\<lambda>(fs, offset).
     Inr (f # fs, offset)))"

definition instructions_frame_try_new :: "u8 list \<Rightarrow> usize \<Rightarrow> (instructions_frame \<times> usize) parsed" where
  "instructions_frame_try_new bytes offset =
     bindr (optimized_read_compressed_u16 bytes offset) (\<lambda>(n, offset).
     bindr (check_remaining bytes offset (3 * ucast n)) (\<lambda>_.
     bindr (instruction_frames bytes (unat n) offset) (\<lambda>(fs, offset').
     Inr (\<lparr>num_instructions = n, instructions_offset = ucast offset, frames = fs\<rparr>, offset'))))"

fun lookup_frames :: "u8 list \<Rightarrow> nat \<Rightarrow> usize \<Rightarrow> u32 \<Rightarrow> u32 \<Rightarrow> (u32 \<times> u32 \<times> usize) parsed" where
  "lookup_frames bytes 0 offset writable readonly = Inr (writable, readonly, offset)"
| "lookup_frames bytes (Suc n) offset writable readonly =
     bindr (advance_offset_for_type size_of_Pubkey bytes offset) (\<lambda>offset.
     bindr (optimized_read_compressed_u16 bytes offset) (\<lambda>(w, offset).
     bindr (advance_offset_for_array 1 bytes offset w) (\<lambda>offset.
     bindr (optimized_read_compressed_u16 bytes offset) (\<lambda>(r, offset).
     bindr (advance_offset_for_array 1 bytes offset r) (\<lambda>offset.
     lookup_frames bytes n offset (writable + ucast w) (readonly + ucast r))))))"

definition u16_try_from :: "u32 \<Rightarrow> u16 parsed" where
  "u16_try_from n = (if unat n < 2 ^ 16 then Inr (ucast n) else Inl SanitizeError)"

definition address_table_lookup_frame_try_new ::
  "u8 list \<Rightarrow> usize \<Rightarrow> (address_table_lookup_frame \<times> usize) parsed"
where
  "address_table_lookup_frame_try_new bytes offset =
     bindr (read_byte bytes offset) (\<lambda>(n, offset).
     if n > MAX_ATLS_PER_PACKET then Inl ParseError
     else
       bindr (check_remaining bytes offset (of_nat MIN_SIZED_ATL * ucast n)) (\<lambda>_.
       bindr (lookup_frames bytes (unat n) offset 0 0) (\<lambda>(writable, readonly, offset').
       bindr (u16_try_from writable) (\<lambda>writable.
       bindr (u16_try_from readonly) (\<lambda>readonly.
       Inr (\<lparr>num_address_table_lookups = n, address_table_lookups_offset = ucast offset,
         total_writable_lookup_accounts = writable, total_readonly_lookup_accounts = readonly\<rparr>, offset'))))))"

definition transaction_frame_try_new :: "u8 list \<Rightarrow> transaction_frame parsed" where
  "transaction_frame_try_new bytes =
     bindr (signature_frame_try_new bytes 0) (\<lambda>(sf, offset).
     bindr (message_header_frame_try_new bytes offset) (\<lambda>(hf, offset).
     bindr (static_account_keys_frame_try_new bytes offset) (\<lambda>(kf, offset).
     let blockhash_offset = ucast offset in
     bindr (advance_offset_for_type size_of_Hash bytes offset) (\<lambda>offset.
     bindr (instructions_frame_try_new bytes offset) (\<lambda>(instrs, offset).
     bindr (case version hf of
         Legacy \<Rightarrow> Inr (\<lparr>num_address_table_lookups = 0, address_table_lookups_offset = 0,
           total_writable_lookup_accounts = 0, total_readonly_lookup_accounts = 0\<rparr>, offset)
       | V0 \<Rightarrow> address_table_lookup_frame_try_new bytes offset) (\<lambda>(af, offset).
     if offset \<noteq> of_nat (length bytes) then Inl ParseError
     else Inr \<lparr>signature = sf, message_header = hf, static_account_keys = kf,
       recent_blockhash_offset = blockhash_offset, instructions = instrs, address_table_lookup = af\<rparr>))))))"

end
