(* ===== verification/Tx_View.thy ===== *)
theory Tx_View
  imports Tx_Frame
begin

text \<open>
  Reading a parsed transaction (\<^verbatim>\<open>transaction_frame.rs\<close>, \<^verbatim>\<open>transaction_view.rs\<close>, \<^verbatim>\<open>sanitize.rs\<close> and
  \<^verbatim>\<open>resolved_transaction_view.rs\<close> under \<^verbatim>\<open>src/transaction-view/src/\<close>): the accessors through raw pointers,
  the two iterators, the sanitization checks, and the cache of writable accounts. Undefined
  behaviour and panics are \<open>None\<close>. A loop over an iterator is a loop over the list it yields.
\<close>

section \<open>Arrays in the buffer\<close>

definition array_values :: "nat \<Rightarrow> nat \<Rightarrow> u8 list \<Rightarrow> 'a::len word list" where
  "array_values k n bs = map (\<lambda>i. from_le_bytes (field (i * k) k bs)) [0..<n]"

definition raw_array :: "nat \<Rightarrow> u8 list \<Rightarrow> usize \<Rightarrow> nat \<Rightarrow> 'a::len word list option" where
  "raw_array k bytes offset n = do {
     ptr \<leftarrow> ptr_add bytes offset;
     bs \<leftarrow> raw_parts bytes ptr (n * k);
     Some (array_values k n bs) }"

definition frame_signatures :: "transaction_frame \<Rightarrow> u8 list \<Rightarrow> signature list option" where
  "frame_signatures f bytes =
     raw_array size_of_Signature bytes (ucast (signature_offset (signature f))) (unat (num_signatures (signature f)))"

definition frame_static_account_keys :: "transaction_frame \<Rightarrow> u8 list \<Rightarrow> pubkey list option" where
  "frame_static_account_keys f bytes =
     raw_array size_of_Pubkey bytes (ucast (static_accounts_offset (static_account_keys f)))
       (unat (num_static_accounts (static_account_keys f)))"

definition frame_recent_blockhash :: "transaction_frame \<Rightarrow> u8 list \<Rightarrow> hash option" where
  "frame_recent_blockhash f bytes = do {
     ptr \<leftarrow> ptr_add bytes (ucast (recent_blockhash_offset f));
     bs \<leftarrow> raw_parts bytes ptr size_of_Hash;
     Some (from_le_bytes bs) }"

section \<open>Iterating over the instructions\<close>

record svm_instruction =
  program_id_index :: u8
  ix_accounts :: "u8 list"
  ix_data :: "u8 list"

record instructions_iterator =
  it_bytes :: "u8 list"
  it_offset :: usize
  it_num_instructions :: u16
  it_index :: u16
  it_frames :: "instruction_frame list"

definition instructions_next ::
  "instructions_iterator \<Rightarrow> (svm_instruction option \<times> instructions_iterator) option"
where
  "instructions_next it =
    (if it_index it < it_num_instructions it then do {
       f \<leftarrow> idx (it_frames it) (unat (it_index it));
       (p, offset) \<leftarrow> unchecked_read_byte (it_bytes it) (it_offset it);
       let offset = offset + ucast (num_accounts_len f);
       (accounts, offset) \<leftarrow> unchecked_read_slice_data 1 (it_bytes it) offset (num_accounts f);
       let offset = offset + ucast (data_len_len f);
       (data, offset) \<leftarrow> unchecked_read_slice_data 1 (it_bytes it) offset (data_len f);
       Some (Some \<lparr>program_id_index = p, ix_accounts = accounts, ix_data = data\<rparr>,
         it\<lparr>it_offset := offset, it_index := it_index it + 1\<rparr>) }
     else Some (None, it))"

lemma instructions_next_index:
  "instructions_next it = Some (Some i, it') \<Longrightarrow>
   unat (it_num_instructions it') - unat (it_index it') < unat (it_num_instructions it) - unat (it_index it)"
proof -
  assume h: "instructions_next it = Some (Some i, it')"
  then have lt: "it_index it < it_num_instructions it" by (auto simp: instructions_next_def split: if_splits)
  then have "unat (it_index it + 1) = unat (it_index it) + 1"
    using unat_add_lt [of "it_index it" 1] unat_less [of "it_num_instructions it"] by (simp add: word_less_nat_alt)
  moreover have "it_num_instructions it' = it_num_instructions it" "it_index it' = it_index it + 1"
    using h lt by (auto simp: instructions_next_def Let_def bind_eq_Some_conv split: if_splits)
  ultimately show ?thesis using lt by (simp add: word_less_nat_alt)
qed

function instructions_collect :: "instructions_iterator \<Rightarrow> svm_instruction list option" where
  "instructions_collect it = (case instructions_next it of
     None \<Rightarrow> None
   | Some (None, _) \<Rightarrow> Some []
   | Some (Some i, it') \<Rightarrow> map_option ((#) i) (instructions_collect it'))"
  by pat_completeness auto

termination instructions_collect
  by (relation "measure (\<lambda>it. unat (it_num_instructions it) - unat (it_index it))")
    (auto dest: instructions_next_index)

declare instructions_collect.simps [simp del]

definition frame_instructions_iter :: "transaction_frame \<Rightarrow> u8 list \<Rightarrow> instructions_iterator" where
  "frame_instructions_iter f bytes =
     \<lparr>it_bytes = bytes, it_offset = ucast (instructions_offset (instructions f)),
      it_num_instructions = num_instructions (instructions f), it_index = 0, it_frames = frames (instructions f)\<rparr>"

section \<open>Iterating over the address table lookups\<close>

record svm_lookup =
  account_key :: pubkey
  writable_indexes :: "u8 list"
  readonly_indexes :: "u8 list"

record lookup_iterator =
  lt_bytes :: "u8 list"
  lt_offset :: usize
  lt_num_lookups :: u8
  lt_index :: u8

text \<open>Continue with the value of a read that is defined and did not fail.\<close>

definition and_then :: "'a parsed option \<Rightarrow> ('a \<Rightarrow> 'b parsed option) \<Rightarrow> 'b parsed option" where
  "and_then m f = (case m of None \<Rightarrow> None | Some (Inl e) \<Rightarrow> Some (Inl e) | Some (Inr x) \<Rightarrow> f x)"

lemma and_then_simps [simp]:
  "and_then None f = None" "and_then (Some (Inl e)) f = Some (Inl e)" "and_then (Some (Inr x)) f = f x"
  by (simp_all add: and_then_def)

definition lookup_read :: "u8 list \<Rightarrow> usize \<Rightarrow> (svm_lookup \<times> usize) parsed option" where
  "lookup_read bytes offset =
     and_then (read_type size_of_Pubkey bytes offset) (\<lambda>(k, offset).
     and_then (Some (optimized_read_compressed_u16 bytes offset)) (\<lambda>(n, offset).
     and_then (read_slice_data 1 bytes offset n) (\<lambda>(ws, offset).
     and_then (Some (optimized_read_compressed_u16 bytes offset)) (\<lambda>(n, offset).
     and_then (read_slice_data 1 bytes offset n) (\<lambda>(rs, offset).
     Some (Inr (\<lparr>account_key = from_le_bytes k, writable_indexes = ws, readonly_indexes = rs\<rparr>, offset)))))))"

text \<open>A failed read ends the iteration (\<^verbatim>\<open>.ok()?\<close>).\<close>

definition lookup_next :: "lookup_iterator \<Rightarrow> (svm_lookup option \<times> lookup_iterator) option" where
  "lookup_next it =
    (if lt_index it < lt_num_lookups it then
       let it = it\<lparr>lt_index := lt_index it + 1\<rparr> in
       (case lookup_read (lt_bytes it) (lt_offset it) of
          None \<Rightarrow> None
        | Some (Inl _) \<Rightarrow> Some (None, it)
        | Some (Inr (l, offset)) \<Rightarrow> Some (Some l, it\<lparr>lt_offset := offset\<rparr>))
     else Some (None, it))"

lemma lookup_next_index:
  "lookup_next it = Some (Some i, it') \<Longrightarrow>
   unat (lt_num_lookups it') - unat (lt_index it') < unat (lt_num_lookups it) - unat (lt_index it)"
proof -
  assume h: "lookup_next it = Some (Some i, it')"
  then have lt: "lt_index it < lt_num_lookups it" by (auto simp: lookup_next_def split: if_splits)
  then have "unat (lt_index it + 1) = unat (lt_index it) + 1"
    using unat_add_lt [of "lt_index it" 1] unat_less [of "lt_num_lookups it"] by (simp add: word_less_nat_alt)
  moreover have "lt_num_lookups it' = lt_num_lookups it" "lt_index it' = lt_index it + 1"
    using h lt by (auto simp: lookup_next_def Let_def split: option.splits sum.splits)
  ultimately show ?thesis using lt by (simp add: word_less_nat_alt)
qed

function lookup_collect :: "lookup_iterator \<Rightarrow> svm_lookup list option" where
  "lookup_collect it = (case lookup_next it of
     None \<Rightarrow> None
   | Some (None, _) \<Rightarrow> Some []
   | Some (Some i, it') \<Rightarrow> map_option ((#) i) (lookup_collect it'))"
  by pat_completeness auto

termination lookup_collect
  by (relation "measure (\<lambda>it. unat (lt_num_lookups it) - unat (lt_index it))")
    (auto dest: lookup_next_index)

declare lookup_collect.simps [simp del]

definition frame_address_table_lookup_iter :: "transaction_frame \<Rightarrow> u8 list \<Rightarrow> lookup_iterator" where
  "frame_address_table_lookup_iter f bytes =
     \<lparr>lt_bytes = bytes, lt_offset = ucast (address_table_lookups_offset (address_table_lookup f)),
      lt_num_lookups = num_address_table_lookups (address_table_lookup f), lt_index = 0\<rparr>"

section \<open>Views\<close>

record transaction_view =
  view_data :: "u8 list"
  view_frame :: transaction_frame

definition try_new_unsanitized :: "u8 list \<Rightarrow> transaction_view parsed" where
  "try_new_unsanitized bytes =
     bindr (transaction_frame_try_new bytes) (\<lambda>f. Inr \<lparr>view_data = bytes, view_frame = f\<rparr>)"

definition view_num_signatures where "view_num_signatures v = num_signatures (signature (view_frame v))"
definition view_version where "view_version v = version (message_header (view_frame v))"
definition view_num_required_signatures where
  "view_num_required_signatures v = num_required_signatures (message_header (view_frame v))"
definition view_num_readonly_signed_static_accounts where
  "view_num_readonly_signed_static_accounts v = num_readonly_signed_accounts (message_header (view_frame v))"
definition view_num_readonly_unsigned_static_accounts where
  "view_num_readonly_unsigned_static_accounts v = num_readonly_unsigned_accounts (message_header (view_frame v))"
definition view_num_static_account_keys where
  "view_num_static_account_keys v = num_static_accounts (static_account_keys (view_frame v))"
definition view_num_instructions where
  "view_num_instructions v = num_instructions (instructions (view_frame v))"
definition view_num_address_table_lookups where
  "view_num_address_table_lookups v = num_address_table_lookups (address_table_lookup (view_frame v))"
definition view_total_writable_lookup_accounts where
  "view_total_writable_lookup_accounts v = total_writable_lookup_accounts (address_table_lookup (view_frame v))"
definition view_total_readonly_lookup_accounts where
  "view_total_readonly_lookup_accounts v = total_readonly_lookup_accounts (address_table_lookup (view_frame v))"

definition view_signatures :: "transaction_view \<Rightarrow> signature list option" where
  "view_signatures v = frame_signatures (view_frame v) (view_data v)"

definition view_static_account_keys :: "transaction_view \<Rightarrow> pubkey list option" where
  "view_static_account_keys v = frame_static_account_keys (view_frame v) (view_data v)"

definition view_recent_blockhash :: "transaction_view \<Rightarrow> hash option" where
  "view_recent_blockhash v = frame_recent_blockhash (view_frame v) (view_data v)"

definition view_instructions :: "transaction_view \<Rightarrow> svm_instruction list option" where
  "view_instructions v = instructions_collect (frame_instructions_iter (view_frame v) (view_data v))"

definition view_address_table_lookups :: "transaction_view \<Rightarrow> svm_lookup list option" where
  "view_address_table_lookups v = lookup_collect (frame_address_table_lookup_iter (view_frame v) (view_data v))"

text \<open>Slicing panics when the start lies beyond the end.\<close>

definition view_message_data :: "transaction_view \<Rightarrow> u8 list option" where
  "view_message_data v =
    (let start = unat (message_offset (message_header (view_frame v)))
     in if start \<le> length (view_data v) then Some (drop start (view_data v)) else None)"

section \<open>Sanitization\<close>

definition sanitize_signatures :: "transaction_view \<Rightarrow> unit parsed" where
  "sanitize_signatures v =
    (if view_num_signatures v \<noteq> view_num_required_signatures v then Inl SanitizeError
     else if view_num_static_account_keys v < view_num_signatures v then Inl SanitizeError
     else Inr ())"

definition total_number_of_accounts :: "transaction_view \<Rightarrow> u16" where
  "total_number_of_accounts v =
     saturating_add (saturating_add (ucast (view_num_static_account_keys v)) (view_total_writable_lookup_accounts v))
       (view_total_readonly_lookup_accounts v)"

definition sanitize_account_access :: "transaction_view \<Rightarrow> unit parsed" where
  "sanitize_account_access v =
    (if view_num_readonly_unsigned_static_accounts v > view_num_static_account_keys v - view_num_required_signatures v
     then Inl SanitizeError
     else if view_num_readonly_signed_static_accounts v \<ge> view_num_required_signatures v then Inl SanitizeError
     else if total_number_of_accounts v > 256 then Inl SanitizeError
     else Inr ())"

definition sanitize_instruction :: "u8 \<Rightarrow> u8 \<Rightarrow> svm_instruction \<Rightarrow> unit parsed" where
  "sanitize_instruction max_program_id_index max_account_index i =
    (if program_id_index i > max_program_id_index then Inl SanitizeError
     else if program_id_index i = 0 then Inl SanitizeError
     else foldr_res (\<lambda>_ a. if a > max_account_index then Inl SanitizeError else Inr ()) () (ix_accounts i))"

definition sanitize_instructions :: "transaction_view \<Rightarrow> unit parsed option" where
  "sanitize_instructions v = do {
     is \<leftarrow> view_instructions v;
     Some (foldr_res (\<lambda>_. sanitize_instruction (view_num_static_account_keys v - 1)
       (ucast (total_number_of_accounts v - 1))) () is) }"

definition sanitize_address_table_lookups :: "transaction_view \<Rightarrow> unit parsed option" where
  "sanitize_address_table_lookups v = do {
     ls \<leftarrow> view_address_table_lookups v;
     Some (foldr_res (\<lambda>_ l. if writable_indexes l = [] \<and> readonly_indexes l = [] then Inl SanitizeError else Inr ()) () ls) }"

definition sanitize :: "transaction_view \<Rightarrow> unit parsed option" where
  "sanitize v =
     and_then (Some (sanitize_signatures v)) (\<lambda>_.
     and_then (Some (sanitize_account_access v)) (\<lambda>_.
     and_then (sanitize_instructions v) (\<lambda>_.
     sanitize_address_table_lookups v)))"

definition view_sanitize :: "transaction_view \<Rightarrow> transaction_view parsed option" where
  "view_sanitize v = and_then (sanitize v) (\<lambda>_. Some (Inr v))"

definition try_new_sanitized :: "u8 list \<Rightarrow> transaction_view parsed option" where
  "try_new_sanitized bytes = and_then (Some (try_new_unsanitized bytes)) view_sanitize"

section \<open>Sanitized views\<close>

definition program_instructions :: "transaction_view \<Rightarrow> (pubkey \<times> svm_instruction) list option" where
  "program_instructions v = do {
     is \<leftarrow> view_instructions v;
     keys \<leftarrow> view_static_account_keys v;
     fold_opt (\<lambda>acc i. do { k \<leftarrow> idx keys (unat (program_id_index i)); Some (acc @ [(k, i)]) }) [] is }"

definition num_static_unsigned_static_accounts :: "transaction_view \<Rightarrow> u8" where
  "num_static_unsigned_static_accounts v = view_num_static_account_keys v - view_num_required_signatures v"

definition num_writable_unsigned_static_accounts :: "transaction_view \<Rightarrow> u8" where
  "num_writable_unsigned_static_accounts v =
     num_static_unsigned_static_accounts v - view_num_readonly_unsigned_static_accounts v"

definition num_writable_signed_static_accounts :: "transaction_view \<Rightarrow> u8" where
  "num_writable_signed_static_accounts v =
     view_num_required_signatures v - view_num_readonly_signed_static_accounts v"

definition total_num_accounts :: "transaction_view \<Rightarrow> u16" where
  "total_num_accounts v =
     ucast (view_num_static_account_keys v) + view_total_writable_lookup_accounts v + view_total_readonly_lookup_accounts v"

definition num_requested_write_locks :: "transaction_view \<Rightarrow> u64" where
  "num_requested_write_locks v =
     ucast (ucast (view_num_static_account_keys v - view_num_readonly_signed_static_accounts v
         - view_num_readonly_unsigned_static_accounts v) + view_total_writable_lookup_accounts v :: u16)"

section \<open>Resolved views\<close>

text \<open>
  The addresses loaded from lookup tables, and what the code takes from elsewhere: the iteration over
  all account keys of a message (\<^verbatim>\<open>AccountKeys\<close>), the reserved keys and the id of the upgradeable loader.
\<close>

record loaded_addresses =
  writable_addresses :: "pubkey list"
  readonly_addresses :: "pubkey list"

record account_env =
  account_keys_iter :: "pubkey list \<Rightarrow> loaded_addresses option \<Rightarrow> pubkey list"
  reserved_account_keys :: "pubkey set"
  bpf_loader_upgradeable :: pubkey

record resolved_view =
  resolved_of :: transaction_view
  resolved_addresses :: "loaded_addresses option"
  writable_cache :: "bool list"

definition is_requested_write :: "transaction_view \<Rightarrow> nat \<Rightarrow> bool" where
  "is_requested_write v index =
    (let num_static = unat (view_num_static_account_keys v);
         num_signed = unat (view_num_required_signatures v)
     in if index \<ge> num_static then index - num_static < unat (view_total_writable_lookup_accounts v)
        else if index \<ge> num_signed then index - num_signed < unat (num_writable_unsigned_static_accounts v)
        else index < unat (num_writable_signed_static_accounts v))"

text \<open>Assignment into the fixed array panics out of range.\<close>

definition cache_set :: "bool list \<Rightarrow> nat \<Rightarrow> bool \<Rightarrow> bool list option" where
  "cache_set c i b = (if i < length c then Some (c[i := b]) else None)"

definition cache_requested :: "account_env \<Rightarrow> transaction_view \<Rightarrow> pubkey list \<Rightarrow> bool list option" where
  "cache_requested env v keys =
     fold_opt (\<lambda>c (index, key). cache_set c index (is_requested_write v index \<and> key \<notin> reserved_account_keys env))
       (replicate 256 False) (enumerate 0 keys)"

text \<open>
  The loop over the instructions with the lazily computed flag: \<^verbatim>\<open>get_or_insert_with\<close> searches the keys the
  first time a writable program id turns up.
\<close>

definition cache_demote ::
  "account_env \<Rightarrow> pubkey list \<Rightarrow> bool list \<times> bool option \<Rightarrow> svm_instruction \<Rightarrow> (bool list \<times> bool option) option"
where
  "cache_demote env keys = (\<lambda>(c, present) i. do {
     b \<leftarrow> idx c (unat (program_id_index i));
     if b then
       let p = (case present of Some p \<Rightarrow> p | None \<Rightarrow> bpf_loader_upgradeable env \<in> set keys) in
       if \<not> p then do { c \<leftarrow> cache_set c (unat (program_id_index i)) False; Some (c, Some p) }
       else Some (c, Some p)
     else Some (c, present) })"

definition cache_is_writable ::
  "account_env \<Rightarrow> transaction_view \<Rightarrow> loaded_addresses option \<Rightarrow> bool list option"
where
  "cache_is_writable env v resolved = do {
     static \<leftarrow> view_static_account_keys v;
     let keys = account_keys_iter env static resolved;
     c \<leftarrow> cache_requested env v keys;
     is \<leftarrow> view_instructions v;
     (c, _) \<leftarrow> fold_opt (cache_demote env keys) (c, None) is;
     Some c }"

definition resolved_view_try_new ::
  "account_env \<Rightarrow> transaction_view \<Rightarrow> loaded_addresses option \<Rightarrow> resolved_view parsed option"
where
  "resolved_view_try_new env v resolved =
     and_then (Some (require (\<not> (view_version v = V0 \<and> resolved = None)) AddressLookupMismatch)) (\<lambda>_.
     and_then (Some (case resolved of
         Some l \<Rightarrow> require (length (writable_addresses l) = unat (view_total_writable_lookup_accounts v) \<and>
             length (readonly_addresses l) = unat (view_total_readonly_lookup_accounts v)) AddressLookupMismatch
       | None \<Rightarrow> require (view_total_writable_lookup_accounts v = 0 \<and> view_total_readonly_lookup_accounts v = 0)
             AddressLookupMismatch)) (\<lambda>_.
     do {
       c \<leftarrow> cache_is_writable env v resolved;
       Some (Inr \<lparr>resolved_of = v, resolved_addresses = resolved, writable_cache = c\<rparr>) }))"

definition resolved_is_writable :: "resolved_view \<Rightarrow> nat \<Rightarrow> bool" where
  "resolved_is_writable r index = (case idx (writable_cache r) index of Some b \<Rightarrow> b | None \<Rightarrow> False)"

definition resolved_is_signer :: "resolved_view \<Rightarrow> nat \<Rightarrow> bool" where
  "resolved_is_signer r index \<longleftrightarrow> index < unat (view_num_required_signatures (resolved_of r))"

definition resolved_is_invoked :: "resolved_view \<Rightarrow> nat \<Rightarrow> bool option" where
  "resolved_is_invoked r key_index =
    (if key_index < 256 then
       do { is \<leftarrow> view_instructions (resolved_of r); Some (\<exists>i \<in> set is. program_id_index i = of_nat key_index) }
     else Some False)"

definition resolved_fee_payer :: "resolved_view \<Rightarrow> pubkey option" where
  "resolved_fee_payer r = do { keys \<leftarrow> view_static_account_keys (resolved_of r); idx keys 0 }"

definition resolved_signature :: "resolved_view \<Rightarrow> signature option" where
  "resolved_signature r = do { sigs \<leftarrow> view_signatures (resolved_of r); idx sigs 0 }"

definition resolved_account_keys :: "account_env \<Rightarrow> resolved_view \<Rightarrow> pubkey list option" where
  "resolved_account_keys env r = do {
     static \<leftarrow> view_static_account_keys (resolved_of r);
     Some (account_keys_iter env static (resolved_addresses r)) }"

definition resolved_num_write_locks :: "resolved_view \<Rightarrow> u64" where
  "resolved_num_write_locks r = num_requested_write_locks (resolved_of r)"

end
