(* ===== verification/Tx_Wire.thy ===== *)
theory Tx_Wire
  imports Tx_View
begin

text \<open>
  The wire format of transactions, as a specification: the contents of a transaction, its bytes, and
  the limits within which the parser accepts them. The parser and the accessors of
  \<^verbatim>\<open>src/transaction-view/src/\<close> are the inverse of writing.
\<close>

section \<open>The format\<close>

definition enc_array :: "'a::len word list \<Rightarrow> u8 list" where
  "enc_array xs = concat (map to_le_bytes xs)"

definition enc_instruction :: "svm_instruction \<Rightarrow> u8 list" where
  "enc_instruction i = [program_id_index i] @ enc_u16 (length (ix_accounts i)) @ ix_accounts i @
     enc_u16 (length (ix_data i)) @ ix_data i"

definition enc_lookup :: "svm_lookup \<Rightarrow> u8 list" where
  "enc_lookup l = to_le_bytes (account_key l) @ enc_u16 (length (writable_indexes l)) @ writable_indexes l @
     enc_u16 (length (readonly_indexes l)) @ readonly_indexes l"

record wire_header =
  w_version :: transaction_version
  w_required :: u8
  w_readonly_signed :: u8
  w_readonly_unsigned :: u8

definition enc_header :: "wire_header \<Rightarrow> u8 list" where
  "enc_header h = (case w_version h of V0 \<Rightarrow> [0x80] | Legacy \<Rightarrow> []) @
     [w_required h, w_readonly_signed h, w_readonly_unsigned h]"

record wire_transaction =
  w_signatures :: "signature list"
  w_header :: wire_header
  w_keys :: "pubkey list"
  w_blockhash :: hash
  w_instructions :: "svm_instruction list"
  w_lookups :: "svm_lookup list"

definition enc_counted :: "'a::len word list \<Rightarrow> u8 list" where
  "enc_counted xs = of_nat (length xs) # enc_array xs"

definition enc_instructions :: "svm_instruction list \<Rightarrow> u8 list" where
  "enc_instructions is = enc_u16 (length is) @ concat (map enc_instruction is)"

definition enc_lookups :: "svm_lookup list \<Rightarrow> u8 list" where
  "enc_lookups ls = of_nat (length ls) # concat (map enc_lookup ls)"

definition enc_transaction :: "wire_transaction \<Rightarrow> u8 list" where
  "enc_transaction t = enc_counted (w_signatures t) @ enc_header (w_header t) @ enc_counted (w_keys t) @
     to_le_bytes (w_blockhash t) @ enc_instructions (w_instructions t) @
     (case w_version (w_header t) of V0 \<Rightarrow> enc_lookups (w_lookups t) | Legacy \<Rightarrow> [])"

text \<open>The limits.\<close>

definition instruction_ok :: "svm_instruction \<Rightarrow> bool" where
  "instruction_ok i \<longleftrightarrow> length (ix_accounts i) < 16384 \<and> length (ix_data i) < 16384"

definition lookup_ok :: "svm_lookup \<Rightarrow> bool" where
  "lookup_ok l \<longleftrightarrow> length (writable_indexes l) < 16384 \<and> length (readonly_indexes l) < 16384"

definition header_ok :: "wire_header \<Rightarrow> bool" where
  "header_ok h \<longleftrightarrow> w_version h = Legacy \<longrightarrow> unat (w_required h) < 128"

definition writable_total :: "svm_lookup list \<Rightarrow> nat" where
  "writable_total ls = sum_list (map (\<lambda>l. length (writable_indexes l)) ls)"

definition readonly_total :: "svm_lookup list \<Rightarrow> nat" where
  "readonly_total ls = sum_list (map (\<lambda>l. length (readonly_indexes l)) ls)"

definition lookups_ok :: "svm_lookup list \<Rightarrow> bool" where
  "lookups_ok ls \<longleftrightarrow> length ls \<le> 31 \<and> list_all lookup_ok ls \<and> 35 * length ls \<le> length (concat (map enc_lookup ls)) \<and>
     writable_total ls < 65536 \<and> readonly_total ls < 65536"

definition wire_ok :: "wire_transaction \<Rightarrow> bool" where
  "wire_ok t \<longleftrightarrow> 0 < length (w_signatures t) \<and> length (w_signatures t) \<le> 12 \<and> header_ok (w_header t) \<and>
     0 < length (w_keys t) \<and> length (w_keys t) \<le> 38 \<and>
     length (w_instructions t) < 16384 \<and> list_all instruction_ok (w_instructions t) \<and>
     (if w_version (w_header t) = V0 then lookups_ok (w_lookups t) else w_lookups t = [])"

section \<open>Arrays\<close>

lemma array_values_Suc:
  "array_values k (Suc n) s = from_le_bytes (take k s) # array_values k n (drop k s)"
proof -
  have "[0..<Suc n] = 0 # map Suc [0..<n]" by (simp add: map_Suc_upt upt_conv_Cons del: upt_Suc)
  then show ?thesis by (simp add: array_values_def field_def add.commute del: upt_Suc)
qed

lemma length_enc_array: "length (enc_array (xs :: 'a::len word list)) = length xs * (LENGTH('a) div 8)"
  by (induction xs) (simp_all add: enc_array_def)

lemma enc_array_values:
  assumes "8 * k = LENGTH('a::len)" "length s = n * k"
  shows "enc_array (array_values k n s :: 'a word list) = s"
  using assms(2)
proof (induction n arbitrary: s)
  case 0
  then show ?case by (simp add: array_values_def enc_array_def)
next
  case (Suc n)
  have "to_le_bytes (from_le_bytes (take k s) :: 'a word) = take k s"
    by (rule to_le_from_le) (use assms(1) Suc.prems in simp)
  with Suc.IH [of "drop k s"] Suc.prems show ?case by (simp add: array_values_Suc enc_array_def)
qed

lemma array_values_enc:
  assumes "8 * k = LENGTH('a::len)"
  shows "array_values k (length xs) (enc_array (xs :: 'a word list)) = xs"
proof (induction xs)
  case Nil
  then show ?case by (simp add: array_values_def)
next
  case (Cons x xs)
  have l: "length (to_le_bytes x) = k" using assms by simp
  have "from_le_bytes (to_le_bytes x) = x" by (rule from_le_to_le) (simp flip: assms)
  with Cons l show ?case by (simp add: array_values_Suc enc_array_def del: length_to_le_bytes)
qed

lemma length_array_values [simp]: "length (array_values k n s) = n"
  by (simp add: array_values_def)

section \<open>Reading what was written\<close>

lemma read_byteI:
  "rest_at bytes offset (b # r) \<Longrightarrow> read_byte bytes offset = Inr (b, offset + 1)"
  by (simp add: read_byte_rest)

lemma read_byteE:
  assumes "read_byte bytes offset = Inr (b, offset')" "rest_at bytes offset rest"
  obtains r where "rest = b # r" "offset' = offset + 1" "rest_at bytes offset' r"
  using assms read_byte_rest [OF assms(2)] rest_at_advance1 by metis

lemma optimizedI:
  "rest_at bytes offset (enc_u16 n @ r) \<Longrightarrow> n < 16384 \<Longrightarrow>
   optimized_read_compressed_u16 bytes offset = Inr (of_nat n, offset + of_nat (length (enc_u16 n)))"
  by (simp add: optimized_read_rest unat_of_nat)

lemma optimizedE:
  assumes "optimized_read_compressed_u16 bytes offset = Inr (n, offset')" "rest_at bytes offset rest"
  obtains r where "rest = enc_u16 (unat n) @ r" "unat n < 16384" "rest_at bytes offset' r"
  using assms optimized_read_rest [OF assms(2)] rest_at_advance by metis

lemma advance_arrayI:
  "rest_at bytes offset (s @ r) \<Longrightarrow> length s = unat n * k \<Longrightarrow> k < 2 ^ 32 \<Longrightarrow>
   advance_offset_for_array k bytes offset n = Inr (offset + of_nat (length s))"
  using advance_array_rest by blast

lemma advance_arrayE:
  assumes "advance_offset_for_array k bytes offset n = Inr offset'" "rest_at bytes offset rest" "k < 2 ^ 32"
  obtains s r where "rest = s @ r" "length s = unat n * k" "rest_at bytes offset' r"
  using assms advance_array_rest [OF assms(2,3)] rest_at_advance by metis

lemma advance_typeI:
  "rest_at bytes offset (s @ r) \<Longrightarrow> length s = k \<Longrightarrow> k < 2 ^ 32 \<Longrightarrow>
   advance_offset_for_type k bytes offset = Inr (offset + of_nat k)"
  using advance_type_rest by blast

lemma advance_typeE:
  assumes "advance_offset_for_type k bytes offset = Inr offset'" "rest_at bytes offset rest" "k < 2 ^ 32"
  obtains s r where "rest = s @ r" "length s = k" "rest_at bytes offset' r"
  using assms advance_type_rest [OF assms(2,3)] rest_at_advance by metis

lemma sizes [simp]:
  "size_of_Signature = 64" "size_of_Pubkey = 32" "size_of_Hash = 32" "MIN_SIZED_ATL = 35"
  "MAX_SIGNATURES_PER_PACKET = 12" "MAX_STATIC_ACCOUNTS_PER_PACKET = 38" "MAX_ATLS_PER_PACKET = 31"
  by (simp_all add: size_of_Signature_def size_of_Pubkey_def size_of_Hash_def MIN_SIZED_ATL_def
      MAX_SIGNATURES_PER_PACKET_def MAX_STATIC_ACCOUNTS_PER_PACKET_def MAX_ATLS_PER_PACKET_def
      PACKET_DATA_SIZE_def MIN_SIZED_PACKET_WITH_ATLS_def)

section \<open>Signatures and keys\<close>

definition sig_frame :: "signature list \<Rightarrow> usize \<Rightarrow> signature_frame" where
  "sig_frame xs offset = \<lparr>num_signatures = of_nat (length xs), signature_offset = ucast (offset + 1)\<rparr>"

definition keys_frame :: "pubkey list \<Rightarrow> usize \<Rightarrow> static_account_keys_frame" where
  "keys_frame xs offset = \<lparr>num_static_accounts = of_nat (length xs), static_accounts_offset = ucast (offset + 1)\<rparr>"

lemma counted_read:
  fixes xs :: "'a::len word list"
  assumes "rest_at bytes offset (enc_counted xs @ post)" "length xs < 256" "8 * k = LENGTH('a)" "k < 2 ^ 32"
  shows "read_byte bytes offset = Inr (of_nat (length xs), offset + 1)"
    "advance_offset_for_array k bytes (offset + 1) (ucast (of_nat (length xs) :: u8)) =
      Inr (offset + of_nat (length (enc_counted xs)))"
    "raw_parts bytes (offset + 1) (length xs * k) = Some (enc_array xs)"
proof -
  show "read_byte bytes offset = Inr (of_nat (length xs), offset + 1)"
    using read_byteI assms(1) by (simp add: enc_counted_def)
  have r: "rest_at bytes (offset + 1) (enc_array xs @ post)"
    using rest_at_advance1 assms(1) by (simp add: enc_counted_def)
  have l: "length (enc_array xs) = length xs * k" using assms(3) by (simp add: length_enc_array flip: assms(3))
  have "unat (ucast (of_nat (length xs) :: u8) :: u16) = length xs"
    using assms(2) by (simp add: unat_ucast_up unat_of_nat)
  with l have "length (enc_array xs) = unat (ucast (of_nat (length xs) :: u8) :: u16) * k" by simp
  from advance_arrayI [OF r this assms(4)] l
  show "advance_offset_for_array k bytes (offset + 1) (ucast (of_nat (length xs) :: u8)) =
      Inr (offset + of_nat (length (enc_counted xs)))"
    by (simp add: enc_counted_def add.assoc)
  show "raw_parts bytes (offset + 1) (length xs * k) = Some (enc_array xs)"
    using rest_at_field [OF r] l by simp
qed

lemma signatures_complete:
  assumes "rest_at bytes offset (enc_counted sigs @ post)" "0 < length sigs" "length sigs \<le> 12"
  shows "signature_frame_try_new bytes offset = Inr (sig_frame sigs offset, offset + of_nat (length (enc_counted sigs)))"
proof -
  note r = counted_read [OF assms(1), of 64]
  have "unat (of_nat (length sigs) :: u8) = length sigs" using assms(3) by (simp add: unat_of_nat)
  then have "(of_nat (length sigs) :: u8) \<noteq> 0" "\<not> (12 :: u8) < of_nat (length sigs)"
    using assms(2,3) by (auto simp: word_unat_eq_iff word_less_nat_alt)
  then show ?thesis using r assms(3)
    by (simp add: signature_frame_try_new_def sig_frame_def)
qed

lemma keys_complete:
  assumes "rest_at bytes offset (enc_counted keys @ post)" "0 < length keys" "length keys \<le> 38"
  shows "static_account_keys_frame_try_new bytes offset =
    Inr (keys_frame keys offset, offset + of_nat (length (enc_counted keys)))"
proof -
  note r = counted_read [OF assms(1), of 32]
  have "unat (of_nat (length keys) :: u8) = length keys" using assms(3) by (simp add: unat_of_nat)
  then have "(of_nat (length keys) :: u8) \<noteq> 0" "\<not> (38 :: u8) < of_nat (length keys)"
    using assms(2,3) by (auto simp: word_unat_eq_iff word_less_nat_alt)
  then show ?thesis using r assms(3)
    by (simp add: static_account_keys_frame_try_new_def keys_frame_def)
qed

lemma counted_sound:
  assumes "read_byte bytes offset = Inr (n, offset1)" "rest_at bytes offset rest"
    "advance_offset_for_array k bytes offset1 (ucast n) = Inr offset'" "8 * k = LENGTH('a::len)" "k < 2 ^ 32"
  obtains xs :: "'a::len word list" and post where "rest = enc_counted xs @ post" "length xs = unat n"
proof -
  from read_byteE [OF assms(1,2)] obtain r where r: "rest = n # r" "rest_at bytes offset1 r" by metis
  from advance_arrayE [OF assms(3) r(2) assms(5)] obtain s post where
    s: "r = s @ post" "length s = unat (ucast n :: u16) * k" by metis
  have "unat (ucast n :: u16) = unat n" by (simp add: unat_ucast_up)
  with s(2) have "enc_array (array_values k (unat n) s :: 'a word list) = s"
    by (intro enc_array_values assms(4)) simp
  then have "rest = enc_counted (array_values k (unat n) s :: 'a word list) @ post"
    using r(1) s(1) by (simp add: enc_counted_def)
  then show thesis by (rule that) simp
qed

lemma signatures_sound:
  assumes "signature_frame_try_new bytes offset = Inr (f, offset')" "rest_at bytes offset rest"
  obtains sigs post where "rest = enc_counted (sigs :: signature list) @ post" "0 < length sigs" "length sigs \<le> 12"
proof -
  from assms(1) obtain n offset1 where n: "read_byte bytes offset = Inr (n, offset1)" "n \<noteq> 0" "\<not> 12 < n"
    "advance_offset_for_array 64 bytes offset1 (ucast n) = Inr offset'"
    by (auto simp: signature_frame_try_new_def bindr_eq_Inr_iff split: if_splits)
  obtain sigs :: "signature list" and post
    where "rest = enc_counted sigs @ post" "length sigs = unat n"
    by (rule counted_sound [where 'a = 512, OF n(1) assms(2) n(4)]) simp_all
  moreover have "0 < unat n" "unat n \<le> 12" using n(2,3) by (auto simp: word_unat_eq_iff word_less_nat_alt)
  ultimately show thesis by (intro that [of sigs post]) simp_all
qed

lemma keys_sound:
  assumes "static_account_keys_frame_try_new bytes offset = Inr (f, offset')" "rest_at bytes offset rest"
  obtains keys post where "rest = enc_counted (keys :: pubkey list) @ post" "0 < length keys" "length keys \<le> 38"
proof -
  from assms(1) obtain n offset1 where n: "read_byte bytes offset = Inr (n, offset1)" "n \<noteq> 0" "\<not> 38 < n"
    "advance_offset_for_array 32 bytes offset1 (ucast n) = Inr offset'"
    by (auto simp: static_account_keys_frame_try_new_def bindr_eq_Inr_iff split: if_splits)
  obtain keys :: "pubkey list" and post
    where "rest = enc_counted keys @ post" "length keys = unat n"
    by (rule counted_sound [where 'a = 256, OF n(1) assms(2) n(4)]) simp_all
  moreover have "0 < unat n" "unat n \<le> 38" using n(2,3) by (auto simp: word_unat_eq_iff word_less_nat_alt)
  ultimately show thesis by (intro that [of keys post]) simp_all
qed

section \<open>The message header\<close>

definition head_frame :: "wire_header \<Rightarrow> usize \<Rightarrow> message_header_frame" where
  "head_frame h offset = \<lparr>message_offset = ucast offset, version = w_version h,
     num_required_signatures = w_required h, num_readonly_signed_accounts = w_readonly_signed h,
     num_readonly_unsigned_accounts = w_readonly_unsigned h\<rparr>"

lemma prefix_high: "b AND MESSAGE_VERSION_PREFIX = 0 \<longleftrightarrow> unat b < 128"
  by (simp add: MESSAGE_VERSION_PREFIX_def byte_high)

lemma header_complete:
  assumes "rest_at bytes offset (enc_header h @ post)" "header_ok h"
  shows "message_header_frame_try_new bytes offset = Inr (head_frame h offset, offset + of_nat (length (enc_header h)))"
proof (cases "w_version h")
  case Legacy
  then have r: "rest_at bytes offset (w_required h # w_readonly_signed h # w_readonly_unsigned h # post)"
    using assms(1) by (simp add: enc_header_def)
  note r1 = rest_at_advance1 [OF r] and r2 = rest_at_advance1 [OF rest_at_advance1 [OF r]]
  have "w_required h AND MESSAGE_VERSION_PREFIX = 0"
    using assms(2) Legacy by (simp add: header_ok_def prefix_high)
  then show ?thesis using Legacy read_byteI [OF r] read_byteI [OF r1] read_byteI [OF r2]
    by (simp add: message_header_frame_try_new_def head_frame_def enc_header_def add.assoc)
next
  case V0
  then have r: "rest_at bytes offset (0x80 # w_required h # w_readonly_signed h # w_readonly_unsigned h # post)"
    using assms(1) by (simp add: enc_header_def)
  note r1 = rest_at_advance1 [OF r]
  note r2 = rest_at_advance1 [OF r1]
  note r3 = rest_at_advance1 [OF r2]
  show ?thesis using V0 read_byteI [OF r] read_byteI [OF r1] read_byteI [OF r2] read_byteI [OF r3]
    by (simp add: message_header_frame_try_new_def head_frame_def enc_header_def MESSAGE_VERSION_PREFIX_def add.assoc)
qed

lemma version_prefix:
  assumes "b AND MESSAGE_VERSION_PREFIX \<noteq> 0" "b AND (NOT MESSAGE_VERSION_PREFIX) = 0"
  shows "b = 0x80"
proof -
  have m: "NOT MESSAGE_VERSION_PREFIX = 0x7F" by (simp add: MESSAGE_VERSION_PREFIX_def)
  have "unat b mod 128 = 0" using assms(2) byte_low [of b] by (simp add: m)
  moreover have "128 \<le> unat b" using assms(1) by (simp add: prefix_high)
  moreover have "unat b < 256" using unat_less [of b] by simp
  ultimately have "unat b = 128" by (auto simp: mod_eq_0_iff_dvd dvd_def)
  then show ?thesis by (simp add: word_unat_eq_iff)
qed

lemma header_sound:
  assumes "message_header_frame_try_new bytes offset = Inr (f, offset')" "rest_at bytes offset rest"
  obtains h post where "rest = enc_header h @ post" "header_ok h"
proof -
  from assms(1) obtain b o1 v n o2 rs o3 ru where h: "read_byte bytes offset = Inr (b, o1)"
    "(if b AND MESSAGE_VERSION_PREFIX \<noteq> 0 then
        (if b AND (NOT MESSAGE_VERSION_PREFIX) = 0
         then bindr (read_byte bytes o1) (\<lambda>(n, o2). Inr (V0, n, o2)) else Inl ParseError)
      else Inr (Legacy, b, o1)) = Inr (v, n, o2)"
    "read_byte bytes o2 = Inr (rs, o3)" "read_byte bytes o3 = Inr (ru, offset')"
    by (auto simp: message_header_frame_try_new_def bindr_eq_Inr_iff split: if_split_asm)
  from read_byteE [OF h(1) assms(2)] obtain r where r: "rest = b # r" "rest_at bytes o1 r" by metis
  show thesis
  proof (cases "b AND MESSAGE_VERSION_PREFIX \<noteq> 0")
    case True
    then have b: "b = 0x80" and n: "read_byte bytes o1 = Inr (n, o2)"
      using h(2) version_prefix [OF True] by (auto simp: bindr_eq_Inr_iff split: if_splits)
    from read_byteE [OF n r(2)] obtain r2 where r2: "r = n # r2" "rest_at bytes o2 r2" by metis
    from read_byteE [OF h(3) r2(2)] obtain r3 where r3: "r2 = rs # r3" "rest_at bytes o3 r3" by metis
    from read_byteE [OF h(4) r3(2)] obtain r4 where "r3 = ru # r4" by metis
    with r r2 r3 b show thesis
      by (intro that [of "\<lparr>w_version = V0, w_required = n, w_readonly_signed = rs, w_readonly_unsigned = ru\<rparr>" r4])
        (simp_all add: enc_header_def header_ok_def)
  next
    case False
    then have n: "n = b" "o2 = o1" using h(2) by auto
    from read_byteE [OF h(3)] r(2) n obtain r3 where r3: "r = rs # r3" "rest_at bytes o3 r3" by metis
    from read_byteE [OF h(4) r3(2)] obtain r4 where "r3 = ru # r4" by metis
    with r r3 False show thesis
      by (intro that [of "\<lparr>w_version = Legacy, w_required = b, w_readonly_signed = rs, w_readonly_unsigned = ru\<rparr>" r4])
        (simp_all add: enc_header_def header_ok_def prefix_high)
  qed
qed

section \<open>Instructions\<close>

lemma length_enc_u16: "0 < length (enc_u16 n)" "length (enc_u16 n) \<le> 2"
  by (simp_all add: enc_u16_def)

definition frame_of_instruction :: "svm_instruction \<Rightarrow> instruction_frame" where
  "frame_of_instruction i = \<lparr>num_accounts = of_nat (length (ix_accounts i)), data_len = of_nat (length (ix_data i)),
     num_accounts_len = of_nat (length (enc_u16 (length (ix_accounts i)))),
     data_len_len = of_nat (length (enc_u16 (length (ix_data i))))\<rparr>"

lemma ucast_small: "n < 256 \<Longrightarrow> (ucast (of_nat n :: usize) :: u8) = of_nat n"
  by (simp add: word_unat_eq_iff unat_of_nat unsigned_ucast_eq take_bit_eq_mod)

text \<open>A run of bytes after its length: how it is skipped, and how it is read in place.\<close>

definition enc_bytes :: "u8 list \<Rightarrow> u8 list" where
  "enc_bytes xs = enc_u16 (length xs) @ xs"

lemma bytes_read:
  assumes r: "rest_at bytes offset (enc_bytes xs @ r)" and l: "length xs < 16384"
  defines "o1 \<equiv> offset + of_nat (length (enc_u16 (length xs)))"
  shows "optimized_read_compressed_u16 bytes offset = Inr (of_nat (length xs), o1)"
    "advance_offset_for_array 1 bytes o1 (of_nat (length xs)) = Inr (offset + of_nat (length (enc_bytes xs)))"
    "rest_at bytes (offset + of_nat (length (enc_bytes xs))) r"
    "unchecked_read_slice_data 1 bytes o1 (of_nat (length xs)) = Some (xs, offset + of_nat (length (enc_bytes xs)))"
    "read_slice_data 1 bytes o1 (of_nat (length xs)) = Some (Inr (xs, offset + of_nat (length (enc_bytes xs))))"
proof -
  have r0: "rest_at bytes offset (enc_u16 (length xs) @ xs @ r)" using r by (simp add: enc_bytes_def)
  have r1: "rest_at bytes o1 (xs @ r)" unfolding o1_def using rest_at_advance [OF r0] .
  have n: "unat (of_nat (length xs) :: u16) = length xs" using l by (simp add: unat_of_nat)
  have o2: "o1 + of_nat (length xs) = offset + of_nat (length (enc_bytes xs))"
    by (simp add: o1_def enc_bytes_def add.assoc)
  show "optimized_read_compressed_u16 bytes offset = Inr (of_nat (length xs), o1)"
    unfolding o1_def by (rule optimizedI [OF r0 l])
  show a: "advance_offset_for_array 1 bytes o1 (of_nat (length xs)) = Inr (offset + of_nat (length (enc_bytes xs)))"
    using advance_arrayI [OF r1, of "of_nat (length xs)" 1] n o2 by simp
  show "rest_at bytes (offset + of_nat (length (enc_bytes xs))) r" by (rule rest_at_advance [OF r])
  have p: "ptr_add bytes o1 = Some o1" using r1 by (simp add: ptr_add_def rest_at_def)
  have s: "raw_parts bytes o1 (length xs) = Some xs" by (rule rest_at_field [OF r1])
  have u: "(ucast (of_nat (length xs) :: u16) :: usize) = of_nat (length xs)"
    using n by (simp add: word_unat_eq_iff unat_ucast_up unat_of_nat l)
  show "unchecked_read_slice_data 1 bytes o1 (of_nat (length xs)) = Some (xs, offset + of_nat (length (enc_bytes xs)))"
    using p s n u o2 by (simp add: unchecked_read_slice_data_def)
  show "read_slice_data 1 bytes o1 (of_nat (length xs)) = Some (Inr (xs, offset + of_nat (length (enc_bytes xs))))"
    using p s n a by (simp add: read_slice_data_def)
qed

lemma bytes_sound:
  assumes "optimized_read_compressed_u16 bytes offset = Inr (n, offset1)" "rest_at bytes offset rest"
    "advance_offset_for_array 1 bytes offset1 n = Inr offset2"
  obtains xs post where "rest = enc_bytes xs @ post" "length xs < 16384" "rest_at bytes offset2 post"
proof -
  from optimizedE [OF assms(1,2)] obtain r where r: "rest = enc_u16 (unat n) @ r" "unat n < 16384" "rest_at bytes offset1 r"
    by metis
  from advance_arrayE [OF assms(3) r(3)] obtain xs post where "r = xs @ post" "length xs = unat n" "rest_at bytes offset2 post"
    by auto
  with r show thesis by (intro that [of xs post]) (simp_all add: enc_bytes_def)
qed

lemma enc_instruction_bytes: "enc_instruction i = program_id_index i # enc_bytes (ix_accounts i) @ enc_bytes (ix_data i)"
  by (simp add: enc_instruction_def enc_bytes_def)

lemma instruction_complete:
  assumes r: "rest_at bytes offset (enc_instruction i @ post)" and k: "instruction_ok i"
  shows "instruction_frame_parse bytes offset =
    Inr (frame_of_instruction i, offset + of_nat (length (enc_instruction i)))"
proof -
  have l: "length (ix_accounts i) < 16384" "length (ix_data i) < 16384" using k by (simp_all add: instruction_ok_def)
  have r0: "rest_at bytes offset (program_id_index i # enc_bytes (ix_accounts i) @ enc_bytes (ix_data i) @ post)"
    using r by (simp add: enc_instruction_bytes)
  note r1 = rest_at_advance1 [OF r0]
  note a = bytes_read [OF r1 l(1)]
  note d = bytes_read [OF a(3) l(2)]
  have e: "length (enc_u16 n) < 256" for n using length_enc_u16(2) [of n] by simp
  show ?thesis
    using read_byteI [OF r0] a(1,2) d(1,2)
    by (simp add: instruction_frame_parse_def frame_of_instruction_def ucast_small [OF e] enc_instruction_bytes add.assoc)
qed

lemma instruction_sound:
  assumes "instruction_frame_parse bytes offset = Inr (f, offset')" "rest_at bytes offset rest"
  obtains i post where "rest = enc_instruction i @ post" "instruction_ok i" "rest_at bytes offset' post"
proof -
  from assms(1) obtain p o1 n o2 o3 m o4 where h: "read_byte bytes offset = Inr (p, o1)"
    "optimized_read_compressed_u16 bytes o1 = Inr (n, o2)" "advance_offset_for_array 1 bytes o2 n = Inr o3"
    "optimized_read_compressed_u16 bytes o3 = Inr (m, o4)" "advance_offset_for_array 1 bytes o4 m = Inr offset'"
    by (auto simp: instruction_frame_parse_def bindr_eq_Inr_iff)
  from read_byteE [OF h(1) assms(2)] obtain r where r: "rest = p # r" "rest_at bytes o1 r" by metis
  from bytes_sound [OF h(2) r(2) h(3)] obtain as r2 where a: "r = enc_bytes as @ r2" "length as < 16384" "rest_at bytes o3 r2"
    by metis
  from bytes_sound [OF h(4) a(3) h(5)] obtain ds r3 where "r2 = enc_bytes ds @ r3" "length ds < 16384" "rest_at bytes offset' r3"
    by metis
  with r a show thesis
    by (intro that [of "\<lparr>program_id_index = p, ix_accounts = as, ix_data = ds\<rparr>" r3])
      (simp_all add: enc_instruction_bytes instruction_ok_def)
qed

lemma instruction_frames_complete:
  assumes "rest_at bytes offset (concat (map enc_instruction is) @ post)" "list_all instruction_ok is"
  shows "instruction_frames bytes (length is) offset =
    Inr (map frame_of_instruction is, offset + of_nat (length (concat (map enc_instruction is))))"
  using assms
proof (induction "is" arbitrary: offset)
  case (Cons i "is")
  have r: "rest_at bytes offset (enc_instruction i @ concat (map enc_instruction is) @ post)" using Cons.prems(1) by simp
  note c = instruction_complete [OF r] and IH = Cons.IH [OF rest_at_advance [OF r]]
  from c IH Cons.prems(2) show ?case by (simp add: add.assoc)
qed simp

lemma instruction_frames_sound:
  assumes "instruction_frames bytes n offset = Inr (fs, offset')" "rest_at bytes offset rest"
  shows "\<exists>is post. rest = concat (map enc_instruction is) @ post \<and> length is = n \<and> list_all instruction_ok is \<and>
    rest_at bytes offset' post"
  using assms
proof (induction n arbitrary: offset fs rest)
  case 0
  then show ?case by (intro exI [of _ "[]"] exI [of _ rest]) simp
next
  case (Suc n)
  from Suc.prems(1) obtain f o1 fs' where h: "instruction_frame_parse bytes offset = Inr (f, o1)"
    "instruction_frames bytes n o1 = Inr (fs', offset')"
    by (auto simp: bindr_eq_Inr_iff)
  from instruction_sound [OF h(1) Suc.prems(2)] obtain i r where
    i: "rest = enc_instruction i @ r" "instruction_ok i" "rest_at bytes o1 r" by metis
  from Suc.IH [OF h(2) i(3)] obtain "is" post where "r = concat (map enc_instruction is) @ post" "length is = n"
    "list_all instruction_ok is" "rest_at bytes offset' post" by blast
  with i show ?case by (intro exI [of _ "i # is"] exI [of _ post]) simp
qed

lemma enc_instruction_length: "3 \<le> length (enc_instruction i)"
  by (simp add: enc_instruction_def enc_u16_def)

lemma enc_instructions_length: "3 * length is \<le> length (concat (map enc_instruction is))"
proof (induction "is")
  case (Cons i "is")
  then show ?case using enc_instruction_length [of i] by simp
qed simp

definition instrs_frame :: "svm_instruction list \<Rightarrow> usize \<Rightarrow> instructions_frame" where
  "instrs_frame is offset = \<lparr>num_instructions = of_nat (length is),
     instructions_offset = ucast (offset + of_nat (length (enc_u16 (length is)))),
     frames = map frame_of_instruction is\<rparr>"

lemma three_times: "3 * ucast n = (of_nat (3 * unat n) :: usize)" for n :: u16
  by simp

lemma instructions_complete:
  assumes r: "rest_at bytes offset (enc_instructions is @ post)" and k: "list_all instruction_ok is" "length is < 16384"
  shows "instructions_frame_try_new bytes offset =
    Inr (instrs_frame is offset, offset + of_nat (length (enc_instructions is)))"
proof -
  have r0: "rest_at bytes offset (enc_u16 (length is) @ concat (map enc_instruction is) @ post)"
    using r by (simp add: enc_instructions_def)
  note r1 = rest_at_advance [OF r0]
  have n: "unat (of_nat (length is) :: u16) = length is" using k(2) by (simp add: unat_of_nat)
  have "check_remaining bytes (offset + of_nat (length (enc_u16 (length is)))) (of_nat (3 * length is)) = Inr ()"
    using check_remaining_rest [OF r1, of "3 * length is"] enc_instructions_length [of "is"] k(2) by simp
  then have "check_remaining bytes (offset + of_nat (length (enc_u16 (length is)))) (3 * ucast (of_nat (length is) :: u16)) = Inr ()"
    by (simp only: three_times n)
  then show ?thesis
    using optimizedI [OF r0 k(2)] instruction_frames_complete [OF r1 k(1)] n
    by (simp add: instructions_frame_try_new_def instrs_frame_def enc_instructions_def add.assoc)
qed

lemma instructions_sound:
  assumes "instructions_frame_try_new bytes offset = Inr (f, offset')" "rest_at bytes offset rest"
  obtains "is" post where "rest = enc_instructions is @ post" "list_all instruction_ok is" "length is < 16384"
    "rest_at bytes offset' post"
proof -
  from assms(1) obtain n o1 fs where h: "optimized_read_compressed_u16 bytes offset = Inr (n, o1)"
    "instruction_frames bytes (unat n) o1 = Inr (fs, offset')"
    by (auto simp: instructions_frame_try_new_def bindr_eq_Inr_iff)
  from optimizedE [OF h(1) assms(2)] obtain r where r: "rest = enc_u16 (unat n) @ r" "unat n < 16384" "rest_at bytes o1 r"
    by metis
  from instruction_frames_sound [OF h(2) r(3)] obtain "is" post where "r = concat (map enc_instruction is) @ post"
    "length is = unat n" "list_all instruction_ok is" "rest_at bytes offset' post" by blast
  with r show thesis by (intro that [of "is" post]) (simp_all add: enc_instructions_def)
qed

text \<open>Reading the instructions back through the iterator.\<close>

lemma instructions_next_read:
  assumes r: "rest_at (it_bytes it) (it_offset it) (enc_instruction i @ post)" and k: "instruction_ok i"
    and f: "idx (it_frames it) (unat (it_index it)) = Some (frame_of_instruction i)"
    and n: "it_index it < it_num_instructions it"
  shows "instructions_next it = Some (Some i, it\<lparr>it_offset := it_offset it + of_nat (length (enc_instruction i)),
    it_index := it_index it + 1\<rparr>)"
proof -
  let ?b = "it_bytes it" and ?o = "it_offset it"
  have l: "length (ix_accounts i) < 16384" "length (ix_data i) < 16384" using k by (simp_all add: instruction_ok_def)
  have r0: "rest_at ?b ?o (program_id_index i # enc_bytes (ix_accounts i) @ enc_bytes (ix_data i) @ post)"
    using r by (simp add: enc_instruction_bytes)
  note r1 = rest_at_advance1 [OF r0]
  note a = bytes_read [OF r1 l(1)]
  note d = bytes_read [OF a(3) l(2)]
  have b: "unchecked_read_byte ?b ?o = Some (program_id_index i, ?o + 1)"
    using rest_at_idx [OF r0] by (simp add: unchecked_read_byte_def del: idx_eq_Some_iff)
  have c: "(ucast (of_nat (length (enc_u16 m)) :: u8) :: usize) = of_nat (length (enc_u16 m))" for m
    using length_enc_u16 [of m] by (simp add: word_unat_eq_iff unat_ucast_up unat_of_nat)
  show ?thesis
    using n f b a(4) d(4)
    by (simp add: instructions_next_def frame_of_instruction_def c enc_instruction_bytes Let_def add.assoc
        del: idx_eq_Some_iff)
qed

lemma instructions_collect_read:
  assumes "rest_at (it_bytes it) (it_offset it) (concat (map enc_instruction is) @ post)" "list_all instruction_ok is"
    "it_frames it = fs @ map frame_of_instruction is" "unat (it_index it) = length fs"
    "unat (it_num_instructions it) = length fs + length is"
  shows "instructions_collect it = Some is"
  using assms
proof (induction "is" arbitrary: it fs)
  case Nil
  then have "\<not> it_index it < it_num_instructions it" by (simp add: word_less_nat_alt)
  then show ?case by (simp add: instructions_collect.simps [of it] instructions_next_def)
next
  case (Cons i "is")
  have lt: "it_index it < it_num_instructions it" using Cons.prems(4,5) by (simp add: word_less_nat_alt)
  have r: "rest_at (it_bytes it) (it_offset it) (enc_instruction i @ concat (map enc_instruction is) @ post)"
    using Cons.prems(1) by simp
  have f: "idx (it_frames it) (unat (it_index it)) = Some (frame_of_instruction i)"
    using Cons.prems(3,4) by (simp add: nth_append)
  let ?it = "it\<lparr>it_offset := it_offset it + of_nat (length (enc_instruction i)), it_index := it_index it + 1\<rparr>"
  have n: "instructions_next it = Some (Some i, ?it)"
    using instructions_next_read [OF r _ f lt] Cons.prems(2) by simp
  have "unat (it_index it + 1) = Suc (length fs)"
    using unat_add_lt [of "it_index it" 1] lt unat_less [of "it_num_instructions it"] Cons.prems(4)
    by (simp add: word_less_nat_alt)
  then have "instructions_collect ?it = Some is"
    using Cons.IH [of ?it "fs @ [frame_of_instruction i]"] rest_at_advance [OF r] Cons.prems(2,3,5) by simp
  then show ?case by (simp add: instructions_collect.simps [of it] n)
qed

section \<open>Address table lookups\<close>

lemma enc_lookup_bytes:
  "enc_lookup l = to_le_bytes (account_key l) @ enc_bytes (writable_indexes l) @ enc_bytes (readonly_indexes l)"
  by (simp add: enc_lookup_def enc_bytes_def)

lemma key_read:
  assumes r: "rest_at bytes offset (to_le_bytes (k :: pubkey) @ post)"
  shows "advance_offset_for_type 32 bytes offset = Inr (offset + 32)" "rest_at bytes (offset + 32) post"
    "read_type 32 bytes offset = Some (Inr (to_le_bytes k, offset + 32))"
    "raw_parts bytes offset 32 = Some (to_le_bytes k)"
proof -
  show a: "advance_offset_for_type 32 bytes offset = Inr (offset + 32)" using advance_typeI [OF r, of 32] by simp
  show "rest_at bytes (offset + 32) post" using rest_at_advance [OF r] by simp
  have p: "ptr_add bytes offset = Some offset" using r by (simp add: ptr_add_def rest_at_def)
  show s: "raw_parts bytes offset 32 = Some (to_le_bytes k)" using rest_at_field [OF r] by simp
  show "read_type 32 bytes offset = Some (Inr (to_le_bytes k, offset + 32))" using a p s by (simp add: read_type_def)
qed

lemma writable_total_simps [simp]:
  "writable_total [] = 0" "writable_total (l # ls) = length (writable_indexes l) + writable_total ls"
  "readonly_total [] = 0" "readonly_total (l # ls) = length (readonly_indexes l) + readonly_total ls"
  by (simp_all add: writable_total_def readonly_total_def)

lemma lookup_frames_complete:
  assumes "rest_at bytes offset (concat (map enc_lookup ls) @ post)" "list_all lookup_ok ls"
  shows "lookup_frames bytes (length ls) offset w r =
    Inr (w + of_nat (writable_total ls), r + of_nat (readonly_total ls), offset + of_nat (length (concat (map enc_lookup ls))))"
  using assms
proof (induction ls arbitrary: offset w r)
  case (Cons l ls)
  have k: "length (writable_indexes l) < 16384" "length (readonly_indexes l) < 16384"
    using Cons.prems(2) by (simp_all add: lookup_ok_def)
  have r0: "rest_at bytes offset (to_le_bytes (account_key l) @ enc_bytes (writable_indexes l) @
      enc_bytes (readonly_indexes l) @ concat (map enc_lookup ls) @ post)"
    using Cons.prems(1) by (simp add: enc_lookup_bytes [of l])
  note b = key_read [OF r0]
  note ws = bytes_read [OF b(2) k(1)]
  note rs = bytes_read [OF ws(3) k(2)]
  have u: "(ucast (of_nat n :: u16) :: u32) = of_nat n" if "n < 16384" for n
    using that by (simp add: word_unat_eq_iff unat_ucast_up unat_of_nat)
  from Cons.IH [OF rs(3)] Cons.prems(2) show ?case
    using b(1) ws(1,2) rs(1,2) u [OF k(1)] u [OF k(2)] by (simp add: enc_lookup_bytes [of l] add.assoc)
qed simp

lemma lookup_frames_sound:
  assumes "lookup_frames bytes n offset w r = Inr (w', r', offset')" "rest_at bytes offset rest"
  shows "\<exists>ls post. rest = concat (map enc_lookup ls) @ post \<and> length ls = n \<and> list_all lookup_ok ls \<and>
    rest_at bytes offset' post"
  using assms
proof (induction n arbitrary: offset w r rest)
  case 0
  then show ?case by (intro exI [of _ "[]"] exI [of _ rest]) simp
next
  case (Suc n)
  from Suc.prems(1) obtain o1 a o2 o3 b o4 o5 where h: "advance_offset_for_type 32 bytes offset = Inr o1"
    "optimized_read_compressed_u16 bytes o1 = Inr (a, o2)" "advance_offset_for_array 1 bytes o2 a = Inr o3"
    "optimized_read_compressed_u16 bytes o3 = Inr (b, o4)" "advance_offset_for_array 1 bytes o4 b = Inr o5"
    "lookup_frames bytes n o5 (w + ucast a) (r + ucast b) = Inr (w', r', offset')"
    by (auto simp: bindr_eq_Inr_iff)
  from advance_typeE [OF h(1) Suc.prems(2)] obtain s r1 where s: "rest = s @ r1" "length s = 32" "rest_at bytes o1 r1"
    by auto
  from bytes_sound [OF h(2) s(3) h(3)] obtain ws r2 where ws: "r1 = enc_bytes ws @ r2" "length ws < 16384" "rest_at bytes o3 r2"
    by metis
  from bytes_sound [OF h(4) ws(3) h(5)] obtain rs r3 where rs: "r2 = enc_bytes rs @ r3" "length rs < 16384" "rest_at bytes o5 r3"
    by metis
  from Suc.IH [OF h(6) rs(3)] obtain ls post where ls: "r3 = concat (map enc_lookup ls) @ post" "length ls = n"
    "list_all lookup_ok ls" "rest_at bytes offset' post" by blast
  have "to_le_bytes (from_le_bytes s :: pubkey) = s" by (rule to_le_from_le) (simp add: s)
  moreover define l where "l = \<lparr>account_key = from_le_bytes s, writable_indexes = ws, readonly_indexes = rs\<rparr>"
  ultimately have "enc_lookup l = s @ enc_bytes ws @ enc_bytes rs" "lookup_ok l"
    using ws rs by (simp_all add: enc_lookup_bytes lookup_ok_def)
  with s ws rs ls show ?case by (intro exI [of _ "l # ls"] exI [of _ post]) simp
qed

definition lookups_frame :: "svm_lookup list \<Rightarrow> usize \<Rightarrow> address_table_lookup_frame" where
  "lookups_frame ls offset = \<lparr>num_address_table_lookups = of_nat (length ls),
     address_table_lookups_offset = ucast (offset + 1),
     total_writable_lookup_accounts = of_nat (writable_total ls),
     total_readonly_lookup_accounts = of_nat (readonly_total ls)\<rparr>"

lemma u16_try_from_of_nat: "n < 65536 \<Longrightarrow> u16_try_from (of_nat n) = Inr (of_nat n)"
  by (simp add: u16_try_from_def unat_of_nat word_unat_eq_iff unsigned_ucast_eq take_bit_eq_mod)

lemma lookups_complete:
  assumes r: "rest_at bytes offset (enc_lookups ls @ post)" and k: "lookups_ok ls"
  shows "address_table_lookup_frame_try_new bytes offset =
    Inr (lookups_frame ls offset, offset + of_nat (length (enc_lookups ls)))"
proof -
  have r0: "rest_at bytes offset (of_nat (length ls) # concat (map enc_lookup ls) @ post)"
    using r by (simp add: enc_lookups_def)
  note r1 = rest_at_advance1 [OF r0]
  have l: "length ls \<le> 31" "35 * length ls \<le> length (concat (map enc_lookup ls))" "list_all lookup_ok ls"
    "writable_total ls < 65536" "readonly_total ls < 65536" using k by (simp_all add: lookups_ok_def)
  have n: "unat (of_nat (length ls) :: u8) = length ls" using l(1) by (simp add: unat_of_nat)
  have "35 * ucast (of_nat (length ls) :: u8) = (of_nat (35 * length ls) :: usize)"
    using n l(1) by (simp add: word_unat_eq_iff unat_ucast_up unat_of_nat unat_word_ariths)
  then have "check_remaining bytes (offset + 1) (35 * ucast (of_nat (length ls) :: u8)) = Inr ()"
    using check_remaining_rest [OF r1, of "35 * length ls"] l(1,2) by simp
  moreover have "\<not> (31 :: u8) < of_nat (length ls)" using n l(1) by (simp add: word_less_nat_alt)
  ultimately show ?thesis
    using read_byteI [OF r0] lookup_frames_complete [OF r1 l(3), of 0 0] n u16_try_from_of_nat l(4,5)
    by (simp add: address_table_lookup_frame_try_new_def lookups_frame_def enc_lookups_def add.assoc)
qed

lemma lookups_sound:
  assumes h: "address_table_lookup_frame_try_new bytes offset = Inr (f, of_nat (length bytes))" "rest_at bytes offset rest"
  obtains ls where "rest = enc_lookups ls" "lookups_ok ls"
proof -
  from h(1) obtain n o1 w r w' r' where h: "read_byte bytes offset = Inr (n, o1)" "\<not> 31 < n"
    "check_remaining bytes o1 (35 * ucast n) = Inr ()"
    "lookup_frames bytes (unat n) o1 0 0 = Inr (w, r, of_nat (length bytes))"
    "u16_try_from w = Inr w'" "u16_try_from r = Inr r'"
    by (auto simp: address_table_lookup_frame_try_new_def bindr_eq_Inr_iff split: if_splits)
  from read_byteE [OF h(1) assms(2)] obtain r1 where r1: "rest = n # r1" "rest_at bytes o1 r1" by metis
  from lookup_frames_sound [OF h(4) r1(2)] obtain ls post where
    ls: "r1 = concat (map enc_lookup ls) @ post" "length ls = unat n" "list_all lookup_ok ls"
      "rest_at bytes (of_nat (length bytes)) post" by blast
  have b: "length bytes < 2 ^ 63" using assms(2) by (simp add: rest_at_def)
  then have post: "post = []" using ls(4) by (simp add: rest_at_def unat_of_nat)
  have n: "unat n \<le> 31" using h(2) by (simp add: word_less_nat_alt)
  have "35 * ucast n = (of_nat (35 * unat n) :: usize)" by simp
  then have c: "35 * length ls \<le> length r1"
    using check_remaining_rest [OF r1(2), of "35 * unat n"] h(3) n ls(2) by simp
  have t: "w = of_nat (writable_total ls)" "r = of_nat (readonly_total ls)"
    using lookup_frames_complete [OF _ ls(3), of bytes o1 post 0 0] h(4) r1(2) ls(1,2) by simp_all
  have small: "writable_total ls \<le> 16384 * length ls" "readonly_total ls \<le> 16384 * length ls"
    using ls(3) by (induction ls) (auto simp: lookup_ok_def)
  have "unat (of_nat k :: u32) = k" if "k \<le> 16384 * length ls" for k
    using that n ls(2) by (simp add: unat_of_nat)
  with small t h(5,6) have "writable_total ls < 65536" "readonly_total ls < 65536"
    by (auto simp: u16_try_from_def split: if_splits)
  with c n ls r1(1) post show thesis
    by (intro that [of ls]) (simp_all add: enc_lookups_def lookups_ok_def)
qed

lemma lookup_next_read:
  assumes r: "rest_at (lt_bytes it) (lt_offset it) (enc_lookup l @ post)" and k: "lookup_ok l"
    and n: "lt_index it < lt_num_lookups it"
  shows "lookup_next it = Some (Some l, it\<lparr>lt_offset := lt_offset it + of_nat (length (enc_lookup l)),
    lt_index := lt_index it + 1\<rparr>)"
proof -
  have k: "length (writable_indexes l) < 16384" "length (readonly_indexes l) < 16384"
    using k by (simp_all add: lookup_ok_def)
  have r0: "rest_at (lt_bytes it) (lt_offset it) (to_le_bytes (account_key l) @ enc_bytes (writable_indexes l) @
      enc_bytes (readonly_indexes l) @ post)" using r by (simp add: enc_lookup_bytes)
  note b = key_read [OF r0]
  note ws = bytes_read [OF b(2) k(1)]
  note rs = bytes_read [OF ws(3) k(2)]
  show ?thesis using b(3) ws(1,5) rs(1,5) n
    by (simp add: lookup_next_def lookup_read_def Let_def enc_lookup_bytes add.assoc)
qed

lemma lookup_collect_read:
  assumes "rest_at (lt_bytes it) (lt_offset it) (concat (map enc_lookup ls) @ post)" "list_all lookup_ok ls"
    "unat (lt_num_lookups it) = unat (lt_index it) + length ls"
  shows "lookup_collect it = Some ls"
  using assms
proof (induction ls arbitrary: it)
  case Nil
  then have "\<not> lt_index it < lt_num_lookups it" by (simp add: word_less_nat_alt)
  then show ?case by (simp add: lookup_collect.simps [of it] lookup_next_def)
next
  case (Cons l ls)
  have lt: "lt_index it < lt_num_lookups it" using Cons.prems(3) by (simp add: word_less_nat_alt)
  have r: "rest_at (lt_bytes it) (lt_offset it) (enc_lookup l @ concat (map enc_lookup ls) @ post)"
    using Cons.prems(1) by simp
  let ?it = "it\<lparr>lt_offset := lt_offset it + of_nat (length (enc_lookup l)), lt_index := lt_index it + 1\<rparr>"
  have n: "lookup_next it = Some (Some l, ?it)" using lookup_next_read [OF r _ lt] Cons.prems(2) by simp
  have "unat (lt_index it + 1) = Suc (unat (lt_index it))"
    using unat_add_lt [of "lt_index it" 1] lt unat_less [of "lt_num_lookups it"] by (simp add: word_less_nat_alt)
  then have "lookup_collect ?it = Some ls" using Cons.IH [of ?it] rest_at_advance [OF r] Cons.prems(2,3) by simp
  then show ?case by (simp add: lookup_collect.simps [of it] n)
qed

section \<open>Transactions\<close>

definition no_lookups :: address_table_lookup_frame where
  "no_lookups = \<lparr>num_address_table_lookups = 0, address_table_lookups_offset = 0,
     total_writable_lookup_accounts = 0, total_readonly_lookup_accounts = 0\<rparr>"

definition after_signatures :: "wire_transaction \<Rightarrow> usize" where
  "after_signatures t = of_nat (length (enc_counted (w_signatures t)))"

definition after_header :: "wire_transaction \<Rightarrow> usize" where
  "after_header t = after_signatures t + of_nat (length (enc_header (w_header t)))"

definition after_keys :: "wire_transaction \<Rightarrow> usize" where
  "after_keys t = after_header t + of_nat (length (enc_counted (w_keys t)))"

definition after_instructions :: "wire_transaction \<Rightarrow> usize" where
  "after_instructions t = after_keys t + 32 + of_nat (length (enc_instructions (w_instructions t)))"

definition frame_of_transaction :: "wire_transaction \<Rightarrow> transaction_frame" where
  "frame_of_transaction t = \<lparr>signature = sig_frame (w_signatures t) 0,
     message_header = head_frame (w_header t) (after_signatures t),
     static_account_keys = keys_frame (w_keys t) (after_header t),
     recent_blockhash_offset = ucast (after_keys t),
     instructions = instrs_frame (w_instructions t) (after_keys t + 32),
     address_table_lookup = (if w_version (w_header t) = V0 then lookups_frame (w_lookups t) (after_instructions t)
       else no_lookups)\<rparr>"

text \<open>What the accessors of a view return, all together.\<close>

definition contents :: "transaction_view \<Rightarrow> wire_transaction option" where
  "contents v = do {
     sigs \<leftarrow> view_signatures v;
     keys \<leftarrow> view_static_account_keys v;
     blockhash \<leftarrow> view_recent_blockhash v;
     is \<leftarrow> view_instructions v;
     ls \<leftarrow> view_address_table_lookups v;
     Some \<lparr>w_signatures = sigs,
       w_header = \<lparr>w_version = view_version v, w_required = view_num_required_signatures v,
         w_readonly_signed = view_num_readonly_signed_static_accounts v,
         w_readonly_unsigned = view_num_readonly_unsigned_static_accounts v\<rparr>,
       w_keys = keys, w_blockhash = blockhash, w_instructions = is, w_lookups = ls\<rparr> }"

lemma transaction_rests:
  assumes "length (enc_transaction t) < 2 ^ 63"
  defines "b \<equiv> enc_transaction t"
  defines "tail \<equiv> (case w_version (w_header t) of V0 \<Rightarrow> enc_lookups (w_lookups t) | Legacy \<Rightarrow> [])"
  shows "rest_at b 0 (enc_counted (w_signatures t) @ enc_header (w_header t) @ enc_counted (w_keys t) @
      to_le_bytes (w_blockhash t) @ enc_instructions (w_instructions t) @ tail)"
    "rest_at b (after_signatures t) (enc_header (w_header t) @ enc_counted (w_keys t) @
      to_le_bytes (w_blockhash t) @ enc_instructions (w_instructions t) @ tail)"
    "rest_at b (after_header t) (enc_counted (w_keys t) @ to_le_bytes (w_blockhash t) @
      enc_instructions (w_instructions t) @ tail)"
    "rest_at b (after_keys t) (to_le_bytes (w_blockhash t) @ enc_instructions (w_instructions t) @ tail)"
    "rest_at b (after_keys t + 32) (enc_instructions (w_instructions t) @ tail)"
    "rest_at b (after_instructions t) tail"
proof -
  show r0: "rest_at b 0 (enc_counted (w_signatures t) @ enc_header (w_header t) @ enc_counted (w_keys t) @
      to_le_bytes (w_blockhash t) @ enc_instructions (w_instructions t) @ tail)"
    using assms(1) by (simp add: rest_at_def b_def tail_def enc_transaction_def)
  show r1: "rest_at b (after_signatures t) (enc_header (w_header t) @ enc_counted (w_keys t) @
      to_le_bytes (w_blockhash t) @ enc_instructions (w_instructions t) @ tail)"
    using rest_at_advance [OF r0] by (simp add: after_signatures_def)
  show r2: "rest_at b (after_header t) (enc_counted (w_keys t) @ to_le_bytes (w_blockhash t) @
      enc_instructions (w_instructions t) @ tail)"
    using rest_at_advance [OF r1] by (simp add: after_header_def)
  show r3: "rest_at b (after_keys t) (to_le_bytes (w_blockhash t) @ enc_instructions (w_instructions t) @ tail)"
    using rest_at_advance [OF r2] by (simp add: after_keys_def)
  show r4: "rest_at b (after_keys t + 32) (enc_instructions (w_instructions t) @ tail)"
    using rest_at_advance [OF r3] by simp
  show "rest_at b (after_instructions t) tail"
    using rest_at_advance [OF r4] by (simp add: after_instructions_def)
qed

lemma rest_at_end: "rest_at bytes offset rest \<Longrightarrow> offset + of_nat (length rest) = of_nat (length bytes)"
proof -
  assume r: "rest_at bytes offset rest"
  then have "length bytes = unat offset + length rest" by (auto simp: rest_at_def)
  then show ?thesis by simp
qed

lemma transaction_complete:
  assumes k: "wire_ok t" and l: "length (enc_transaction t) < 2 ^ 63"
  shows "transaction_frame_try_new (enc_transaction t) = Inr (frame_of_transaction t)"
proof -
  note r = transaction_rests [OF l]
  have k: "0 < length (w_signatures t)" "length (w_signatures t) \<le> 12" "header_ok (w_header t)"
    "0 < length (w_keys t)" "length (w_keys t) \<le> 38" "list_all instruction_ok (w_instructions t)"
    "length (w_instructions t) < 16384" "w_version (w_header t) = V0 \<Longrightarrow> lookups_ok (w_lookups t)"
    using k by (simp_all add: wire_ok_def)
  note p = signatures_complete [OF r(1) k(1,2)] header_complete [OF r(2) k(3)] keys_complete [OF r(3) k(4,5)]
    key_read(1) [OF r(4)] instructions_complete [OF r(5) k(6,7)]
  note e = rest_at_end [OF r(6)]
  show ?thesis
  proof (cases "w_version (w_header t)")
    case Legacy
    with p e show ?thesis
      by (simp add: transaction_frame_try_new_def frame_of_transaction_def after_instructions_def after_keys_def
          after_header_def after_signatures_def head_frame_def no_lookups_def)
  next
    case V0
    have "rest_at (enc_transaction t) (after_instructions t) (enc_lookups (w_lookups t) @ [])" using r(6) V0 by simp
    from lookups_complete [OF this k(8) [OF V0]] V0 p e show ?thesis
      by (simp add: transaction_frame_try_new_def frame_of_transaction_def after_instructions_def after_keys_def
          after_header_def after_signatures_def head_frame_def)
  qed
qed

lemma transaction_sound:
  assumes h: "transaction_frame_try_new bytes = Inr f" and l: "length bytes < 2 ^ 63"
  obtains t where "wire_ok t" "bytes = enc_transaction t"
proof -
  from h obtain sf o1 hf o2 kf o3 o4 fs o5 af where
    p: "signature_frame_try_new bytes 0 = Inr (sf, o1)" "message_header_frame_try_new bytes o1 = Inr (hf, o2)"
      "static_account_keys_frame_try_new bytes o2 = Inr (kf, o3)" "advance_offset_for_type 32 bytes o3 = Inr o4"
      "instructions_frame_try_new bytes o4 = Inr (fs, o5)"
    and a: "(case version hf of Legacy \<Rightarrow> Inr (no_lookups, o5)
      | V0 \<Rightarrow> address_table_lookup_frame_try_new bytes o5) = Inr (af, of_nat (length bytes))"
    unfolding no_lookups_def
    by (auto simp: transaction_frame_try_new_def bindr_eq_Inr_iff Let_def split: if_split_asm)
  have r0: "rest_at bytes 0 bytes" using l by (simp add: rest_at_def)
  obtain sigs :: "signature list" and r1 where s: "bytes = enc_counted sigs @ r1" "0 < length sigs" "length sigs \<le> 12"
    by (rule signatures_sound [OF p(1) r0])
  then have o1: "o1 = of_nat (length (enc_counted sigs))" and r1: "rest_at bytes o1 r1"
    using signatures_complete [of bytes 0 sigs r1] r0 p(1) rest_at_advance [of bytes 0 "enc_counted sigs" r1] by auto
  obtain hd r2 where hd: "r1 = enc_header hd @ r2" "header_ok hd" by (rule header_sound [OF p(2) r1])
  then have o2: "hf = head_frame hd o1" and r2: "rest_at bytes o2 r2"
    using header_complete [of bytes o1 hd r2] r1 p(2) rest_at_advance [of bytes o1 "enc_header hd" r2] by auto
  obtain keys :: "pubkey list" and r3 where ks: "r2 = enc_counted keys @ r3" "0 < length keys" "length keys \<le> 38"
    by (rule keys_sound [OF p(3) r2])
  then have r3: "rest_at bytes o3 r3"
    using keys_complete [of bytes o2 keys r3] r2 p(3) rest_at_advance [of bytes o2 "enc_counted keys" r3] by auto
  obtain bh r4 where bh: "r3 = bh @ r4" "length bh = 32" and r4: "rest_at bytes o4 r4"
    using advance_typeE [OF p(4) r3] by auto
  obtain "is" r5 where ii: "r4 = enc_instructions is @ r5" "list_all instruction_ok is" "length is < 16384"
    and r5: "rest_at bytes o5 r5" by (rule instructions_sound [OF p(5) r4])
  have "to_le_bytes (from_le_bytes bh :: hash) = bh" by (rule to_le_from_le) (simp add: bh)
  then have b: "bytes = enc_counted sigs @ enc_header hd @ enc_counted keys @ to_le_bytes (from_le_bytes bh :: hash) @
      enc_instructions is @ r5" using s(1) hd(1) ks(1) bh(1) ii(1) by simp
  obtain ls where ls: "r5 = (case w_version hd of V0 \<Rightarrow> enc_lookups ls | Legacy \<Rightarrow> [])"
    "if w_version hd = V0 then lookups_ok ls else ls = []"
  proof (cases "w_version hd")
    case Legacy
    then have "rest_at bytes (of_nat (length bytes)) r5" using a r5 o2 by (simp add: head_frame_def)
    then have "r5 = []" using l by (auto simp: rest_at_def unat_of_nat)
    with Legacy show thesis by (intro that [of "[]"]) simp_all
  next
    case V0
    then have "address_table_lookup_frame_try_new bytes o5 = Inr (af, of_nat (length bytes))"
      using a o2 by (simp add: head_frame_def)
    from lookups_sound [OF this r5] V0 show thesis by (metis that transaction_version.simps(4))
  qed
  show thesis
    by (rule that [of "\<lparr>w_signatures = sigs, w_header = hd, w_keys = keys, w_blockhash = from_le_bytes bh,
        w_instructions = is, w_lookups = ls\<rparr>"])
      (use b s(2,3) hd(2) ks(2,3) ii(2,3) ls in \<open>simp_all add: wire_ok_def enc_transaction_def split: transaction_version.splits\<close>)
qed

text \<open>The accessors on a written transaction.\<close>

lemma ucast_back: "unat (n :: usize) < 65536 \<Longrightarrow> (ucast (ucast n :: u16) :: usize) = n"
proof -
  assume n: "unat n < 65536"
  have "unat (ucast (ucast n :: u16) :: usize) = unat (ucast n :: u16)" by (rule unat_ucast_up) simp
  also have "\<dots> = take_bit 16 (unat n)" by (subst unsigned_ucast_eq) simp
  also have "\<dots> = unat n" using n by (simp add: take_bit_eq_mod)
  finally show ?thesis by (rule word_unat_eq_iff [THEN iffD2])
qed

lemma rest_at_back: "rest_at bytes offset rest \<Longrightarrow> length bytes < 65536 \<Longrightarrow> (ucast (ucast offset :: u16) :: usize) = offset"
  by (rule ucast_back) (simp add: rest_at_def)

lemma array_read:
  fixes xs :: "'a::len word list"
  assumes r: "rest_at bytes offset (enc_counted xs @ post)" and l: "length bytes < 65536" "length xs < 256"
    and k: "8 * k = LENGTH('a)" "k < 2 ^ 32"
  shows "raw_array k bytes (ucast (ucast (offset + 1) :: u16)) (unat (of_nat (length xs) :: u8)) = Some xs"
proof -
  have r1: "rest_at bytes (offset + 1) (enc_array xs @ post)"
    using rest_at_advance1 r by (simp add: enc_counted_def)
  have "unat (of_nat (length xs) :: u8) = length xs" using l(2) by (simp add: unat_of_nat)
  moreover have "ptr_add bytes (offset + 1) = Some (offset + 1)" using r1 by (simp add: ptr_add_def rest_at_def)
  ultimately show ?thesis
    using counted_read(3) [OF r l(2) k] array_values_enc [OF k(1), of xs]
    by (simp add: raw_array_def rest_at_back [OF r1 l(1)])
qed

lemma contents_complete:
  assumes k: "wire_ok t" and l: "length (enc_transaction t) < 65536"
  shows "contents \<lparr>view_data = enc_transaction t, view_frame = frame_of_transaction t\<rparr> = Some t"
proof -
  let ?b = "enc_transaction t" and ?v = "\<lparr>view_data = enc_transaction t, view_frame = frame_of_transaction t\<rparr>"
  have l': "length ?b < 2 ^ 63" using l by simp
  note r = transaction_rests [OF l']
  have s: "view_signatures ?v = Some (w_signatures t)"
    using array_read [OF r(1) l, of 64] k
    by (simp add: view_signatures_def frame_signatures_def frame_of_transaction_def sig_frame_def wire_ok_def)
  have ks: "view_static_account_keys ?v = Some (w_keys t)"
    using array_read [OF r(3) l, of 32] k
    by (simp add: view_static_account_keys_def frame_static_account_keys_def frame_of_transaction_def keys_frame_def wire_ok_def)
  have "ptr_add ?b (after_keys t) = Some (after_keys t)" using r(4) by (simp add: ptr_add_def rest_at_def)
  then have bh: "view_recent_blockhash ?v = Some (w_blockhash t)"
    using key_read(4) [OF r(4)] rest_at_back [OF r(4) l]
    by (simp add: view_recent_blockhash_def frame_recent_blockhash_def frame_of_transaction_def)
  have ri: "rest_at ?b (after_keys t + 32 + of_nat (length (enc_u16 (length (w_instructions t)))))
      (concat (map enc_instruction (w_instructions t)) @
       (case w_version (w_header t) of V0 \<Rightarrow> enc_lookups (w_lookups t) | Legacy \<Rightarrow> []))"
    using rest_at_advance [of ?b "after_keys t + 32" "enc_u16 (length (w_instructions t))"] r(5)
    by (simp add: enc_instructions_def)
  have "length (w_instructions t) < 16384" "list_all instruction_ok (w_instructions t)"
    using k by (simp_all add: wire_ok_def)
  then have i: "view_instructions ?v = Some (w_instructions t)"
    unfolding view_instructions_def
    by (intro instructions_collect_read [where fs = "[]"])
      (use ri rest_at_back [OF ri l] in \<open>simp_all add: frame_instructions_iter_def frame_of_transaction_def
        instrs_frame_def unat_of_nat\<close>)
  have ls: "view_address_table_lookups ?v = Some (w_lookups t)"
  proof (cases "w_version (w_header t)")
    case Legacy
    with k show ?thesis
      by (simp add: view_address_table_lookups_def frame_address_table_lookup_iter_def frame_of_transaction_def
          no_lookups_def wire_ok_def lookup_collect.simps lookup_next_def)
  next
    case V0
    then have rl: "rest_at ?b (after_instructions t + 1) (concat (map enc_lookup (w_lookups t)) @ [])"
      using rest_at_advance1 r(6) by (simp add: enc_lookups_def)
    have "length (w_lookups t) \<le> 31" "list_all lookup_ok (w_lookups t)"
      using k V0 by (simp_all add: wire_ok_def lookups_ok_def)
    then show ?thesis
      unfolding view_address_table_lookups_def using V0
      by (intro lookup_collect_read [where post = "[]"])
        (use rl rest_at_back [OF rl l] in \<open>simp_all add: frame_address_table_lookup_iter_def frame_of_transaction_def
          lookups_frame_def unat_of_nat\<close>)
  qed
  have "message_header (frame_of_transaction t) = head_frame (w_header t) (after_signatures t)"
    by (simp add: frame_of_transaction_def)
  then show ?thesis
    by (simp add: contents_def s ks bh i ls view_version_def view_num_required_signatures_def
        view_num_readonly_signed_static_accounts_def view_num_readonly_unsigned_static_accounts_def head_frame_def)
qed

end
