(* ===== verification/Tx_Properties.thy ===== *)
theory Tx_Properties
  imports Tx_Wire
begin

text \<open>
  Properties of the transaction view: parsing accepts exactly the written transactions within the
  limits, the accessors stay inside the buffer and return what was written, the sanitization checks
  decide the stated conditions, and the cache of writable accounts is exact.
\<close>

section \<open>Parsing\<close>

definition written :: "wire_transaction \<Rightarrow> transaction_view" where
  "written t = \<lparr>view_data = enc_transaction t, view_frame = frame_of_transaction t\<rparr>"

lemma parsed_written:
  assumes "try_new_unsanitized bytes = Inr v" "length bytes < 65536"
  obtains t where "wire_ok t" "bytes = enc_transaction t" "v = written t" "contents v = Some t"
proof -
  from assms(1) obtain f where f: "transaction_frame_try_new bytes = Inr f" "v = \<lparr>view_data = bytes, view_frame = f\<rparr>"
    by (auto simp: try_new_unsanitized_def bindr_eq_Inr_iff)
  obtain t where t: "wire_ok t" "bytes = enc_transaction t"
    by (rule transaction_sound [OF f(1)]) (use assms(2) in simp_all)
  then have "f = frame_of_transaction t" using transaction_complete [of t] f(1) assms(2) by simp
  with t f(2) contents_complete [of t] assms(2) show thesis
    by (intro that [of t]) (simp_all add: written_def)
qed

lemma view_counts:
  assumes "wire_ok t"
  shows "unat (view_num_signatures (written t)) = length (w_signatures t)"
    "unat (view_num_static_account_keys (written t)) = length (w_keys t)"
    "unat (view_num_instructions (written t)) = length (w_instructions t)"
    "unat (view_num_address_table_lookups (written t)) = length (w_lookups t)"
    "unat (view_total_writable_lookup_accounts (written t)) = writable_total (w_lookups t)"
    "unat (view_total_readonly_lookup_accounts (written t)) = readonly_total (w_lookups t)"
  using assms
  by (auto simp: wire_ok_def written_def frame_of_transaction_def sig_frame_def keys_frame_def instrs_frame_def
      lookups_frame_def no_lookups_def lookups_ok_def unat_of_nat view_num_signatures_def
      view_num_static_account_keys_def view_num_instructions_def view_num_address_table_lookups_def
      view_total_writable_lookup_accounts_def view_total_readonly_lookup_accounts_def split: if_splits)

lemma view_header [simp]:
  "view_version (written t) = w_version (w_header t)"
  "view_num_required_signatures (written t) = w_required (w_header t)"
  "view_num_readonly_signed_static_accounts (written t) = w_readonly_signed (w_header t)"
  "view_num_readonly_unsigned_static_accounts (written t) = w_readonly_unsigned (w_header t)"
  by (simp_all add: written_def frame_of_transaction_def head_frame_def view_version_def
      view_num_required_signatures_def view_num_readonly_signed_static_accounts_def
      view_num_readonly_unsigned_static_accounts_def)

lemma contentsD:
  assumes "contents v = Some t"
  shows "view_signatures v = Some (w_signatures t)" "view_static_account_keys v = Some (w_keys t)"
    "view_recent_blockhash v = Some (w_blockhash t)" "view_instructions v = Some (w_instructions t)"
    "view_address_table_lookups v = Some (w_lookups t)"
  using assms by (auto simp: contents_def bind_eq_Some_conv)

text \<open>
  C10. Reading a parsed transaction is memory safe and exact: when parsing a buffer of at most 65535 bytes
  succeeds, every accessor of the view reads inside the buffer, the iterators end after exactly the
  announced number of items, and writing what they return gives back the buffer, byte for byte, so
  that no buffer has two readings.
\<close>

theorem transaction_view_exact:
  assumes "length bytes < 65536" "try_new_unsanitized bytes = Inr v"
  shows "\<exists>t. contents v = Some t \<and> enc_transaction t = bytes \<and> wire_ok t \<and>
    unat (view_num_signatures v) = length (w_signatures t) \<and>
    unat (view_num_static_account_keys v) = length (w_keys t) \<and>
    unat (view_num_instructions v) = length (w_instructions t) \<and>
    unat (view_num_address_table_lookups v) = length (w_lookups t) \<and>
    view_message_data v = Some (drop (length (enc_counted (w_signatures t))) bytes)"
proof -
  from parsed_written [OF assms(2,1)] obtain t where t: "wire_ok t" "bytes = enc_transaction t" "v = written t"
    "contents v = Some t" by metis
  have l: "length bytes < 2 ^ 63" using assms(1) by simp
  have r: "unat (after_signatures t) = length (enc_counted (w_signatures t))"
    "length (enc_counted (w_signatures t)) \<le> length bytes"
    using l t(2) by (auto simp: after_signatures_def enc_transaction_def unat_of_nat)
  have "unat (ucast (after_signatures t) :: u16) = length (enc_counted (w_signatures t))"
    using r assms(1) by (simp add: unsigned_ucast_eq take_bit_eq_mod)
  then have "view_message_data v = Some (drop (length (enc_counted (w_signatures t))) bytes)"
    using r(2) t(2,3) by (simp add: view_message_data_def written_def frame_of_transaction_def head_frame_def)
  then show ?thesis using t view_counts [OF t(1)] by (intro exI [of _ t]) simp
qed

definition ex_tx :: wire_transaction where
  "ex_tx = \<lparr>w_signatures = [5], w_header = \<lparr>w_version = V0, w_required = 1, w_readonly_signed = 0, w_readonly_unsigned = 1\<rparr>,
     w_keys = [7, 8], w_blockhash = 9,
     w_instructions = [\<lparr>program_id_index = 1, ix_accounts = [0, 2], ix_data = [42]\<rparr>],
     w_lookups = [\<lparr>account_key = 11, writable_indexes = [3], readonly_indexes = []\<rparr>]\<rparr>"

lemma ex_tx_ok: "wire_ok ex_tx"
  by (simp add: wire_ok_def ex_tx_def header_ok_def instruction_ok_def lookups_ok_def lookup_ok_def enc_lookup_def
      enc_u16_def)

lemma ex_tx_length: "length (enc_transaction ex_tx) < 65536"
  by (simp add: ex_tx_def enc_transaction_def enc_counted_def enc_array_def enc_header_def enc_instructions_def
      enc_instruction_def enc_lookups_def enc_lookup_def enc_u16_def)

text \<open>
  C11. Every transaction is parsed: the bytes of any transaction within the limits (at most twelve signatures,
  thirty-eight static keys, two-byte lengths, lookups of at least 35 bytes on average) and of at
  most 65535 bytes are accepted, and the accessors return exactly its contents.
\<close>

theorem transaction_round_trip:
  assumes "wire_ok t" "length (enc_transaction t) < 65536"
  shows "\<exists>v. try_new_unsanitized (enc_transaction t) = Inr v \<and> contents v = Some t"
  using transaction_complete [of t] contents_complete [of t] assms by (simp add: try_new_unsanitized_def)

theorem transaction_round_trip_witness:
  "wire_ok ex_tx \<and> (\<exists>v. try_new_unsanitized (enc_transaction ex_tx) = Inr v \<and> contents v = Some ex_tx)"
  using transaction_round_trip [OF ex_tx_ok ex_tx_length] ex_tx_ok by simp

lemma ex_tx_parsed: "try_new_unsanitized (enc_transaction ex_tx) = Inr (written ex_tx)"
  using transaction_complete [OF ex_tx_ok] ex_tx_length by (simp add: try_new_unsanitized_def written_def)

theorem transaction_view_exact_witness:
  "try_new_unsanitized (enc_transaction ex_tx) = Inr (written ex_tx) \<and>
   (\<exists>t. contents (written ex_tx) = Some t \<and> enc_transaction t = enc_transaction ex_tx)"
  using transaction_view_exact [OF ex_tx_length ex_tx_parsed] ex_tx_parsed by blast

section \<open>Sanitization\<close>

definition account_total :: "wire_transaction \<Rightarrow> nat" where
  "account_total t = length (w_keys t) + writable_total (w_lookups t) + readonly_total (w_lookups t)"

text \<open>The conditions, on the contents.\<close>

definition signatures_sanitary :: "wire_transaction \<Rightarrow> bool" where
  "signatures_sanitary t \<longleftrightarrow> length (w_signatures t) = unat (w_required (w_header t)) \<and>
     length (w_signatures t) \<le> length (w_keys t)"

definition access_sanitary :: "wire_transaction \<Rightarrow> bool" where
  "access_sanitary t \<longleftrightarrow>
     unat (w_required (w_header t)) + unat (w_readonly_unsigned (w_header t)) \<le> length (w_keys t) \<and>
     unat (w_readonly_signed (w_header t)) < unat (w_required (w_header t)) \<and> account_total t \<le> 256"

definition instruction_sanitary :: "wire_transaction \<Rightarrow> svm_instruction \<Rightarrow> bool" where
  "instruction_sanitary t i \<longleftrightarrow> 0 < unat (program_id_index i) \<and> unat (program_id_index i) < length (w_keys t) \<and>
     list_all (\<lambda>a. unat a < account_total t) (ix_accounts i)"

definition lookup_sanitary :: "svm_lookup \<Rightarrow> bool" where
  "lookup_sanitary l \<longleftrightarrow> writable_indexes l \<noteq> [] \<or> readonly_indexes l \<noteq> []"

definition sanitary :: "wire_transaction \<Rightarrow> bool" where
  "sanitary t \<longleftrightarrow> signatures_sanitary t \<and> access_sanitary t \<and> list_all (instruction_sanitary t) (w_instructions t) \<and>
     list_all lookup_sanitary (w_lookups t)"

lemma foldr_res_check:
  assumes "\<And>x. f x = (if P x then Inr () else Inl e)"
  shows "foldr_res (\<lambda>_. f) () xs = (if list_all P xs then Inr () else Inl e)"
  by (induction xs) (simp_all add: assms)

lemma sanitize_signatures_written:
  "wire_ok t \<Longrightarrow> sanitize_signatures (written t) = (if signatures_sanitary t then Inr () else Inl SanitizeError)"
  using view_counts [of t]
  by (auto simp: sanitize_signatures_def signatures_sanitary_def word_unat_eq_iff word_less_nat_alt)

lemma total_written:
  assumes "wire_ok t"
  shows "unat (total_number_of_accounts (written t)) = min (account_total t) 65535"
  using view_counts [OF assms] by (simp add: total_number_of_accounts_def unat_saturating_add unat_ucast_up account_total_def)

lemma access_written:
  assumes k: "wire_ok t" and s: "signatures_sanitary t"
  shows "sanitize_account_access (written t) = (if access_sanitary t then Inr () else Inl SanitizeError)"
proof -
  let ?h = "w_header t" and ?v = "written t"
  have le: "w_required ?h \<le> view_num_static_account_keys ?v"
    using s view_counts(2) [OF k] by (simp add: signatures_sanitary_def word_le_nat_alt)
  then have "unat (view_num_static_account_keys ?v - w_required ?h) = length (w_keys t) - unat (w_required ?h)"
    using view_counts(2) [OF k] by (simp add: unat_sub)
  moreover have "256 < total_number_of_accounts ?v \<longleftrightarrow> 256 < account_total t"
    using total_written [OF k] by (auto simp: word_less_nat_alt)
  moreover have "unat (w_required ?h) \<le> length (w_keys t)" using s by (simp add: signatures_sanitary_def)
  ultimately show ?thesis
    by (auto simp: sanitize_account_access_def access_sanitary_def word_less_nat_alt word_le_nat_alt)
qed

lemma instruction_written:
  assumes k: "wire_ok t" and a: "access_sanitary t"
  shows "sanitize_instruction (view_num_static_account_keys (written t) - 1)
      (ucast (total_number_of_accounts (written t) - 1)) i =
    (if instruction_sanitary t i then Inr () else Inl SanitizeError)"
proof -
  let ?v = "written t"
  have n: "0 < length (w_keys t)" "unat (view_num_static_account_keys ?v) = length (w_keys t)"
    using k view_counts(2) [OF k] by (auto simp: wire_ok_def)
  then have m: "unat (view_num_static_account_keys ?v - 1) = length (w_keys t) - 1"
    by (subst unat_sub) (simp_all add: word_le_nat_alt Suc_le_eq)
  have t: "0 < account_total t" "account_total t \<le> 256" using n a by (simp_all add: account_total_def access_sanitary_def)
  then have u: "unat (total_number_of_accounts ?v) = account_total t" using total_written [OF k] by simp
  then have "unat (total_number_of_accounts ?v - 1) = account_total t - 1"
    using t by (subst unat_sub) (simp_all add: word_le_nat_alt Suc_le_eq)
  then have "unat (ucast (total_number_of_accounts ?v - 1) :: u8) = account_total t - 1"
    using t by (simp add: unsigned_ucast_eq take_bit_eq_mod)
  then have acc: "(x > ucast (total_number_of_accounts ?v - 1)) = (\<not> unat x < account_total t)" for x :: u8
    using t by (auto simp: word_less_nat_alt)
  have "foldr_res (\<lambda>_ x. if x > ucast (total_number_of_accounts ?v - 1) then Inl SanitizeError else Inr ()) () (ix_accounts i) =
      (if list_all (\<lambda>x. unat x < account_total t) (ix_accounts i) then Inr () else Inl SanitizeError)"
    by (rule foldr_res_check) (simp add: acc)
  moreover have "program_id_index i > view_num_static_account_keys ?v - 1 \<longleftrightarrow> \<not> unat (program_id_index i) < length (w_keys t)"
    unfolding word_less_nat_alt m using n(1) by arith
  moreover have "program_id_index i = 0 \<longleftrightarrow> \<not> 0 < unat (program_id_index i)" by (simp add: word_unat_eq_iff)
  ultimately show ?thesis by (simp add: sanitize_instruction_def instruction_sanitary_def)
qed

lemma sanitize_written:
  assumes k: "wire_ok t" and c: "contents (written t) = Some t"
  shows "sanitize (written t) = Some (if sanitary t then Inr () else Inl SanitizeError)"
proof -
  note v = contentsD [OF c]
  have l: "sanitize_address_table_lookups (written t) =
      Some (if list_all lookup_sanitary (w_lookups t) then Inr () else Inl SanitizeError)"
    unfolding sanitize_address_table_lookups_def v bind.bind_lunit
    by (rule arg_cong [of _ _ Some], rule foldr_res_check) (simp add: lookup_sanitary_def)
  have i: "sanitize_instructions (written t) =
      Some (if list_all (instruction_sanitary t) (w_instructions t) then Inr () else Inl SanitizeError)"
    if "access_sanitary t"
    unfolding sanitize_instructions_def v bind.bind_lunit
    by (rule arg_cong [of _ _ Some], rule foldr_res_check, rule instruction_written [OF k that])
  show ?thesis
    using sanitize_signatures_written [OF k] access_written [OF k] l i
    by (auto simp: sanitize_def sanitary_def)
qed

lemma program_instructions_fold:
  "list_all (\<lambda>i. unat (program_id_index i) < length keys) is \<Longrightarrow>
   fold_opt (\<lambda>acc i. do { k \<leftarrow> idx keys (unat (program_id_index i)); Some (acc @ [(k, i)]) }) acc is =
     Some (acc @ map (\<lambda>i. (keys ! unat (program_id_index i), i)) is)"
  by (induction "is" arbitrary: acc) (simp_all add: idx_lt)

lemma program_instructions_written:
  assumes "contents v = Some t" "sanitary t"
  shows "program_instructions v = Some (map (\<lambda>i. (w_keys t ! unat (program_id_index i), i)) (w_instructions t))"
proof -
  have "list_all (\<lambda>i. unat (program_id_index i) < length (w_keys t)) (w_instructions t)"
    using assms(2) by (auto simp: sanitary_def list_all_iff instruction_sanitary_def)
  then show ?thesis
    using contentsD [OF assms(1)] by (simp add: program_instructions_def program_instructions_fold)
qed

lemma total_num_written:
  assumes "wire_ok t" "sanitary t"
  shows "unat (total_num_accounts (written t)) = account_total t"
proof -
  have "account_total t \<le> 256" using assms(2) by (simp add: sanitary_def access_sanitary_def)
  then show ?thesis using view_counts [OF assms(1)]
    by (simp add: total_num_accounts_def account_total_def unat_word_ariths unat_ucast_up)
qed

text \<open>
  C12. Sanitization decides exactly its conditions: on a parsed transaction of at most 65535 bytes it reads
  inside the buffer and succeeds if and only if the signatures match the header and the keys, the
  read-only areas do not overlap the rest, there is a writable fee payer, there are at most 256
  accounts, every program is a static key other than the fee payer, every account index is in range
  and every lookup loads something; otherwise it returns the sanitize error. After it succeeds,
  pairing the instructions with their programs never panics and the wrapping count of the accounts
  is exact.
\<close>

theorem sanitize_decides:
  assumes "length bytes < 65536" "try_new_unsanitized bytes = Inr v"
  shows "\<exists>t. contents v = Some t \<and> sanitize v = Some (if sanitary t then Inr () else Inl SanitizeError) \<and>
    (sanitary t \<longrightarrow> unat (total_num_accounts v) = account_total t \<and>
      program_instructions v = Some (map (\<lambda>i. (w_keys t ! unat (program_id_index i), i)) (w_instructions t)))"
proof -
  from parsed_written [OF assms(2,1)] obtain t where t: "wire_ok t" "v = written t" "contents v = Some t" by metis
  then show ?thesis
    using sanitize_written [of t] program_instructions_written [of v t] total_num_written [of t]
    by (intro exI [of _ t]) simp
qed

lemma ex_tx_sanitary: "sanitary ex_tx"
  by (simp add: sanitary_def ex_tx_def signatures_sanitary_def access_sanitary_def instruction_sanitary_def
      lookup_sanitary_def account_total_def)

lemma ex_tx_contents: "contents (written ex_tx) = Some ex_tx"
  using contents_complete [OF ex_tx_ok ex_tx_length] by (simp add: written_def)

theorem sanitize_decides_witness:
  "try_new_unsanitized (enc_transaction ex_tx) = Inr (written ex_tx) \<and> sanitize (written ex_tx) = Some (Inr ())"
  using sanitize_decides [OF ex_tx_length ex_tx_parsed] ex_tx_contents ex_tx_sanitary ex_tx_parsed by auto

section \<open>Resolved transactions\<close>

text \<open>
  The documented iteration order of the account keys of a message: the static keys, then the writable,
  then the read-only loaded addresses.
\<close>

definition all_keys :: "pubkey list \<Rightarrow> loaded_addresses option \<Rightarrow> pubkey list" where
  "all_keys static resolved = static @ (case resolved of None \<Rightarrow> []
     | Some l \<Rightarrow> writable_addresses l @ readonly_addresses l)"

definition account_env_ok :: "account_env \<Rightarrow> bool" where
  "account_env_ok env \<longleftrightarrow> (\<forall>s l. account_keys_iter env s l = all_keys s l)"

text \<open>Which positions a transaction asks to write, from the header and the lookups.\<close>

definition write_requested :: "wire_transaction \<Rightarrow> nat \<Rightarrow> bool" where
  "write_requested t j \<longleftrightarrow>
     (let h = w_header t; s = unat (w_required h); n = length (w_keys t) in
      j < s - unat (w_readonly_signed h) \<or>
      s \<le> j \<and> j < n - unat (w_readonly_unsigned h) \<or>
      n \<le> j \<and> j < n + writable_total (w_lookups t))"

definition writable_spec :: "account_env \<Rightarrow> wire_transaction \<Rightarrow> pubkey list \<Rightarrow> nat \<Rightarrow> bool" where
  "writable_spec env t keys j \<longleftrightarrow> j < length keys \<and> write_requested t j \<and> keys ! j \<notin> reserved_account_keys env \<and>
     ((\<exists>i \<in> set (w_instructions t). unat (program_id_index i) = j) \<longrightarrow> bpf_loader_upgradeable env \<in> set keys)"

lemma requested_written:
  assumes k: "wire_ok t" and s: "sanitary t"
  shows "is_requested_write (written t) j \<longleftrightarrow> write_requested t j"
proof -
  let ?h = "w_header t" and ?v = "written t"
  have c: "unat (w_required ?h) + unat (w_readonly_unsigned ?h) \<le> length (w_keys t)"
    "unat (w_readonly_signed ?h) < unat (w_required ?h)"
    using s by (simp_all add: sanitary_def access_sanitary_def)
  have n: "unat (view_num_static_account_keys ?v) = length (w_keys t)" by (rule view_counts(2) [OF k])
  have d: "unat (num_static_unsigned_static_accounts ?v) = length (w_keys t) - unat (w_required ?h)"
    using c n by (simp add: num_static_unsigned_static_accounts_def unat_sub word_le_nat_alt)
  then have "unat (num_writable_unsigned_static_accounts ?v) =
      length (w_keys t) - unat (w_required ?h) - unat (w_readonly_unsigned ?h)"
    using c n by (simp add: num_writable_unsigned_static_accounts_def unat_sub word_le_nat_alt)
  moreover have "unat (num_writable_signed_static_accounts ?v) = unat (w_required ?h) - unat (w_readonly_signed ?h)"
    using c by (simp add: num_writable_signed_static_accounts_def unat_sub word_le_nat_alt)
  ultimately show ?thesis using c n view_counts(5) [OF k]
    by (auto simp: is_requested_write_def write_requested_def Let_def)
qed

lemma cache_requested_from:
  assumes "m + length ks \<le> length c"
  shows "\<exists>c'. fold_opt (\<lambda>c (j, key). cache_set c j (P j key)) c (enumerate m ks) = Some c' \<and>
    length c' = length c \<and> (\<forall>j. c' ! j = (if m \<le> j \<and> j < m + length ks
      then P j (ks ! (j - m)) else c ! j))"
  using assms
proof (induction ks arbitrary: m c)
  case (Cons k ks)
  have s: "cache_set c (m) (P m k) = Some (c[m := P m k])"
    using Cons.prems by (simp add: cache_set_def)
  from Cons.IH [of "Suc m" "c[m := P m k]"] Cons.prems obtain c' where
    c': "fold_opt (\<lambda>c (j, key). cache_set c j (P j key)) (c[m := P m k]) (enumerate (Suc m) ks) = Some c'"
      "length c' = length c"
      "\<And>j. c' ! j = (if Suc m \<le> j \<and> j < Suc m + length ks
        then P j (ks ! (j - Suc m)) else c[m := P m k] ! j)"
    by auto
  have "c' ! j = (if m \<le> j \<and> j < m + length (k # ks) then P j ((k # ks) ! (j - m)) else c ! j)" for j
    using c'(3) [of j] Cons.prems by (auto simp: nth_Cons' nth_list_update Suc_le_eq)
  then show ?case using s c'(1,2) by simp
qed auto

lemma cache_demote_fold:
  assumes "present = None \<or> present = Some (bpf_loader_upgradeable env \<in> set keys)"
    "\<forall>i \<in> set is. unat (program_id_index i) < length c"
  shows "\<exists>c' p. fold_opt (cache_demote env keys) (c, present) is = Some (c', p) \<and> length c' = length c \<and>
    (\<forall>j < length c. c' ! j = (c ! j \<and> ((\<exists>i \<in> set is. unat (program_id_index i) = j) \<longrightarrow> bpf_loader_upgradeable env \<in> set keys)))"
  using assms
proof (induction "is" arbitrary: c present)
  case (Cons i "is")
  let ?L = "bpf_loader_upgradeable env \<in> set keys" and ?p = "unat (program_id_index i)"
  have lt: "?p < length c" using Cons.prems(2) by simp
  define c1 where "c1 = (if c ! ?p \<and> \<not> ?L then c[?p := False] else c)"
  define p1 where "p1 = (if c ! ?p then Some ?L else present)"
  have p1: "cache_demote env keys (c, present) i = Some (c1, p1)" "p1 = None \<or> p1 = Some ?L"
    using Cons.prems(1) lt by (auto simp: cache_demote_def c1_def p1_def cache_set_def idx_def Let_def)
  have l: "length c1 = length c" by (simp add: c1_def)
  from Cons.IH [OF p1(2), of c1] Cons.prems(2) l obtain c' p where
    c': "fold_opt (cache_demote env keys) (c1, p1) is = Some (c', p)" "length c' = length c"
      "\<And>j. j < length c \<Longrightarrow> c' ! j = (c1 ! j \<and> ((\<exists>i \<in> set is. unat (program_id_index i) = j) \<longrightarrow> ?L))"
    by auto
  have "c1 ! j = (c ! j \<and> (?p = j \<longrightarrow> ?L))" if "j < length c" for j
    using that lt by (auto simp: c1_def nth_list_update)
  then have "c' ! j = (c ! j \<and> ((\<exists>x \<in> set (i # is). unat (program_id_index x) = j) \<longrightarrow> ?L))" if "j < length c" for j
    using c'(3) [OF that] that by auto
  then show ?case using p1(1) c'(1,2) by simp
qed simp

definition addresses_match :: "wire_transaction \<Rightarrow> loaded_addresses option \<Rightarrow> bool" where
  "addresses_match t resolved \<longleftrightarrow> (case resolved of
     None \<Rightarrow> w_version (w_header t) = Legacy
   | Some l \<Rightarrow> length (writable_addresses l) = writable_total (w_lookups t) \<and>
       length (readonly_addresses l) = readonly_total (w_lookups t))"

lemma match_total:
  "wire_ok t \<Longrightarrow> addresses_match t resolved \<Longrightarrow> length (all_keys (w_keys t) resolved) = account_total t"
  by (auto simp: addresses_match_def all_keys_def account_total_def wire_ok_def split: option.splits if_splits)

lemma cache_written:
  assumes k: "wire_ok t" and c: "contents (written t) = Some t" and s: "sanitary t" and e: "account_env_ok env"
    and a: "addresses_match t resolved"
  defines "keys \<equiv> all_keys (w_keys t) resolved"
  shows "\<exists>cache. cache_is_writable env (written t) resolved = Some cache \<and>
    (\<forall>j. (case idx cache j of Some b \<Rightarrow> b | None \<Rightarrow> False) = writable_spec env t keys j)"
proof -
  have n: "length keys = account_total t" "account_total t \<le> 256"
    using match_total [OF k a] s by (simp_all add: keys_def sanitary_def access_sanitary_def)
  from cache_requested_from [of 0 keys "replicate 256 False"
      "\<lambda>j key. is_requested_write (written t) j \<and> key \<notin> reserved_account_keys env"] n
  obtain c1 where c1: "cache_requested env (written t) keys = Some c1" "length c1 = 256"
    "\<And>j. c1 ! j = (if j < length keys then write_requested t j \<and> keys ! j \<notin> reserved_account_keys env
       else replicate 256 False ! j)"
    unfolding cache_requested_def requested_written [OF k s] by auto
  have p: "\<forall>i \<in> set (w_instructions t). unat (program_id_index i) < length c1"
    using s n c1(2) by (auto simp: sanitary_def list_all_iff instruction_sanitary_def account_total_def)
  from cache_demote_fold [OF _ p, of None env keys] obtain cache q where
    d: "fold_opt (cache_demote env keys) (c1, None) (w_instructions t) = Some (cache, q)" "length cache = 256"
      "\<And>j. j < 256 \<Longrightarrow> cache ! j = (c1 ! j \<and> ((\<exists>i \<in> set (w_instructions t). unat (program_id_index i) = j) \<longrightarrow>
         bpf_loader_upgradeable env \<in> set keys))"
    using c1(2) by auto
  have "(case idx cache j of Some b \<Rightarrow> b | None \<Rightarrow> False) = writable_spec env t keys j" for j
    using d(2,3) c1(3) [of j] n by (auto simp: idx_def writable_spec_def)
  moreover have "cache_is_writable env (written t) resolved = Some cache"
    using contentsD [OF c] e c1(1) d(1) by (simp add: cache_is_writable_def account_env_ok_def keys_def Let_def)
  ultimately show ?thesis by blast
qed

text \<open>
  C13. The cache of writable accounts is exact: for a sanitized transaction and addresses loaded for it,
  building the resolved view never panics, fails exactly when the addresses do not fit the lookups,
  and otherwise an account is reported writable if and only if the header or a lookup asks for it,
  it is not reserved, and it is not a program of an instruction unless the upgradeable loader is
  among the accounts.
\<close>

theorem writable_accounts_exact:
  assumes "length bytes < 65536" "try_new_sanitized bytes = Some (Inr v)" "account_env_ok env"
  shows "\<exists>t. contents v = Some t \<and> sanitary t \<and>
    (if addresses_match t resolved
     then \<exists>r. resolved_view_try_new env v resolved = Some (Inr r) \<and>
       (\<forall>j. resolved_is_writable r j = writable_spec env t (all_keys (w_keys t) resolved) j)
     else resolved_view_try_new env v resolved = Some (Inl AddressLookupMismatch))"
proof -
  from assms(2) obtain u where u: "try_new_unsanitized bytes = Inr u" "view_sanitize u = Some (Inr v)"
    by (cases "try_new_unsanitized bytes") (auto simp: try_new_sanitized_def)
  from parsed_written [OF u(1) assms(1)] obtain t where t: "wire_ok t" "u = written t" "contents u = Some t" by metis
  have s: "sanitize u = Some (if sanitary t then Inr () else Inl SanitizeError)" using sanitize_written t by simp
  with u(2) have st: "sanitary t" and v: "v = written t" using t(2) by (auto simp: view_sanitize_def split: if_splits)
  have m: "resolved_view_try_new env v resolved =
      (if addresses_match t resolved then do {
         c \<leftarrow> cache_is_writable env v resolved;
         Some (Inr \<lparr>resolved_of = v, resolved_addresses = resolved, writable_cache = c\<rparr>) }
       else Some (Inl AddressLookupMismatch))"
    using t(1) view_counts(5,6) [OF t(1)]
    by (auto simp: resolved_view_try_new_def v addresses_match_def require_def wire_ok_def word_unat_eq_iff
        split: option.split transaction_version.splits if_splits)
      (metis transaction_version.exhaust)+
  have c: "contents (written t) = Some t" using t v by simp
  show ?thesis
    using cache_written [OF t(1) c st assms(3), of resolved] c st m
    by (intro exI [of _ t]) (auto simp: v resolved_is_writable_def)
qed

definition ex_account_env :: account_env where
  "ex_account_env = \<lparr>account_keys_iter = all_keys, reserved_account_keys = {}, bpf_loader_upgradeable = 99\<rparr>"

definition ex_loaded :: loaded_addresses where
  "ex_loaded = \<lparr>writable_addresses = [100], readonly_addresses = []\<rparr>"

lemma ex_tx_sanitized: "try_new_sanitized (enc_transaction ex_tx) = Some (Inr (written ex_tx))"
  using sanitize_written [OF ex_tx_ok ex_tx_contents] ex_tx_sanitary ex_tx_parsed
  by (simp add: try_new_sanitized_def view_sanitize_def)

theorem writable_accounts_exact_witness:
  "account_env_ok ex_account_env \<and> try_new_sanitized (enc_transaction ex_tx) = Some (Inr (written ex_tx)) \<and>
   (\<exists>r. resolved_view_try_new ex_account_env (written ex_tx) (Some ex_loaded) = Some (Inr r) \<and>
     resolved_is_writable r 2 \<and> \<not> resolved_is_writable r 1)"
proof -
  have e: "account_env_ok ex_account_env" by (simp add: account_env_ok_def ex_account_env_def)
  have m: "addresses_match ex_tx (Some ex_loaded)" by (simp add: addresses_match_def ex_tx_def ex_loaded_def)
  have w: "writable_spec ex_account_env ex_tx (all_keys (w_keys ex_tx) (Some ex_loaded)) 2"
    "\<not> writable_spec ex_account_env ex_tx (all_keys (w_keys ex_tx) (Some ex_loaded)) 1"
    by (simp_all add: writable_spec_def write_requested_def all_keys_def ex_tx_def ex_loaded_def ex_account_env_def)
  show ?thesis
    using writable_accounts_exact [OF ex_tx_length ex_tx_sanitized e, of "Some ex_loaded"] e ex_tx_sanitized
      ex_tx_contents m w by auto
qed

end
