(* ===== verification/Spec2Isabelle.thy ===== *)
theory Spec2Isabelle
  imports Account_Locks Fork_Votes Scheduling_Common Unified_Scheduler Cost_Tracker Token_Properties Tx_Properties
begin

text \<open>
  A verification library for the validator under \<^verbatim>\<open>src/\<close>, a fork of the Agave client of Solana. It covers
  the parts of the program that are state machines or codecs with a contract of their own, from the bytes
  of a transaction to the program that moves tokens:

  \<^item> a transaction arrives as bytes and is read in place by the transaction view;
  \<^item> the banking stage schedules it onto worker threads, under account locks, within the cost limits of a block;
    block verification schedules with the unified scheduler instead;
  \<^item> the account lock table guards its execution, in which the SPL Token program may run;
  \<^item> the fork choice decides, from the votes, which block to build on.

  \<^bold>\<open>Conventions.\<close> A Rust panic, and a read outside a buffer through a raw pointer, is the value \<^const>\<open>None\<close> of an
  option type or, in the token program, \<open>Inl Panic\<close>. A \<^verbatim>\<open>Result\<close> is a sum with \<^const>\<open>Inl\<close> for \<^verbatim>\<open>Err\<close>. Integers
  are words of their width with the wrapping arithmetic of the release profile; the checked and saturating
  methods are in \<^verbatim>\<open>Prelude\<close>. Shared cells are stores indexed by references. A loop over an iterator is a loop
  over the list it yields. A loop that follows links is a partial function into an option type, and the
  theorems that it returns are proved. Code of other crates is a parameter, with what the sources rely on
  as named hypotheses.

  \<^bold>\<open>Shared theories.\<close> \<^verbatim>\<open>Prelude\<close> (types, results, word arithmetic), \<^verbatim>\<open>Bytes\<close> (little-endian codecs, fields of
  buffers, UTF-8), \<^verbatim>\<open>System_Interface\<close> (the instructions of the system program), \<^verbatim>\<open>Lock_Interface\<close> (the locale
  \<open>lock_table\<close>: what a client of account locks may rely on, with the runs of grants and returns proved once).

  \<^bold>\<open>Account locks.\<close> \<^verbatim>\<open>Account_Locks\<close> models \<^verbatim>\<open>accounts-db/src/account_locks.rs\<close>: locking of one transaction and of a
  batch, unlocking, and the validation of account lists. It interprets \<open>lock_table\<close>. A request is granted
  exactly when it conflicts with nothing outstanding, and outstanding transactions never conflict.

  \<^bold>\<open>Banking stage scheduling\<close> (files under \<^verbatim>\<open>core/src/banking_stage/transaction_scheduler/\<close>). \<^verbatim>\<open>Thread_Sets\<close> and
  \<^verbatim>\<open>Thread_Aware_Locks\<close> model \<^verbatim>\<open>thread_aware_account_locks.rs\<close>, the second interpretation of \<open>lock_table\<close>;
  \<^verbatim>\<open>Scheduling_Common\<close> models \<^verbatim>\<open>scheduler_common.rs\<close>, \<^verbatim>\<open>in_flight_tracker.rs\<close> and \<^verbatim>\<open>batch_id_generator.rs\<close>. The lock
  decision is exact, unlocking never panics, work outstanding on different threads never conflicts, and
  the counters of work in flight are exact. The counters of the lock table are \<^verbatim>\<open>u32\<close>, so the lemmas bound the
  number of outstanding requests by \<open>2 ^ 32\<close>.

  \<^bold>\<open>Unified scheduler.\<close> \<^verbatim>\<open>Unified_Scheduler\<close> models \<^verbatim>\<open>unified-scheduler-logic/src/lib.rs\<close>. A task is unblocked exactly
  when no earlier active task conflicts with it; scheduling and descheduling never panic; the loop of
  \<^verbatim>\<open>clear_and_reinitialize\<close> ends. The loop has fuel, and the number of active tasks is shown to be enough.

  \<^bold>\<open>Cost model.\<close> \<^verbatim>\<open>Cost_Model\<close> and \<^verbatim>\<open>Cost_Tracker\<close> model \<^verbatim>\<open>cost-model/src/\<close> (\<^verbatim>\<open>block_cost_limits.rs\<close>, \<^verbatim>\<open>transaction_cost.rs\<close>,
  \<^verbatim>\<open>cost_model.rs\<close>, \<^verbatim>\<open>cost_tracker.rs\<close>): the totals of a block are exact and within every limit, admission
  refuses with the first limit exceeded, removal undoes admission.

  \<^bold>\<open>SPL Token program\<close> (files under \<^verbatim>\<open>spl-token/program/src/\<close>). \<^verbatim>\<open>Token_State\<close> models \<^verbatim>\<open>state.rs\<close> and \<^verbatim>\<open>error.rs\<close>,
  \<^verbatim>\<open>Token_Instruction\<close> \<^verbatim>\<open>instruction.rs\<close>, \<^verbatim>\<open>Token_Ui\<close> the string conversions of \<^verbatim>\<open>lib.rs\<close>, \<^verbatim>\<open>Token_Processor\<close>
  \<^verbatim>\<open>processor.rs\<close>, all on the stored bytes and with account names that may alias. \<^verbatim>\<open>Token_Ledger\<close> is the
  abstract ledger, \<^verbatim>\<open>Token_Refinement\<close> the simulation, \<^verbatim>\<open>Token_Authority\<close> the permissions, \<^verbatim>\<open>Token_Safety\<close> the
  absence of panics, \<^verbatim>\<open>Token_History\<close> the histories, \<^verbatim>\<open>Token_Example\<close> a concrete history, and
  \<^verbatim>\<open>Token_Properties\<close> the properties: conservation of supply, backing of wrapped lamports, authority and
  quorum for every change, no panic. The hypothesis \<open>env_ok\<close> states what the program takes from other crates: distinct
  well-known ids, a rent that does not overflow, and the length checks of the \<^verbatim>\<open>Pack\<close> trait. An
  instruction names at most 255 accounts, the limit of its wire format, since indices are bytes.

  \<^bold>\<open>Transaction view\<close> (files under \<^verbatim>\<open>transaction-view/src/\<close>). \<^verbatim>\<open>Tx_Bytes\<close> models \<^verbatim>\<open>bytes.rs\<close>, \<^verbatim>\<open>Tx_Frame\<close> the six frame
  files and \<^verbatim>\<open>transaction_frame.rs\<close>, \<^verbatim>\<open>Tx_View\<close> the accessors, \<^verbatim>\<open>sanitize.rs\<close> and \<^verbatim>\<open>resolved_transaction_view.rs\<close>;
  \<^verbatim>\<open>Tx_Wire\<close> specifies the wire format and \<^verbatim>\<open>Tx_Properties\<close> holds the properties: the raw reads stay inside the buffer and
  return what was written, parsing accepts every transaction within the limits, sanitization decides its
  conditions, the cache of writable accounts is exact. Buffers are shorter than 65536 bytes, as packets are.

  \<^bold>\<open>Fork choice\<close> (files under \<^verbatim>\<open>core/src/consensus/\<close>). \<^verbatim>\<open>Fork_Choice\<close> models \<^verbatim>\<open>heaviest_subtree_fork_choice.rs\<close> and
  \<^verbatim>\<open>tree_diff.rs\<close>; \<^verbatim>\<open>Fork_Tree\<close> and \<^verbatim>\<open>Fork_Loops\<close> relate the map of nodes and the loops over it to a tree,
  \<^verbatim>\<open>Fork_Process\<close> shows that a batch of updates leaves every node in agreement with its children, and
  \<^verbatim>\<open>Fork_Votes\<close> that counting votes keeps the invariant.

  \<^bold>\<open>Not modelled.\<close> The bank, accounts database storage, snapshots, ledger, gossip, turbine, the virtual machine,
  networking, RPC and the command-line programs: threads, sockets, files, or cryptography and
  storage of external crates around the parts above. SPL Token-2022, the loaders and the other builtin
  programs, which rest on interface crates outside \<^verbatim>\<open>src/\<close>. Within the modelled files: logging and metrics
  everywhere, the zero-sized tokens of the unified scheduler, the deprecated conversions of token amounts
  through floating point numbers, and the printing of the fork choice.
\<close>

end
